(* ===== verification/Prelude.thy ===== *)
theory Prelude
  imports Main "HOL-Library.Word"
begin

text \<open>
  The vocabulary the component theories share: how a run of the C++ code can end
  (\<open>stop\<close>), computations over the machine state with their sequencing, partial-correctness
  triples over them, and the few facts about lists that more than one component uses.

  The state itself is a parameter here (\<open>'s\<close>); it is fixed in the theory Machine.
\<close>

named_theorems run_simps \<open>evaluation of the sequencing combinators\<close>
named_theorems triple_intros \<open>rules for triples over computations\<close>
named_theorems calm_intros \<open>computations that concern no process and no heap block\<close>
named_theorems leaves_intros \<open>computations that make no call of an observed kind\<close>
named_theorems keeps_intros \<open>computations that keep an invariant in every outcome\<close>

section \<open>How a run ends\<close>

text \<open>
  The exceptions the sources throw or let through: \<open>std::runtime_error\<close> with its message,
  \<open>std::out_of_range\<close> of \<open>std::string::substr\<close>, the conversion error of \<open>YAML::Node::as\<close>,
  and the class \<open>CException\<close> of exceptions.cpp with the message it builds.
\<close>

datatype exn = Runtime_error string | Out_of_range | Bad_conversion | C_exception string

text \<open>
  A computation that does not return stops: an exception leaves it, an \<open>assert\<close> aborts, the
  process image is replaced by \<open>exec\<close> (in a forked child: was PATH searched, the file, the
  argument vector), \<open>exit\<close> is called, or the behaviour of the code is undefined (a null or
  dangling pointer is used, an array is read or written out of range, a block is freed twice).
  \<open>Out_of_fuel\<close> is not a behaviour of the code: it marks a run whose loop was not followed to
  its end.
\<close>

datatype stop =
    Throw exn
  | Assert_failed
  | Replaced bool string "string list"
  | Exited int
  | Undefined
  | Out_of_fuel

text \<open>A forked child never comes back from \<open>Process::run\<close>: it is replaced or exits.\<close>

fun child_stop :: "stop \<Rightarrow> bool" where
  "child_stop (Replaced _ _ _) = True"
| "child_stop (Exited _) = True"
| "child_stop _ = False"

section \<open>Computations over a state\<close>

datatype 'a res = Val 'a | Stop stop

type_synonym ('s, 'a) comp = "'s \<Rightarrow> 'a res \<times> 's"

definition ret :: "'a \<Rightarrow> ('s, 'a) comp" where
  "ret x = (\<lambda>s. (Val x, s))"

definition halt :: "stop \<Rightarrow> ('s, 'a) comp" where
  "halt e = (\<lambda>s. (Stop e, s))"

definition bnd :: "('s, 'a) comp \<Rightarrow> ('a \<Rightarrow> ('s, 'b) comp) \<Rightarrow> ('s, 'b) comp" where
  "bnd m k = (\<lambda>s. case m s of (Val x, t) \<Rightarrow> k x t | (Stop e, t) \<Rightarrow> (Stop e, t))"

definition thn :: "('s, 'a) comp \<Rightarrow> ('s, 'b) comp \<Rightarrow> ('s, 'b) comp" where
  "thn m k = bnd m (\<lambda>_. k)"

definition gets :: "('s \<Rightarrow> 'a) \<Rightarrow> ('s, 'a) comp" where
  "gets f = (\<lambda>s. (Val (f s), s))"

definition modify :: "('s \<Rightarrow> 's) \<Rightarrow> ('s, unit) comp" where
  "modify f = (\<lambda>s. (Val (), f s))"

text \<open>A pure result that may have stopped, used as a computation.\<close>

definition lift_res :: "stop + 'a \<Rightarrow> ('s, 'a) comp" where
  "lift_res r = (case r of Inl e \<Rightarrow> halt e | Inr x \<Rightarrow> ret x)"

text \<open>The same sequencing for results that touch no state.\<close>

definition ebnd :: "stop + 'a \<Rightarrow> ('a \<Rightarrow> stop + 'b) \<Rightarrow> stop + 'b" where
  "ebnd r k = (case r of Inl e \<Rightarrow> Inl e | Inr x \<Rightarrow> k x)"

text \<open>A range-based \<open>for\<close> whose body threads a value, and one whose body does not.\<close>

fun for_acc :: "('a \<Rightarrow> 'b \<Rightarrow> ('s, 'b) comp) \<Rightarrow> 'a list \<Rightarrow> 'b \<Rightarrow> ('s, 'b) comp" where
  "for_acc f [] b = ret b"
| "for_acc f (x # xs) b = bnd (f x b) (for_acc f xs)"

fun for_each :: "('a \<Rightarrow> ('s, 'b) comp) \<Rightarrow> 'a list \<Rightarrow> ('s, unit) comp" where
  "for_each f [] = ret ()"
| "for_each f (x # xs) = thn (f x) (for_each f xs)"

lemma ret_run [run_simps]: "ret x s = (Val x, s)"
  by (simp add: ret_def)

lemma halt_run [run_simps]: "halt e s = (Stop e, s)"
  by (simp add: halt_def)

lemma gets_run [run_simps]: "gets f s = (Val (f s), s)"
  by (simp add: gets_def)

lemma modify_run [run_simps]: "modify f s = (Val (), f s)"
  by (simp add: modify_def)

lemma bnd_Val [run_simps]: "m s = (Val x, t) \<Longrightarrow> bnd m k s = k x t"
  by (simp add: bnd_def)

lemma bnd_Stop [run_simps]: "m s = (Stop e, t) \<Longrightarrow> bnd m k s = (Stop e, t)"
  by (simp add: bnd_def)

lemma thn_Val [run_simps]: "m s = (Val x, t) \<Longrightarrow> thn m k s = k t"
  by (simp add: thn_def bnd_def)

lemma thn_Stop [run_simps]: "m s = (Stop e, t) \<Longrightarrow> thn m k s = (Stop e, t)"
  by (simp add: thn_def bnd_def)

lemma lift_res_run [run_simps]:
  "lift_res (Inr x) s = (Val x, s)"
  "lift_res (Inl e) s = (Stop e, s)"
  by (simp_all add: lift_res_def ret_def halt_def)

lemma ebnd_simps [simp]:
  "ebnd (Inr x) k = k x"
  "ebnd (Inl e) k = Inl e"
  by (simp_all add: ebnd_def)

lemma bnd_ret [simp]: "bnd (ret x) k = k x"
  by (rule ext) (simp add: bnd_def ret_def)

lemma bnd_halt [simp]: "bnd (halt e) k = halt e"
  by (rule ext) (simp add: bnd_def halt_def)

lemma thn_ret [simp]: "thn (ret x) k = k"
  by (simp add: thn_def)

lemma bnd_assoc: "bnd (bnd m k) l = bnd m (\<lambda>x. bnd (k x) l)"
  by (rule ext) (simp add: bnd_def split: prod.split res.split)

lemma thn_assoc: "thn (thn m k) l = thn m (thn k l)"
  by (simp add: thn_def bnd_assoc)

lemma thn_ret_right [simp]: "thn m (ret ()) = m"
  by (rule ext) (simp add: thn_def bnd_def ret_def split: prod.split res.split)

lemma for_each_append: "for_each f (xs @ ys) = thn (for_each f xs) (for_each f ys)"
  by (induction xs) (simp_all add: thn_assoc)

section \<open>Triples\<close>

text \<open>
  \<open>triple P m Q E\<close>: from a state that satisfies \<open>P\<close>, a run of \<open>m\<close> either returns a value and
  a state that satisfy \<open>Q\<close>, or stops in a way that satisfies \<open>E\<close>. The runs are functions, so
  there is always such an outcome: with \<open>E\<close> false everywhere a triple says that \<open>m\<close> returns.
\<close>

definition triple :: "('s \<Rightarrow> bool) \<Rightarrow> ('s, 'a) comp \<Rightarrow> ('a \<Rightarrow> 's \<Rightarrow> bool) \<Rightarrow>
    (stop \<Rightarrow> 's \<Rightarrow> bool) \<Rightarrow> bool" where
  "triple P m Q E \<longleftrightarrow>
     (\<forall>s. P s \<longrightarrow> (case m s of (Val x, t) \<Rightarrow> Q x t | (Stop e, t) \<Rightarrow> E e t))"

lemma tripleI:
  assumes "\<And>s x t. P s \<Longrightarrow> m s = (Val x, t) \<Longrightarrow> Q x t"
    and "\<And>s e t. P s \<Longrightarrow> m s = (Stop e, t) \<Longrightarrow> E e t"
  shows "triple P m Q E"
  using assms by (auto simp: triple_def split: prod.split res.split)

lemma triple_Val: "triple P m Q E \<Longrightarrow> P s \<Longrightarrow> m s = (Val x, t) \<Longrightarrow> Q x t"
  unfolding triple_def by (drule spec [of _ s]) simp

lemma triple_Stop: "triple P m Q E \<Longrightarrow> P s \<Longrightarrow> m s = (Stop e, t) \<Longrightarrow> E e t"
  unfolding triple_def by (drule spec [of _ s]) simp

lemma triple_conseq:
  assumes "triple P m Q E"
    and "\<And>s. P' s \<Longrightarrow> P s"
    and "\<And>x t. Q x t \<Longrightarrow> Q' x t"
    and "\<And>e t. E e t \<Longrightarrow> E' e t"
  shows "triple P' m Q' E'"
  by (rule tripleI)
     (blast intro: assms(2-4) triple_Val [OF assms(1)] triple_Stop [OF assms(1)])+

lemma triple_pre: "triple P m Q E \<Longrightarrow> (\<And>s. P' s \<Longrightarrow> P s) \<Longrightarrow> triple P' m Q E"
  by (rule triple_conseq)

lemma triple_post: "triple P m Q E \<Longrightarrow> (\<And>x t. Q x t \<Longrightarrow> Q' x t) \<Longrightarrow> triple P m Q' E"
  by (rule triple_conseq)

lemma triple_ret [triple_intros]: "(\<And>s. P s \<Longrightarrow> Q x s) \<Longrightarrow> triple P (ret x) Q E"
  by (simp add: triple_def ret_def)

lemma triple_halt [triple_intros]: "(\<And>s. P s \<Longrightarrow> E e s) \<Longrightarrow> triple P (halt e) Q E"
  by (simp add: triple_def halt_def)

lemma triple_gets [triple_intros]: "(\<And>s. P s \<Longrightarrow> Q (f s) s) \<Longrightarrow> triple P (gets f) Q E"
  by (simp add: triple_def gets_def)

lemma triple_modify [triple_intros]: "(\<And>s. P s \<Longrightarrow> Q () (f s)) \<Longrightarrow> triple P (modify f) Q E"
  by (simp add: triple_def modify_def)

lemma triple_bnd:
  assumes m: "triple P m R E" and k: "\<And>x. triple (R x) (k x) Q E"
  shows "triple P (bnd m k) Q E"
  unfolding triple_def bnd_def
proof (intro allI impI)
  fix s assume "P s"
  obtain r t where r: "m s = (r, t)" by (cases "m s")
  show "case case m s of (Val x, t) \<Rightarrow> k x t | (Stop e, t) \<Rightarrow> (Stop e, t) of
          (Val x, t) \<Rightarrow> Q x t | (Stop e, t) \<Rightarrow> E e t"
  proof (cases r)
    case (Val x)
    with r \<open>P s\<close> m have "R x t" by (blast intro: triple_Val)
    with k [of x] r Val show ?thesis by (simp add: triple_def)
  next
    case (Stop e)
    with r \<open>P s\<close> m show ?thesis by (auto dest: triple_Stop)
  qed
qed

lemma triple_thn:
  "triple P m (\<lambda>_. R) E \<Longrightarrow> triple R k Q E \<Longrightarrow> triple P (thn m k) Q E"
  unfolding thn_def by (rule triple_bnd)

lemma triple_if:
  assumes "b \<Longrightarrow> triple P m Q E" and "\<not> b \<Longrightarrow> triple P n Q E"
  shows "triple P (if b then m else n) Q E"
  using assms by simp

lemma triple_ex:
  assumes "\<And>x. triple (P x) m Q E"
  shows "triple (\<lambda>s. \<exists>x. P x s) m Q E"
  by (rule tripleI) (auto dest: triple_Val [OF assms] triple_Stop [OF assms])

lemma triple_pure: "(b \<Longrightarrow> triple P m Q E) \<Longrightarrow> triple (\<lambda>s. P s \<and> b) m Q E"
  by (cases b) (simp_all add: triple_def)

text \<open>
  A range-based \<open>for\<close> with an invariant that may speak of the elements already done.
\<close>

lemma triple_for_each:
  assumes step: "\<And>x done. x \<in> set xs \<Longrightarrow> triple (I done) (f x) (\<lambda>_. I (done @ [x])) E"
  shows "triple (I pre) (for_each f xs) (\<lambda>_. I (pre @ xs)) E"
  using step
proof (induction xs arbitrary: pre)
  case Nil
  show ?case by (simp add: triple_ret)
next
  case (Cons x xs)
  have "triple (I pre) (f x) (\<lambda>_. I (pre @ [x])) E"
    by (rule Cons.prems) simp
  moreover have "triple (I (pre @ [x])) (for_each f xs) (\<lambda>_. I ((pre @ [x]) @ xs)) E"
    by (rule Cons.IH) (simp add: Cons.prems)
  ultimately show ?case by (simp add: triple_thn)
qed

lemma triple_for_acc:
  assumes "\<And>x b. x \<in> set xs \<Longrightarrow> triple (I b) (f x b) I E"
  shows "triple (I b) (for_acc f xs b) I E"
  using assms
proof (induction xs arbitrary: b)
  case Nil
  show ?case by (simp add: triple_ret)
next
  case (Cons x xs)
  show ?case unfolding for_acc.simps
    by (rule triple_bnd [OF Cons.prems]) (simp_all add: Cons.IH Cons.prems)
qed

section \<open>C strings and \<open>std::string\<close>\<close>

text \<open>
  A \<open>std::string\<close> is its list of characters; it may hold the character 0. What a C function
  sees of it through \<open>c_str()\<close> ends at the first 0.
\<close>

definition cstr :: "string \<Rightarrow> string" where
  "cstr s = takeWhile (\<lambda>c. c \<noteq> CHR 0x00) s"

lemma cstr_id: "CHR 0x00 \<notin> set s \<Longrightarrow> cstr s = s"
  by (auto simp: cstr_def takeWhile_eq_all_conv)

lemma length_cstr: "length (cstr s) \<le> length s"
  by (simp add: cstr_def length_takeWhile_le)

lemma cstr_no_nul: "CHR 0x00 \<notin> set (cstr s)"
  by (auto simp: cstr_def dest: set_takeWhileD)

lemma cstr_cstr [simp]: "cstr (cstr s) = cstr s"
  by (rule cstr_id) (rule cstr_no_nul)

text \<open>
  \<open>substr(pos, n)\<close> throws when \<open>pos\<close> is past the end and otherwise stops at the end;
  \<open>substr(pos)\<close> is its case \<open>n = npos\<close>. \<open>operator[]\<close> may read the terminating 0 at the
  index \<open>size()\<close>; any index beyond is undefined.
\<close>

definition substr :: "string \<Rightarrow> nat \<Rightarrow> nat \<Rightarrow> stop + string" where
  "substr s pos n = (if length s < pos then Inl (Throw Out_of_range) else Inr (take n (drop pos s)))"

definition substr_from :: "string \<Rightarrow> nat \<Rightarrow> stop + string" where
  "substr_from s pos = (if length s < pos then Inl (Throw Out_of_range) else Inr (drop pos s))"

definition char_at :: "string \<Rightarrow> nat \<Rightarrow> stop + char" where
  "char_at s i = (if i < length s then Inr (s ! i)
     else if i = length s then Inr (CHR 0x00) else Inl Undefined)"

text \<open>Words joined by single spaces.\<close>

fun join_sp :: "string list \<Rightarrow> string" where
  "join_sp [] = []"
| "join_sp [a] = a"
| "join_sp (a # b # r) = a @ CHR '' '' # join_sp (b # r)"

lemma join_sp_Cons: "r \<noteq> [] \<Longrightarrow> join_sp (a # r) = a @ CHR '' '' # join_sp r"
  by (cases r) simp_all

lemma join_sp_snoc: "join_sp (xs @ [y]) = concat (map (\<lambda>a. a @ '' '') xs) @ y"
proof (induction xs)
  case Nil
  show ?case by simp
next
  case (Cons x xs)
  then show ?case by (simp add: join_sp_Cons)
qed

end
