(* ===== verification/Machine.thy ===== *)
theory Machine
  imports Prelude
begin

text \<open>
  The machine the program runs on: the operating system as a parameter, the history of what was
  asked of it, and the two kinds of heap blocks the components share by pointer.

  The operating system is not code of the repository. It appears as a record \<open>os\<close> of functions
  from the history of the run so far to an answer, so that every definition takes it as an
  argument and every theorem holds for all of its behaviours, or for those that satisfy a named
  hypothesis (\<open>posix_fork\<close>, \<open>posix_wait\<close>, \<open>posix_kill\<close>).
\<close>

section \<open>The history of a run\<close>

datatype stream = Stdout | Stderr | Logfile string

type_synonym byte = "8 word"

text \<open>
  Every call the program makes of the system, with the answer it got. \<open>EExec\<close> is an \<open>exec\<close> that
  failed; one that succeeds ends the run (\<open>Replaced\<close>). \<open>EWait\<close> holds the pid, whether
  \<open>WNOHANG\<close> was given, the result and the status word.
\<close>

datatype event =
    EFork int
  | EExec bool string "string list"
  | EWait int bool int int
  | EKill int int int
  | ESleep int
  | ETime int
  | EOut stream string
  | EOpen string bool
  | EGetcwd "string option"
  | ELstat string "bool option"
  | EDir string "string list option"
  | EInotify int
  | EAddWatch int string int
  | ERmWatch int int
  | EClose int
  | ESelect int int
  | ERead int int

type_synonym history = "event list"

text \<open>The broken-down time of \<open>localtime\<close> and \<open>mktime\<close>.\<close>

record tm =
  tm_sec :: int
  tm_min :: int
  tm_hour :: int
  tm_mday :: int
  tm_mon :: int
  tm_year :: int
  tm_isdst :: int

text \<open>
  The system's answers. Calls that can fail give their error number beside the result.
  \<open>os_exec\<close> gives \<open>None\<close> when the process image is replaced. \<open>os_lstat\<close> says whether the file is
  a directory, \<open>None\<close> when the call fails. \<open>os_open\<close> opens a file to append to, \<open>os_file\<close> gives the
  contents of one that can be opened for reading. \<open>os_dir\<close> gives the names a directory stream reads, in
  order, \<open>None\<close> when the directory cannot be opened. \<open>os_read\<close> gives the result of \<open>read\<close> and the
  bytes it stored.
\<close>

record os =
  os_fork :: "history \<Rightarrow> int \<times> int"
  os_exec :: "history \<Rightarrow> bool \<Rightarrow> string \<Rightarrow> string list \<Rightarrow> int option"
  os_waitpid :: "history \<Rightarrow> int \<Rightarrow> bool \<Rightarrow> int \<times> int \<times> int"
  os_kill :: "history \<Rightarrow> int \<Rightarrow> int \<Rightarrow> int \<times> int"
  os_time :: "history \<Rightarrow> int"
  os_localtime :: "int \<Rightarrow> tm"
  os_mktime :: "tm \<Rightarrow> int"
  os_strerror :: "int \<Rightarrow> string"
  os_open :: "history \<Rightarrow> string \<Rightarrow> bool"
  os_file :: "history \<Rightarrow> string \<Rightarrow> string option"
  os_getcwd :: "history \<Rightarrow> int + string"
  os_lstat :: "history \<Rightarrow> string \<Rightarrow> bool option"
  os_dir :: "history \<Rightarrow> string \<Rightarrow> int + string list"
  os_inotify_init :: "history \<Rightarrow> int \<times> int"
  os_add_watch :: "history \<Rightarrow> int \<Rightarrow> string \<Rightarrow> int"
  os_rm_watch :: "history \<Rightarrow> int \<Rightarrow> int \<Rightarrow> int"
  os_select :: "history \<Rightarrow> int \<Rightarrow> int \<times> int"
  os_read :: "history \<Rightarrow> int \<Rightarrow> nat \<Rightarrow> int \<times> int \<times> byte list"
  os_getpid :: "history \<Rightarrow> int"

definition ECHILD :: int where "ECHILD = 10"
definition SIGTERM :: int where "SIGTERM = 15"

section \<open>The state\<close>

text \<open>
  A \<open>Process\<close> object (src/src/process.hpp): the pid of its last fork (0 before any), the flags
  of its constructors, and the address of its argument vector, which other objects may share.
\<close>

record process =
  mProc :: int
  mSearchInPath :: bool
  mGeneratedCommand :: bool
  mEnabled :: bool
  mCommand :: nat

text \<open>
  \<open>procs\<close> and \<open>argvs\<close> are the heap: the address of a block is its index, a freed block is
  \<open>None\<close>, and a new block takes the next index. \<open>errno\<close> is the variable of the C library.
\<close>

record sys =
  hist :: history
  errno :: int
  procs :: "process option list"
  argvs :: "string list option list"

type_synonym 'a io = "(sys, 'a) comp"

definition sys0 :: sys where
  "sys0 = \<lparr>hist = [], errno = 0, procs = [], argvs = []\<rparr>"

definition slot :: "'a option list \<Rightarrow> nat \<Rightarrow> 'a option" where
  "slot xs i = (if i < length xs then xs ! i else None)"

lemma slot_append: "slot xs i = Some x \<Longrightarrow> slot (xs @ ys) i = Some x"
  by (auto simp: slot_def nth_append split: if_splits)

lemma slot_new [simp]: "slot (xs @ [v]) (length xs) = v"
  by (simp add: slot_def)

lemma slot_update: "slot (xs[i := v]) j = (if j = i \<and> i < length xs then v else slot xs j)"
  by (auto simp: slot_def)

lemma slot_length: "slot xs i = Some x \<Longrightarrow> i < length xs"
  by (simp add: slot_def split: if_splits)

text \<open>
  Dereferencing: a null pointer (\<open>None\<close>) or a freed block has no defined behaviour.
\<close>

definition deref :: "'a option \<Rightarrow> 'a io" where
  "deref p = (case p of None \<Rightarrow> halt Undefined | Some a \<Rightarrow> ret a)"

definition get_proc :: "nat \<Rightarrow> process io" where
  "get_proc p = bnd (gets (\<lambda>s. slot (procs s) p)) deref"

definition get_argv :: "nat \<Rightarrow> string list io" where
  "get_argv a = bnd (gets (\<lambda>s. slot (argvs s) a)) deref"

definition put_proc :: "nat \<Rightarrow> process \<Rightarrow> unit io" where
  "put_proc p pr = modify (\<lambda>s. s\<lparr>procs := (procs s)[p := Some pr]\<rparr>)"

definition new_proc :: "process \<Rightarrow> nat io" where
  "new_proc pr = bnd (gets (\<lambda>s. length (procs s)))
     (\<lambda>p. thn (modify (\<lambda>s. s\<lparr>procs := procs s @ [Some pr]\<rparr>)) (ret p))"

definition new_argv :: "string list \<Rightarrow> nat io" where
  "new_argv v = bnd (gets (\<lambda>s. length (argvs s)))
     (\<lambda>a. thn (modify (\<lambda>s. s\<lparr>argvs := argvs s @ [Some v]\<rparr>)) (ret a))"

definition free_argv :: "nat \<Rightarrow> unit io" where
  "free_argv a = thn (get_argv a) (modify (\<lambda>s. s\<lparr>argvs := (argvs s)[a := None]\<rparr>))"

definition free_proc :: "nat \<Rightarrow> unit io" where
  "free_proc p = thn (get_proc p) (modify (\<lambda>s. s\<lparr>procs := (procs s)[p := None]\<rparr>))"

section \<open>System calls\<close>

text \<open>
  One call: the answer is looked up for the history so far, recorded, and \<open>errno\<close> is set where
  the call reports a failure through it.
\<close>

definition sys_call :: "(history \<Rightarrow> 'r) \<Rightarrow> ('r \<Rightarrow> event) \<Rightarrow> ('r \<Rightarrow> int option) \<Rightarrow> 'r io" where
  "sys_call f ev er = (\<lambda>s. let r = f (hist s) in
     (Val r, s\<lparr>hist := hist s @ [ev r],
               errno := (case er r of Some n \<Rightarrow> n | None \<Rightarrow> errno s)\<rparr>))"

definition sys_fork :: "os \<Rightarrow> int io" where
  "sys_fork os = bnd (sys_call (os_fork os) (\<lambda>(r, e). EFork r)
       (\<lambda>(r, e). if r = -1 then Some e else None))
     (\<lambda>(r, e). ret r)"

definition sys_waitpid :: "os \<Rightarrow> int \<Rightarrow> bool \<Rightarrow> (int \<times> int) io" where
  "sys_waitpid os p nohang = bnd (sys_call (\<lambda>h. os_waitpid os h p nohang)
       (\<lambda>(r, st, e). EWait p nohang r st) (\<lambda>(r, st, e). if r = -1 then Some e else None))
     (\<lambda>(r, st, e). ret (r, if 0 < r then st else 0))"

definition sys_kill :: "os \<Rightarrow> int \<Rightarrow> int \<Rightarrow> int io" where
  "sys_kill os p sig = bnd (sys_call (\<lambda>h. os_kill os h p sig)
       (\<lambda>(r, e). EKill p sig r) (\<lambda>(r, e). if r \<noteq> 0 then Some e else None))
     (\<lambda>(r, e). ret r)"

definition sys_time :: "os \<Rightarrow> int io" where
  "sys_time os = sys_call (os_time os) ETime (\<lambda>_. None)"

definition sys_usleep :: "int \<Rightarrow> unit io" where
  "sys_usleep n = sys_call (\<lambda>_. ()) (\<lambda>_. ESleep n) (\<lambda>_. None)"

definition sys_write :: "stream \<Rightarrow> string \<Rightarrow> unit io" where
  "sys_write fd text = sys_call (\<lambda>_. ()) (\<lambda>_. EOut fd text) (\<lambda>_. None)"

section \<open>What the history says\<close>

text \<open>
  Output and questions about the time do not concern other processes: \<open>acts\<close> forgets them.
\<close>

fun quiet :: "event \<Rightarrow> bool" where
  "quiet (EOut _ _) = True"
| "quiet (ETime _) = True"
| "quiet (EOpen _ _) = True"
| "quiet _ = False"

definition acts :: "history \<Rightarrow> history" where
  "acts h = filter (\<lambda>e. \<not> quiet e) h"

lemma acts_append [simp]: "acts (h @ h') = acts h @ acts h'"
  by (simp add: acts_def)

lemma acts_Nil [simp]: "acts [] = []"
  by (simp add: acts_def)

lemma acts_Cons [simp]: "acts (e # h) = (if quiet e then acts h else e # acts h)"
  by (simp add: acts_def)

lemma acts_acts [simp]: "acts (acts h) = acts h"
  by (simp add: acts_def)

text \<open>
  The children the program has started and not collected: \<open>fork\<close> adds the pid it gives the
  parent, a \<open>waitpid\<close> that returns a pid takes it away.
\<close>

fun kid_step :: "event \<Rightarrow> int set \<Rightarrow> int set" where
  "kid_step (EFork r) K = (if 0 < r then insert r K else K)"
| "kid_step (EWait p nohang r st) K = (if 0 < r then K - {r} else K)"
| "kid_step _ K = K"

definition kids :: "history \<Rightarrow> int set" where
  "kids h = fold kid_step h {}"

lemma kids_Nil [simp]: "kids [] = {}"
  by (simp add: kids_def)

lemma kids_snoc: "kids (h @ [e]) = kid_step e (kids h)"
  by (simp add: kids_def)

lemma kid_step_quiet: "quiet e \<Longrightarrow> kid_step e K = K"
  by (cases e) auto

lemma fold_kid_step_acts: "fold kid_step (acts h) K = fold kid_step h K"
  by (induction h arbitrary: K) (auto simp: kid_step_quiet)

lemma kids_acts [simp]: "kids (acts h) = kids h"
  by (simp add: kids_def fold_kid_step_acts)

lemma kids_append: "kids (h @ h') = fold kid_step h' (kids h)"
  by (simp add: kids_def)

text \<open>Everything about a state that a log message leaves alone.\<close>

definition core :: "sys \<Rightarrow> history \<times> process option list \<times> string list option list" where
  "core s = (acts (hist s), procs s, argvs s)"

lemma core_kids: "core t = (acts (hist s) @ h, P, V) \<Longrightarrow> kids (acts (hist s) @ h) = kids (hist t)"
  by (auto simp: core_def) (metis kids_acts)+

section \<open>What is assumed of the system, where it is\<close>

text \<open>
  Documented behaviour of POSIX calls, as predicates a theorem may take as a hypothesis.
  \<open>posix_fork\<close>: a new child gets a pid above 1 that no uncollected child has. \<open>posix_wait\<close>: a
  wait for an uncollected child returns it (with \<open>WNOHANG\<close>, or nothing), and is not interrupted by
  a signal; a wait for any other pid fails with \<open>ECHILD\<close>. \<open>posix_kill\<close>: who may send the null
  signal to a process may send it \<open>SIGTERM\<close>.
\<close>

definition posix_fork :: "os \<Rightarrow> bool" where
  "posix_fork os \<longleftrightarrow> (\<forall>h. fst (os_fork os h) \<in> {-1, 0} \<or>
     (1 < fst (os_fork os h) \<and> fst (os_fork os h) \<notin> kids h))"

definition posix_wait :: "os \<Rightarrow> bool" where
  "posix_wait os \<longleftrightarrow> (\<forall>h p st e r nohang. 0 < p \<longrightarrow> os_waitpid os h p nohang = (r, st, e) \<longrightarrow>
     (if p \<in> kids h then r = p \<or> nohang \<and> r = 0 else r = -1 \<and> e = ECHILD))"

definition posix_kill :: "os \<Rightarrow> bool" where
  "posix_kill os \<longleftrightarrow> (\<forall>h p. 1 < p \<longrightarrow> fst (os_kill os h p 0) = 0 \<longrightarrow>
     fst (os_kill os (h @ [EKill p 0 0]) p SIGTERM) = 0)"

definition posix :: "os \<Rightarrow> bool" where
  "posix os \<longleftrightarrow> posix_fork os \<and> posix_wait os \<and> posix_kill os"

section \<open>A system that behaves so\<close>

text \<open>
  An example for the witnesses: \<open>fork\<close> counts upwards, children end with a given status word
  and are collected by a blocking wait only, the clock is read off the history, the file system
  is one empty directory and no events come. Scenarios update single fields of it.
\<close>

fun top_pid :: "history \<Rightarrow> int" where
  "top_pid [] = 100"
| "top_pid (EFork r # h) = max r (top_pid h)"
| "top_pid (_ # h) = top_pid h"

definition demo_os :: "(int \<Rightarrow> int) \<Rightarrow> os" where
  "demo_os status =
    \<lparr>os_fork = (\<lambda>h. (top_pid h + 1, 0)),
     os_exec = (\<lambda>h path file argv. None),
     os_waitpid = (\<lambda>h p nohang. if p \<in> kids h then (if nohang then (0, 0, 0) else (p, status p, 0))
                               else (-1, 0, ECHILD)),
     os_kill = (\<lambda>h p sig. if p \<in> kids h then (0, 0) else (-1, 3)),
     os_time = (\<lambda>h. 1000 + int (length h)),
     os_localtime = (\<lambda>t. \<lparr>tm_sec = t, tm_min = 0, tm_hour = 0, tm_mday = 0, tm_mon = 0,
                           tm_year = 0, tm_isdst = 0\<rparr>),
     os_mktime = tm_sec,
     os_strerror = (\<lambda>e. ''error''),
     os_open = (\<lambda>h f. True),
     os_file = (\<lambda>h f. None),
     os_getcwd = (\<lambda>h. Inr ''/work''),
     os_lstat = (\<lambda>h f. if f = ''/work'' \<or> f = ''.'' \<or> f = ''..'' then Some True else None),
     os_dir = (\<lambda>h f. if f = ''/work'' then Inr [''.'', ''..''] else Inl 2),
     os_inotify_init = (\<lambda>h. (3, 0)),
     os_add_watch = (\<lambda>h fd f. 1),
     os_rm_watch = (\<lambda>h fd wd. 0),
     os_select = (\<lambda>h fd. (0, 0)),
     os_read = (\<lambda>h fd n. (0, 0, [])),
     os_getpid = (\<lambda>h. 99)\<rparr>"

lemma kid_step_top: "\<forall>p \<in> fold kid_step h K. p \<in> K \<or> p \<le> top_pid h"
proof (induction h arbitrary: K)
  case Nil
  show ?case by simp
next
  case (Cons e h)
  have "\<forall>p \<in> kid_step e K. p \<in> K \<or> p \<le> top_pid (e # h)" by (cases e) auto
  moreover have "top_pid h \<le> top_pid (e # h)" by (cases e) auto
  ultimately show ?case using Cons.IH [of "kid_step e K"] by fastforce
qed

lemma kids_top: "p \<in> kids h \<Longrightarrow> p \<le> top_pid h"
  using kid_step_top [of h "{}"] by (auto simp: kids_def)

lemma top_pid_ge: "100 \<le> top_pid h"
  by (induction h rule: top_pid.induct) auto

lemma posix_demo: "posix (demo_os status)"
proof -
  have "top_pid h + 1 \<notin> kids h" for h using kids_top [of "top_pid h + 1" h] by auto
  moreover have "1 < top_pid h + 1" for h using top_pid_ge [of h] by simp
  ultimately have "posix_fork (demo_os status)" by (simp add: posix_fork_def demo_os_def)
  moreover have "posix_wait (demo_os status)"
    by (auto simp: posix_wait_def demo_os_def split: if_splits)
  moreover have "posix_kill (demo_os status)"
    by (auto simp: posix_kill_def demo_os_def kids_snoc split: if_splits)
  ultimately show ?thesis by (simp add: posix_def)
qed

end
