(* ===== verification/Logger.thy ===== *)
theory Logger
  imports Machine
begin

text \<open>
  The loggers of src/src/log.hpp and src/src/log.cpp: levels, the message a level and a
  \<open>printf\<close> format make, the streams the two kinds of logger write to. The interface the other
  components use (\<open>LOG\<close> and \<open>LOG_ERROR\<close> write a message and disturb nothing else) is the locale
  \<open>logging\<close>.
\<close>

section \<open>Levels\<close>

datatype LogLevel = DEBUG | INFO | SUCCESS | WARNING | ERROR | CRITICAL

text \<open>The order is that of the enumeration's values.\<close>

fun level_val :: "LogLevel \<Rightarrow> nat" where
  "level_val DEBUG = 0"
| "level_val INFO = 1"
| "level_val SUCCESS = 2"
| "level_val WARNING = 3"
| "level_val ERROR = 4"
| "level_val CRITICAL = 5"

lemma level_val_inj: "level_val a = level_val b \<Longrightarrow> a = b"
  by (cases a; cases b) simp_all

instantiation LogLevel :: linorder
begin

definition less_eq_LogLevel :: "LogLevel \<Rightarrow> LogLevel \<Rightarrow> bool" where
  "a \<le> b \<longleftrightarrow> level_val a \<le> level_val b"

definition less_LogLevel :: "LogLevel \<Rightarrow> LogLevel \<Rightarrow> bool" where
  "a < b \<longleftrightarrow> level_val a < level_val b"

instance
  by intro_classes
    (auto simp: less_eq_LogLevel_def less_LogLevel_def intro: level_val_inj)

end

datatype LOG_COLORS = RESET | GREY | RED | GREEN | YELLOW

definition esc :: "string \<Rightarrow> string" where
  "esc code = CHR 0x1B # CHR ''['' # code @ ''m''"

fun LogColors :: "LOG_COLORS \<Rightarrow> string" where
  "LogColors RESET = esc ''0''"
| "LogColors GREY = esc ''1;30''"
| "LogColors RED = esc ''0;31''"
| "LogColors GREEN = esc ''0;32''"
| "LogColors YELLOW = esc ''0;33''"

text \<open>
  The \<open>switch\<close> of \<open>createMessage\<close>, its cases in order. \<open>INFO\<close> falls through to \<open>SUCCESS\<close> and
  \<open>WARNING\<close> to \<open>ERROR\<close> and \<open>CRITICAL\<close>; a colour is set only while none is, so the first one stays.
\<close>

fun level_style :: "LogLevel \<Rightarrow> string \<times> string" where
  "level_style DEBUG = (LogColors GREY, '' -> '')"
| "level_style INFO = (LogColors GREY, ''=> '')"
| "level_style SUCCESS = (LogColors GREEN, ''=> '')"
| "level_style WARNING = (LogColors YELLOW, ''=> '')"
| "level_style ERROR = (LogColors RED, ''=> '')"
| "level_style CRITICAL = (LogColors RED, ''=> '')"

section \<open>Formatted output\<close>

text \<open>
  Numbers in a base up to 16, most significant digit first.
\<close>

definition digit :: "nat \<Rightarrow> char" where
  "digit d = ''0123456789abcdef'' ! d"

fun in_base :: "nat \<Rightarrow> nat \<Rightarrow> string" where
  "in_base b n = (if n < b \<or> b < 2 then [digit n] else in_base b (n div b) @ [digit (n mod b)])"

declare in_base.simps [simp del]

definition show_int :: "int \<Rightarrow> string" where
  "show_int i = (if i < 0 then CHR ''-'' # in_base 10 (nat (- i)) else in_base 10 (nat i))"

text \<open>
  The part of \<open>vsnprintf\<close> the sources use: \<open>%s\<close>, \<open>%d\<close>, \<open>%x\<close>, \<open>%ju\<close> (which prints a
  \<open>uintmax_t\<close>) and \<open>%%\<close>. Arguments left over are ignored; a conversion with no argument of its
  kind has no defined behaviour (\<open>None\<close>).
\<close>

datatype parg = PStr string | PInt int | PHex "32 word" | PMax int

fun conv :: "char \<Rightarrow> parg \<Rightarrow> string option" where
  "conv c (PStr x) = (if c = CHR ''s'' then Some (cstr x) else None)"
| "conv c (PInt i) = (if c = CHR ''d'' then Some (show_int i) else None)"
| "conv c (PHex w) = (if c = CHR ''x'' then Some (in_base 16 (unat w)) else None)"
| "conv c (PMax i) = (if c = CHR ''j'' then Some (in_base 10 (nat (i mod 2 ^ 64))) else None)"

text \<open>One conversion after its \<open>%\<close>: the output, the format behind it, the arguments left.\<close>

fun directive :: "string \<Rightarrow> parg list \<Rightarrow> (string \<times> string \<times> parg list) option" where
  "directive [] as = None"
| "directive (d # ds) as =
     (if d = CHR ''%'' then Some ([d], ds, as)
      else (case as of
          [] \<Rightarrow> None
        | a # as' \<Rightarrow>
            (case conv d a of
               None \<Rightarrow> None
             | Some out \<Rightarrow>
                 if d = CHR ''j''
                 then (case ds of
                     [] \<Rightarrow> None
                   | u # us \<Rightarrow> if u = CHR ''u'' then Some (out, us, as') else None)
                 else Some (out, ds, as'))))"

lemma directive_shorter: "directive ds as = Some (out, ds', as') \<Longrightarrow> length ds' < length ds"
  by (cases ds) (auto split: if_splits list.splits option.splits)

lemma directive_append:
  "directive ds as = Some (out, ds', as') \<Longrightarrow> directive (ds @ p) as = Some (out, ds' @ p, as')"
  by (cases ds) (auto split: if_splits list.splits option.splits)

function vformat :: "string \<Rightarrow> parg list \<Rightarrow> string option" where
  "vformat [] as = Some []"
| "vformat (c # cs) as =
     (if c \<noteq> CHR ''%'' then map_option ((#) c) (vformat cs as)
      else (case directive cs as of
          None \<Rightarrow> None
        | Some (out, ds, as') \<Rightarrow> map_option ((@) out) (vformat ds as')))"
  by pat_completeness auto
termination
proof (relation "measure (\<lambda>(cs, as). length cs)")
  fix c :: char and cs :: string and as y out z ds as'
  assume "directive cs as = Some y" "(out, z) = y" "(ds, as') = z"
  then have "directive cs as = Some (out, ds, as')" by simp
  then show "((ds, as'), c # cs, as) \<in> measure (\<lambda>(cs, as). length cs)"
    by (auto dest: directive_shorter)
qed simp_all

lemma vformat_plain: "CHR ''%'' \<notin> set p \<Longrightarrow> vformat (p @ f) as = map_option ((@) p) (vformat f as)"
proof (induction p)
  case Nil
  show ?case by (cases "vformat f as") simp_all
next
  case (Cons c p)
  then show ?case by (cases "vformat f as") auto
qed

lemma vformat_text: "CHR ''%'' \<notin> set p \<Longrightarrow> vformat p as = Some p"
  using vformat_plain [of p "[]"] by simp

lemma vformat_suffix:
  "vformat f as = Some out \<Longrightarrow> CHR ''%'' \<notin> set p \<Longrightarrow> vformat (f @ p) as = Some (out @ p)"
proof (induction f as arbitrary: out rule: vformat.induct)
  case (1 as)
  then show ?case by (simp add: vformat_text)
next
  case (2 c cs as)
  show ?case
  proof (cases "c = CHR ''%''")
    case False
    with 2 show ?thesis by auto
  next
    case True
    with "2.prems" obtain o1 ds as' where d: "directive cs as = Some (o1, ds, as')"
      by (auto split: option.splits)
    with True "2.prems" obtain o2 where "vformat ds as' = Some o2" "out = o1 @ o2" by auto
    with "2.IH"(2) [of "(o1, ds, as')"] d True "2.prems"(2)
    show ?thesis by (simp add: directive_append [OF d])
  qed
qed

section \<open>Loggers\<close>

text \<open>
  The two subclasses of \<open>iLogger\<close>; the constructor of each fixes the flag \<open>colors\<close>. A
  \<open>FileLogger\<close> is named by the file it appends to. \<open>startup\<close> and \<open>shutdown\<close> do nothing.
\<close>

datatype iLogger = StdoutLogger | FileLogger string

fun colors :: "iLogger \<Rightarrow> bool" where
  "colors StdoutLogger = True"
| "colors (FileLogger _) = False"

definition startup :: "iLogger \<Rightarrow> unit io" where
  "startup lg = ret ()"

definition shutdown :: "iLogger \<Rightarrow> unit io" where
  "shutdown lg = ret ()"

definition new_StdoutLogger :: "iLogger io" where
  "new_StdoutLogger = thn (startup StdoutLogger) (ret StdoutLogger)"

definition delete_StdoutLogger :: "unit io" where
  "delete_StdoutLogger = shutdown StdoutLogger"

text \<open>Closing the file writes nothing: what was printed has been written before.\<close>

definition delete_FileLogger :: "string \<Rightarrow> unit io" where
  "delete_FileLogger mFile = ret ()"

definition new_FileLogger :: "os \<Rightarrow> string \<Rightarrow> iLogger io" where
  "new_FileLogger os filepath =
     bnd (sys_call (\<lambda>h. os_open os h filepath) (EOpen filepath) (\<lambda>_. None)) (\<lambda>good.
       if good then ret (FileLogger filepath)
       else halt (Throw (Runtime_error ''Failed to open log file.'')))"

definition time_stamp :: "tm \<Rightarrow> string" where
  "time_stamp now =
     ''['' @ show_int (tm_year now + 1900) @ ''-'' @ show_int (tm_mon now + 1) @ ''-'' @
     show_int (tm_mday now) @ '' '' @ show_int (tm_hour now) @ '':'' @ show_int (tm_min now) @
     '':'' @ show_int (tm_sec now) @ ''] ''"

text \<open>
  The format with its colours or its time stamp around it, then the two passes over it: the first
  gives the size, the second writes into a buffer of that size and ten more; the string is made of
  the buffer without the terminating 0.
\<close>

definition render :: "string \<Rightarrow> parg list \<Rightarrow> stop + string" where
  "render final_format args =
     (case vformat final_format args of
        None \<Rightarrow> Inl Undefined
      | Some out \<Rightarrow>
          (let string_size = length out + 1; capacity = string_size + 10
           in if length out + 1 \<le> capacity then Inr (take (string_size - 1) out)
              else Inl Undefined))"

definition createMessage :: "os \<Rightarrow> iLogger \<Rightarrow> LogLevel \<Rightarrow> string \<Rightarrow> parg list \<Rightarrow> string io" where
  "createMessage os lg level format args =
     (let color = fst (level_style level); prefix = snd (level_style level)
      in bnd (if colors lg
              then ret (color @ prefix @ format @ LogColors RESET @ [CHR 0x0A])
              else bnd (sys_time os) (\<lambda>t.
                let now = os_localtime os t
                in ret (time_stamp now @ prefix @ format @ [CHR 0x0A])))
           (\<lambda>final_format. lift_res (render final_format args)))"

definition createCErrorMessage :: "os \<Rightarrow> iLogger \<Rightarrow> string \<Rightarrow> string io" where
  "createCErrorMessage os lg userMessage =
     bnd (gets errno) (\<lambda>e.
       createMessage os lg ERROR ''%s: %s (%d)''
         [PStr userMessage, PStr (os_strerror os e), PInt e])"

definition StdoutLogger_print :: "LogLevel \<Rightarrow> string \<Rightarrow> unit io" where
  [simp]: "StdoutLogger_print lvl message = sys_write (if lvl < WARNING then Stdout else Stderr) message"

definition StdoutLogger_printError :: "string \<Rightarrow> unit io" where
  [simp]: "StdoutLogger_printError message = sys_write Stdout message"

definition FileLogger_print :: "string \<Rightarrow> LogLevel \<Rightarrow> string \<Rightarrow> unit io" where
  [simp]: "FileLogger_print mFile level message = sys_write (Logfile mFile) message"

definition FileLogger_printError :: "string \<Rightarrow> string \<Rightarrow> unit io" where
  [simp]: "FileLogger_printError mFile message = sys_write (Logfile mFile) message"

text \<open>The two virtual functions of the base class.\<close>

fun print :: "iLogger \<Rightarrow> LogLevel \<Rightarrow> string \<Rightarrow> unit io" where
  "print StdoutLogger = StdoutLogger_print"
| "print (FileLogger f) = FileLogger_print f"

fun printError :: "iLogger \<Rightarrow> string \<Rightarrow> unit io" where
  "printError StdoutLogger = StdoutLogger_printError"
| "printError (FileLogger f) = FileLogger_printError f"

definition LOG :: "os \<Rightarrow> iLogger \<Rightarrow> LogLevel \<Rightarrow> string \<Rightarrow> parg list \<Rightarrow> unit io" where
  "LOG os lg level format args = bnd (createMessage os lg level format args) (print lg level)"

definition LOG_ERROR :: "os \<Rightarrow> iLogger \<Rightarrow> string \<Rightarrow> unit io" where
  "LOG_ERROR os lg message = bnd (createCErrorMessage os lg message) (printError lg)"

section \<open>What a message is, and that it disturbs nothing\<close>

lemma digit_percent: "d < 10 \<Longrightarrow> digit d \<noteq> CHR ''%''"
  by (auto simp: digit_def numeral_eq_Suc less_Suc_eq)

lemma in_base_percent: "CHR ''%'' \<notin> set (in_base 10 n)"
proof (induction "10 :: nat" n rule: in_base.induct)
  case (1 n)
  then show ?case
    by (subst in_base.simps) (auto simp: digit_percent dest: sym)
qed

lemma show_int_percent: "CHR ''%'' \<notin> set (show_int i)"
  by (simp add: show_int_def in_base_percent)

lemma time_stamp_percent: "CHR ''%'' \<notin> set (time_stamp now)"
  by (simp add: time_stamp_def show_int_percent)

lemma style_percent:
  "CHR ''%'' \<notin> set (fst (level_style l) @ snd (level_style l))"
  "CHR ''%'' \<notin> set (LogColors c @ [CHR 0x0A])"
  by (cases l; simp add: esc_def) (cases c; simp add: esc_def)

lemma vformat_between:
  assumes "vformat f as = Some body" "CHR ''%'' \<notin> set p" "CHR ''%'' \<notin> set q"
  shows "vformat (p @ f @ q) as = Some (p @ body @ q)"
  using vformat_suffix [OF assms(1,3)] assms(2) by (simp add: vformat_plain)

lemma render_Some: "vformat f as = Some out \<Longrightarrow> render f as = Inr out"
  by (simp add: render_def)

lemma createMessage_Stdout:
  assumes "vformat format args = Some body"
  shows "createMessage os StdoutLogger level format args s =
    (Val (fst (level_style level) @ snd (level_style level) @ body @ LogColors RESET @ [CHR 0x0A]), s)"
proof -
  have "vformat (fst (level_style level) @ snd (level_style level) @ format @ LogColors RESET @ [CHR 0x0A])
      args = Some (fst (level_style level) @ snd (level_style level) @ body @ LogColors RESET @ [CHR 0x0A])"
    using vformat_between [OF assms style_percent(1) style_percent(2) [of RESET]] by simp
  then show ?thesis
    by (simp add: createMessage_def render_Some run_simps)
qed

lemma createMessage_File:
  assumes "vformat format args = Some body"
  shows "createMessage os (FileLogger f) level format args s =
    (let t = os_time os (hist s)
     in (Val (time_stamp (os_localtime os t) @ snd (level_style level) @ body @ [CHR 0x0A]),
         s\<lparr>hist := hist s @ [ETime t]\<rparr>))"
proof -
  define now where "now = os_localtime os (os_time os (hist s))"
  have np: "CHR ''%'' \<notin> set (time_stamp now @ snd (level_style level))"
    using style_percent(1) [of level] by (simp add: time_stamp_percent)
  have "vformat (time_stamp now @ snd (level_style level) @ format @ [CHR 0x0A]) args =
      Some (time_stamp now @ snd (level_style level) @ body @ [CHR 0x0A])"
    using vformat_between [OF assms np, of "[CHR 0x0A]"] by simp
  then show ?thesis
    by (simp add: createMessage_def render_Some run_simps bnd_def sys_time_def sys_call_def Let_def
        now_def)
qed

lemma sys_write_run:
  "sys_write fd text s = (Val (), s\<lparr>hist := hist s @ [EOut fd text]\<rparr>)"
  by (simp add: sys_write_def sys_call_def Let_def)

lemma createMessage_core:
  "vformat format args \<noteq> None \<Longrightarrow>
   \<exists>msg t. createMessage os lg level format args s = (Val msg, t) \<and> core t = core s"
  by (cases lg) (auto simp: createMessage_Stdout createMessage_File Let_def core_def)

lemma print_core: "\<exists>t. print lg level msg s = (Val (), t) \<and> core t = core s"
  by (cases lg) (simp_all add: sys_write_run core_def)

lemma printError_core: "\<exists>t. printError lg msg s = (Val (), t) \<and> core t = core s"
  by (cases lg) (simp_all add: sys_write_run core_def)

lemma LOG_core:
  assumes "vformat format args \<noteq> None"
  shows "\<exists>t. LOG os lg level format args s = (Val (), t) \<and> core t = core s"
proof -
  obtain msg t where m: "createMessage os lg level format args s = (Val msg, t)" "core t = core s"
    using createMessage_core [OF assms] by blast
  obtain u where "print lg level msg t = (Val (), u)" "core u = core t"
    using print_core by blast
  with m show ?thesis by (simp add: LOG_def run_simps)
qed

lemma LOG_ERROR_core: "\<exists>t. LOG_ERROR os lg message s = (Val (), t) \<and> core t = core s"
proof -
  have "vformat ''%s: %s (%d)'' [PStr message, PStr (os_strerror os (errno s)), PInt (errno s)] \<noteq> None"
    by simp
  from createMessage_core [OF this, of os lg ERROR s] obtain msg t where
    m: "createCErrorMessage os lg message s = (Val msg, t)" "core t = core s"
    by (auto simp: createCErrorMessage_def bnd_def gets_def)
  obtain u where "printError lg msg t = (Val (), u)" "core u = core t"
    using printError_core by blast
  with m show ?thesis by (simp add: LOG_ERROR_def run_simps)
qed

section \<open>The interface the other components log through\<close>

text \<open>
  A logger as its callers see it: with a format whose conversions find their arguments, a message
  is written and nothing else happens: no other process, no heap block is concerned.
\<close>

locale logging =
  fixes log :: "LogLevel \<Rightarrow> string \<Rightarrow> parg list \<Rightarrow> unit io"
    and log_error :: "string \<Rightarrow> unit io"
  assumes log_law: "vformat format args \<noteq> None \<Longrightarrow>
      \<exists>t. log level format args s = (Val (), t) \<and> core t = core s"
    and log_error_law: "\<exists>t. log_error message s = (Val (), t) \<and> core t = core s"
begin

lemma triple_log:
  assumes "vformat format args \<noteq> None"
  shows "triple (\<lambda>s. P (core s)) (log level format args) (\<lambda>_ s. P (core s)) E"
proof (rule tripleI)
  fix s x t assume "P (core s)" "log level format args s = (Val x, t)"
  then show "P (core t)" using log_law [OF assms, of level s] by auto
next
  fix s e t assume "log level format args s = (Stop e, t)"
  then show "E e t" using log_law [OF assms, of level s] by simp
qed

lemma triple_log_error: "triple (\<lambda>s. P (core s)) (log_error message) (\<lambda>_ s. P (core s)) E"
proof (rule tripleI)
  fix s x t assume "P (core s)" "log_error message s = (Val x, t)"
  then show "P (core t)" using log_error_law [of message s] by auto
next
  fix s e t assume "log_error message s = (Stop e, t)"
  then show "E e t" using log_error_law [of message s] by simp
qed

end

interpretation lg: logging "LOG os lg" "LOG_ERROR os lg" for os lg
  by unfold_locales (rule LOG_core, assumption, rule LOG_ERROR_core)

section \<open>What a logger writes\<close>

text \<open>
  A message of the standard logger is one write: its colour, its prefix, the formatted text,
  the reset sequence and a newline; to standard output below \<open>WARNING\<close>, to standard error from
  there on.
\<close>

theorem LOG_Stdout:
  assumes "vformat format args = Some body"
  shows "LOG os StdoutLogger level format args s =
    (Val (), s\<lparr>hist := hist s @
       [EOut (if level \<in> {DEBUG, INFO, SUCCESS} then Stdout else Stderr)
          (fst (level_style level) @ snd (level_style level) @ body @ LogColors RESET @ [CHR 0x0A])]\<rparr>)"
proof -
  have "(level < WARNING) = (level \<in> {DEBUG, INFO, SUCCESS})"
    by (cases level) (simp_all add: less_LogLevel_def)
  then show ?thesis
    by (simp add: LOG_def bnd_def createMessage_Stdout [OF assms] sys_write_run)
qed

theorem LOG_Stdout_witness:
  "LOG (demo_os (\<lambda>p. 0)) StdoutLogger DEBUG ''Filter: %s'' [PStr ''*.cpp''] sys0 =
     (Val (), sys0\<lparr>hist :=
        [EOut Stdout (esc ''1;30'' @ '' -> Filter: *.cpp'' @ esc ''0'' @ [CHR 0x0A])]\<rparr>)"
  using LOG_Stdout [of "''Filter: %s''" "[PStr ''*.cpp'']" "''Filter: *.cpp''"
    "demo_os (\<lambda>p. 0)" DEBUG sys0]
  by (simp add: cstr_def sys0_def)

text \<open>
  A message of the file logger asks the time once and appends to its file, whatever the level:
  the local time in brackets, the prefix, the formatted text, a newline, and no colours.
\<close>

theorem LOG_File:
  assumes "vformat format args = Some body"
  shows "LOG os (FileLogger f) level format args s =
    (let t = os_time os (hist s)
     in (Val (), s\<lparr>hist := hist s @
          [ETime t, EOut (Logfile f)
             (time_stamp (os_localtime os t) @ snd (level_style level) @ body @ [CHR 0x0A])]\<rparr>))"
  by (simp add: LOG_def bnd_def createMessage_File [OF assms] sys_write_run Let_def)

theorem LOG_File_witness:
  "hist (snd (LOG (demo_os (\<lambda>p. 0)) (FileLogger ''log'') INFO ''ready'' [] sys0)) =
     [ETime 1000, EOut (Logfile ''log'')
        (''[1900-1-0 0:0:1000] => ready'' @ [CHR 0x0A])]"
  using LOG_File [of "''ready''" "[]" "''ready''" "demo_os (\<lambda>p. 0)" "''log''" INFO sys0]
  by (simp add: sys0_def Let_def demo_os_def time_stamp_def show_int_def in_base.simps digit_def)

text \<open>
  C34. A system error is reported with the caller's text, the system's text for \<open>errno\<close> and its
  number. The standard logger writes it in the error style, but to standard output.
\<close>

theorem LOG_ERROR_Stdout:
  "LOG_ERROR os StdoutLogger message s =
    (Val (), s\<lparr>hist := hist s @
       [EOut Stdout (LogColors RED @ ''=> '' @
          cstr message @ '': '' @ cstr (os_strerror os (errno s)) @ '' ('' @ show_int (errno s) @ '')'' @
          LogColors RESET @ [CHR 0x0A])]\<rparr>)"
proof -
  have "vformat ''%s: %s (%d)'' [PStr message, PStr (os_strerror os (errno s)), PInt (errno s)] =
    Some (cstr message @ '': '' @ cstr (os_strerror os (errno s)) @ '' ('' @ show_int (errno s) @ '')'')"
    by simp
  from createMessage_Stdout [OF this, of os ERROR s]
  show ?thesis
    by (simp add: LOG_ERROR_def createCErrorMessage_def bnd_def gets_def sys_write_run)
qed

end
