(* ===== verification/Rules.thy ===== *)
theory Rules
  imports Logger
begin

text \<open>
  Triples for the primitive operations of the machine, in the shape in which the component proofs
  use them: the precondition fixes the part of the state a log message leaves alone (the acts of
  the history and the heap), the operation comes first in a sequence, and the rule leaves the
  rest of the sequence with the new fixed part. The collection is \<open>triple_intros\<close>.
\<close>

abbreviation core_is :: "history \<Rightarrow> process option list \<Rightarrow> string list option list \<Rightarrow> sys \<Rightarrow> bool" where
  "core_is A P V \<equiv> (\<lambda>s. core s = (A, P, V))"

lemma triple_core_bndI:
  assumes "\<And>s. core s = c \<Longrightarrow> \<exists>x t. m s = (Val x, t) \<and> R x (core t)"
    and "\<And>x c'. R x c' \<Longrightarrow> triple (\<lambda>s. core s = c') (k x) Q E"
  shows "triple (\<lambda>s. core s = c) (bnd m k) Q E"
  unfolding triple_def
proof (intro allI impI)
  fix s :: sys assume "core s = c"
  with assms(1) obtain x t where x: "m s = (Val x, t)" "R x (core t)" by blast
  with assms(2) [OF x(2)] show "case bnd m k s of (Val x, t) \<Rightarrow> Q x t | (Stop e, t) \<Rightarrow> E e t"
    by (simp add: triple_def run_simps)
qed

lemma triple_core_thnI:
  assumes "\<And>s. core s = c \<Longrightarrow> \<exists>x t. m s = (Val x, t) \<and> core t = c'"
    and "triple (\<lambda>s. core s = c') k Q E"
  shows "triple (\<lambda>s. core s = c) (thn m k) Q E"
  unfolding thn_def by (rule triple_core_bndI [where R = "\<lambda>_ d. d = c'"]) (use assms in auto)

section \<open>The heap\<close>

lemma get_proc_run: "slot (procs s) p = Some pr \<Longrightarrow> get_proc p s = (Val pr, s)"
  by (simp add: get_proc_def deref_def bnd_def gets_def ret_def)

lemma get_argv_run: "slot (argvs s) a = Some v \<Longrightarrow> get_argv a s = (Val v, s)"
  by (simp add: get_argv_def deref_def bnd_def gets_def ret_def)

lemma put_proc_run: "put_proc p pr s = (Val (), s\<lparr>procs := (procs s)[p := Some pr]\<rparr>)"
  by (simp add: put_proc_def modify_def)

lemma new_proc_run:
  "new_proc pr s = (Val (length (procs s)), s\<lparr>procs := procs s @ [Some pr]\<rparr>)"
  by (simp add: new_proc_def bnd_def thn_def gets_def modify_def ret_def)

lemma new_argv_run:
  "new_argv v s = (Val (length (argvs s)), s\<lparr>argvs := argvs s @ [Some v]\<rparr>)"
  by (simp add: new_argv_def bnd_def thn_def gets_def modify_def ret_def)

lemma free_argv_run:
  "slot (argvs s) a = Some v \<Longrightarrow> free_argv a s = (Val (), s\<lparr>argvs := (argvs s)[a := None]\<rparr>)"
  by (simp add: free_argv_def thn_Val [OF get_argv_run] modify_def)

lemma free_proc_run:
  "slot (procs s) p = Some pr \<Longrightarrow> free_proc p s = (Val (), s\<lparr>procs := (procs s)[p := None]\<rparr>)"
  by (simp add: free_proc_def thn_Val [OF get_proc_run] modify_def)

lemma bnd_get_proc [triple_intros]:
  "slot P p = Some pr \<Longrightarrow> triple (core_is A P V) (k pr) Q E \<Longrightarrow>
   triple (core_is A P V) (bnd (get_proc p) k) Q E"
  by (rule triple_core_bndI [where R = "\<lambda>x c. x = pr \<and> c = (A, P, V)"])
     (auto simp: core_def get_proc_run)

lemma bnd_get_argv [triple_intros]:
  "slot V a = Some v \<Longrightarrow> triple (core_is A P V) (k v) Q E \<Longrightarrow>
   triple (core_is A P V) (bnd (get_argv a) k) Q E"
  by (rule triple_core_bndI [where R = "\<lambda>x c. x = v \<and> c = (A, P, V)"])
     (auto simp: core_def get_argv_run)

lemma thn_put_proc [triple_intros]:
  "triple (core_is A (P[p := Some pr]) V) k Q E \<Longrightarrow>
   triple (core_is A P V) (thn (put_proc p pr) k) Q E"
  by (rule triple_core_thnI [where c' = "(A, P[p := Some pr], V)"])
     (auto simp: core_def put_proc_run)

lemma thn_free_proc [triple_intros]:
  "slot P p = Some pr \<Longrightarrow> triple (core_is A (P[p := None]) V) k Q E \<Longrightarrow>
   triple (core_is A P V) (thn (free_proc p) k) Q E"
  by (rule triple_core_thnI) (auto simp: core_def free_proc_run)

lemma thn_free_argv [triple_intros]:
  "slot V a = Some v \<Longrightarrow> triple (core_is A P (V[a := None])) k Q E \<Longrightarrow>
   triple (core_is A P V) (thn (free_argv a) k) Q E"
  by (rule triple_core_thnI) (auto simp: core_def free_argv_run)

lemma triple_core_ret [triple_intros]:
  "(\<And>s. core s = (A, P, V) \<Longrightarrow> Q x s) \<Longrightarrow> triple (core_is A P V) (ret x) Q E"
  by (rule triple_ret)

section \<open>Logging\<close>

lemma thn_LOG [triple_intros]:
  "vformat format args \<noteq> None \<Longrightarrow> triple (core_is A P V) k Q E \<Longrightarrow>
   triple (core_is A P V) (thn (LOG os lg level format args) k) Q E"
  by (rule triple_thn [OF lg.triple_log])

lemma thn_LOG_ERROR [triple_intros]:
  "triple (core_is A P V) k Q E \<Longrightarrow>
   triple (core_is A P V) (thn (LOG_ERROR os lg message) k) Q E"
  by (rule triple_thn [OF lg.triple_log_error])

section \<open>System calls\<close>

lemma bnd_gets_errno [triple_intros]:
  "(\<And>e. triple (core_is A P V) (k e) Q E) \<Longrightarrow>
   triple (core_is A P V) (bnd (gets errno) k) Q E"
  by (rule triple_core_bndI [where R = "\<lambda>x c. c = (A, P, V)"]) (auto simp: gets_def)

text \<open>What \<open>fork\<close> may answer under \<open>posix\<close>, given the acts so far.\<close>

definition fork_answer :: "os \<Rightarrow> history \<Rightarrow> int \<Rightarrow> bool" where
  "fork_answer os A r \<longleftrightarrow> (posix os \<longrightarrow> r = -1 \<or> r = 0 \<or> (1 < r \<and> r \<notin> kids A))"

definition wait_answer :: "os \<Rightarrow> history \<Rightarrow> int \<Rightarrow> bool \<Rightarrow> int \<Rightarrow> bool" where
  "wait_answer os A p nohang r \<longleftrightarrow> (posix os \<longrightarrow> 0 < p \<longrightarrow>
     (if p \<in> kids A then r = p \<or> nohang \<and> r = 0 else r = -1))"

lemma bnd_fork [triple_intros]:
  assumes "\<And>r. fork_answer os A r \<Longrightarrow> triple (core_is (A @ [EFork r]) P V) (k r) Q E"
  shows "triple (core_is A P V) (bnd (sys_fork os) k) Q E"
proof (rule triple_core_bndI [where R = "\<lambda>r c. fork_answer os A r \<and> c = (A @ [EFork r], P, V)"])
  fix s :: sys assume c: "core s = (A, P, V)"
  obtain r e where r: "os_fork os (hist s) = (r, e)" by fastforce
  have "kids (hist s) = kids A" using c by (auto simp: core_def)
  moreover have "posix os \<Longrightarrow> r \<in> {-1, 0} \<or> 1 < r \<and> r \<notin> kids (hist s)"
    unfolding posix_def posix_fork_def using r by (metis fst_conv)
  ultimately have "fork_answer os A r" by (simp add: fork_answer_def)
  with c r show "\<exists>x t. sys_fork os s = (Val x, t) \<and> fork_answer os A x \<and> core t = (A @ [EFork x], P, V)"
    by (auto simp: sys_fork_def sys_call_def bnd_def ret_def core_def)
qed (use assms in auto)

lemma bnd_waitpid [triple_intros]:
  assumes "\<And>r st. wait_answer os A p nohang r \<Longrightarrow>
      triple (core_is (A @ [EWait p nohang r st]) P V) (k r (if 0 < r then st else 0)) Q E"
  shows "triple (core_is A P V) (bnd (sys_waitpid os p nohang) (\<lambda>(r, st). k r st)) Q E"
proof (rule triple_core_bndI [where R = "\<lambda>x c. \<exists>r st. wait_answer os A p nohang r \<and>
      x = (r, if 0 < r then st else 0) \<and> c = (A @ [EWait p nohang r st], P, V)"])
  fix s :: sys assume c: "core s = (A, P, V)"
  obtain r st e where r: "os_waitpid os (hist s) p nohang = (r, st, e)"
    by (cases "os_waitpid os (hist s) p nohang") auto
  have "kids (hist s) = kids A" using c by (auto simp: core_def)
  with r have "wait_answer os A p nohang r"
    by (auto simp: wait_answer_def posix_def posix_wait_def)
  with c r show "\<exists>x t. sys_waitpid os p nohang s = (Val x, t) \<and>
      (\<exists>r st. wait_answer os A p nohang r \<and> x = (r, if 0 < r then st else 0) \<and>
         core t = (A @ [EWait p nohang r st], P, V))"
    by (auto simp: sys_waitpid_def sys_call_def bnd_def ret_def core_def)
qed (use assms in auto)

lemma thn_usleep [triple_intros]:
  "triple (core_is (A @ [ESleep n]) P V) k Q E \<Longrightarrow>
   triple (core_is A P V) (thn (sys_usleep n) k) Q E"
  by (rule triple_core_thnI [where c' = "(A @ [ESleep n], P, V)"])
     (auto simp: core_def sys_usleep_def sys_call_def Let_def)

lemma sys_kill_run:
  "\<exists>t. sys_kill os p sig s = (Val (fst (os_kill os (hist s) p sig)), t) \<and>
     hist t = hist s @ [EKill p sig (fst (os_kill os (hist s) p sig))] \<and>
     procs t = procs s \<and> argvs t = argvs s"
  by (cases "os_kill os (hist s) p sig")
     (auto simp: sys_kill_def sys_call_def bnd_def ret_def)

text \<open>A triple read off for one run.\<close>

lemma triple_runD:
  "triple (core_is (acts (hist s)) (procs s) (argvs s)) m Q E \<Longrightarrow>
   case m s of (Val x, t) \<Rightarrow> Q x t | (Stop e, t) \<Rightarrow> E e t"
  unfolding triple_def by (drule spec [of _ s]) (simp add: core_def)

section \<open>Operations that concern no process\<close>

text \<open>
  A computation is \<open>calm\<close> if it leaves the heap alone and asks nothing of the system that has to
  do with other processes. The logger, the file system and the event queue are used in calm ways.
\<close>

fun bystander :: "event \<Rightarrow> bool" where
  "bystander (EFork _) = False"
| "bystander (EExec _ _ _) = False"
| "bystander (EWait _ _ _ _) = False"
| "bystander (EKill _ _ _) = False"
| "bystander _ = True"

definition calm :: "'a io \<Rightarrow> bool" where
  "calm m \<longleftrightarrow> (\<forall>s. procs (snd (m s)) = procs s \<and> argvs (snd (m s)) = argvs s \<and>
     (\<exists>h. hist (snd (m s)) = hist s @ h \<and> list_all bystander h))"

lemma kids_bystander: "list_all bystander h \<Longrightarrow> kids (h' @ h) = kids h'"
proof (induction h rule: rev_induct)
  case (snoc e h)
  then show ?case by (cases e) (simp_all add: kids_snoc flip: append_assoc)
qed simp

text \<open>What a history says of other processes.\<close>

definition doings :: "history \<Rightarrow> history" where
  "doings h = filter (\<lambda>e. \<not> bystander e) h"

lemma doings_append [simp]: "doings (h @ h') = doings h @ doings h'"
  by (simp add: doings_def)

lemma doings_Nil [simp]: "doings [] = []"
  by (simp add: doings_def)

lemma doings_Cons [simp]: "doings (e # h) = (if bystander e then doings h else e # doings h)"
  by (simp add: doings_def)

lemma doings_bystander: "list_all bystander h \<Longrightarrow> doings h = []"
  by (simp add: doings_def list_all_iff)

lemma bystander_quiet: "quiet e \<Longrightarrow> bystander e"
  by (cases e) simp_all

lemma doings_acts [simp]: "doings (acts h) = doings h"
  unfolding doings_def acts_def by (induction h) (auto simp: bystander_quiet)

lemma fold_kid_step_doings: "fold kid_step (doings h) K = fold kid_step h K"
proof (induction h arbitrary: K)
  case (Cons e h)
  then show ?case by (cases e) (simp_all add: doings_def)
qed (simp add: doings_def)

lemma kids_doings: "kids (doings h) = kids h"
  by (simp add: kids_def fold_kid_step_doings)

lemma top_pid_doings: "top_pid (doings h) = top_pid h"
proof (induction h)
  case (Cons e h)
  then show ?case by (cases e) (simp_all add: doings_def)
qed (simp add: doings_def)

lemma top_pid_append: "top_pid (h @ h') = max (top_pid h) (top_pid h')"
proof (induction h)
  case Nil
  show ?case using top_pid_ge [of h'] by simp
next
  case (Cons e h)
  then show ?case by (cases e) simp_all
qed

lemma calmD:
  assumes "calm m" "m s = (x, t)"
  obtains h where "hist t = hist s @ h" "list_all bystander h" "procs t = procs s" "argvs t = argvs s"
  using assms unfolding calm_def by (metis snd_conv)

lemma calm_kids: "calm m \<Longrightarrow> m s = (x, t) \<Longrightarrow> kids (hist t) = kids (hist s)"
  by (erule calmD) (assumption, simp add: kids_bystander)

lemma calm_same: "(\<And>s. snd (m s) = s) \<Longrightarrow> calm m"
  by (simp add: calm_def)

lemma calm_simple [calm_intros]: "calm (ret x)" "calm (halt e)" "calm (gets f)" "calm (lift_res r)"
  by (rule calm_same, simp add: ret_def halt_def gets_def lift_res_def split: sum.split)+

lemma calm_bnd [calm_intros]:
  assumes "calm m" "\<And>x. calm (k x)"
  shows "calm (bnd m k)"
  unfolding calm_def
proof
  fix s
  obtain r t where m: "m s = (r, t)" by (cases "m s")
  from assms(1) m obtain h where h: "hist t = hist s @ h" "list_all bystander h" "procs t = procs s"
      "argvs t = argvs s"
    by (rule calmD)
  show "procs (snd (bnd m k s)) = procs s \<and> argvs (snd (bnd m k s)) = argvs s \<and>
      (\<exists>h. hist (snd (bnd m k s)) = hist s @ h \<and> list_all bystander h)"
  proof (cases r)
    case (Val x)
    obtain r' u where k: "k x t = (r', u)" by (cases "k x t")
    from assms(2) k obtain h' where "hist u = hist t @ h'" "list_all bystander h'" "procs u = procs t"
        "argvs u = argvs t"
      by (rule calmD)
    with m k h Val show ?thesis by (simp add: bnd_def)
  qed (use m h in \<open>simp add: bnd_def\<close>)
qed

lemma calm_thn [calm_intros]: "calm m \<Longrightarrow> calm k \<Longrightarrow> calm (thn m k)"
  unfolding thn_def by (rule calm_bnd)

lemma calm_if [calm_intros]: "(b \<Longrightarrow> calm m) \<Longrightarrow> (\<not> b \<Longrightarrow> calm k) \<Longrightarrow> calm (if b then m else k)"
  by simp

lemma calm_sys_call [calm_intros]: "(\<And>r. bystander (ev r)) \<Longrightarrow> calm (sys_call f ev er)"
  by (simp add: calm_def sys_call_def Let_def)

lemma calm_for_acc [calm_intros]: "(\<And>x b. calm (f x b)) \<Longrightarrow> calm (for_acc f xs b)"
  by (induction xs arbitrary: b) (simp_all add: calm_intros)

lemma calm_for_each [calm_intros]: "(\<And>x. calm (f x)) \<Longrightarrow> calm (for_each f xs)"
  by (induction xs) (simp_all add: calm_intros)

lemma calm_deref [calm_intros]: "calm (deref p)"
  by (cases p) (simp_all add: deref_def calm_intros)

lemma calm_time [calm_intros]: "calm (sys_time os)"
  unfolding sys_time_def by (rule calm_sys_call) simp

lemma calm_LOG [calm_intros]: "calm (LOG os lg level format args)"
proof -
  have "calm (print lg level msg)" for msg
    by (cases lg) (simp_all add: sys_write_def calm_intros)
  then show ?thesis
    by (auto simp: LOG_def createMessage_def Let_def intro!: calm_intros)
qed

lemma calm_LOG_ERROR [calm_intros]: "calm (LOG_ERROR os lg message)"
proof -
  have "calm (printError lg msg)" for msg
    by (cases lg) (simp_all add: sys_write_def calm_intros)
  then show ?thesis
    by (auto simp: LOG_ERROR_def createCErrorMessage_def createMessage_def Let_def intro!: calm_intros)
qed

text \<open>A calm computation that is known to return, as a step of a larger triple.\<close>

lemma triple_calm:
  assumes "calm m" "\<And>s e t. core s = (A, P, V) \<Longrightarrow> m s = (Stop e, t) \<Longrightarrow> E e t"
  shows "triple (core_is A P V) m
    (\<lambda>_ s. \<exists>h. core s = (A @ h, P, V) \<and> list_all bystander h) E"
proof (rule tripleI)
  fix s x t assume s: "core s = (A, P, V)" "m s = (Val x, t)"
  from assms(1) s(2) obtain h where "hist t = hist s @ h" "list_all bystander h" "procs t = procs s"
      "argvs t = argvs s"
    by (rule calmD)
  with s(1) show "\<exists>h. core t = (A @ h, P, V) \<and> list_all bystander h"
    by (intro exI [of _ "acts h"]) (auto simp: core_def acts_def list_all_iff)
qed (rule assms(2))

section \<open>What the history shows of one kind of call\<close>

text \<open>
  An observation picks calls out of the history: the watches set, say, or the descriptors closed. A
  computation leaves it as it is if it makes no such call.
\<close>

definition seen :: "(event \<Rightarrow> 'v option) \<Rightarrow> history \<Rightarrow> 'v list" where
  "seen obs h = List.map_filter obs h"

lemma seen_append [simp]: "seen obs (h @ h') = seen obs h @ seen obs h'"
  by (simp add: seen_def List.map_filter_def)

lemma seen_Nil [simp]: "seen obs [] = []"
  by (simp add: seen_def List.map_filter_def)

lemma seen_Cons [simp]:
  "seen obs (e # h) = (case obs e of None \<Rightarrow> seen obs h | Some v \<Rightarrow> v # seen obs h)"
  by (simp add: seen_def List.map_filter_def split: option.split)

definition leaves :: "(event \<Rightarrow> 'v option) \<Rightarrow> 'a io \<Rightarrow> bool" where
  "leaves obs m \<longleftrightarrow> (\<forall>s. seen obs (hist (snd (m s))) = seen obs (hist s))"

lemma leavesD: "leaves obs m \<Longrightarrow> m s = (x, t) \<Longrightarrow> seen obs (hist t) = seen obs (hist s)"
  unfolding leaves_def by (metis snd_conv)

lemma leaves_same: "(\<And>s. hist (snd (m s)) = hist s) \<Longrightarrow> leaves obs m"
  by (simp add: leaves_def)

lemma leaves_simple [leaves_intros]:
  "leaves obs (ret x)" "leaves obs (halt e)" "leaves obs (gets f)" "leaves obs (lift_res r)" "leaves obs (deref p)"
  by (rule leaves_same, simp add: ret_def halt_def gets_def lift_res_def deref_def split: sum.split option.split)+

lemma leaves_heap [leaves_intros]:
  "leaves obs (put_proc p pr)" "leaves obs (new_proc pr)" "leaves obs (new_argv v)"
  by (simp_all add: leaves_def put_proc_run new_proc_run new_argv_run)

lemma leaves_bnd [leaves_intros]: "leaves obs m \<Longrightarrow> (\<And>x. leaves obs (k x)) \<Longrightarrow> leaves obs (bnd m k)"
  unfolding leaves_def bnd_def
  by (auto split: prod.split res.split) (metis snd_conv)+

lemma leaves_thn [leaves_intros]: "leaves obs m \<Longrightarrow> leaves obs k \<Longrightarrow> leaves obs (thn m k)"
  unfolding thn_def by (rule leaves_bnd)

lemma leaves_if [leaves_intros]: "(b \<Longrightarrow> leaves obs m) \<Longrightarrow> (\<not> b \<Longrightarrow> leaves obs k) \<Longrightarrow> leaves obs (if b then m else k)"
  by simp

lemma leaves_sys_call [leaves_intros]: "(\<And>r. obs (ev r) = None) \<Longrightarrow> leaves obs (sys_call f ev er)"
  by (simp add: leaves_def sys_call_def Let_def)

lemma leaves_for_acc [leaves_intros]: "(\<And>x b. leaves obs (f x b)) \<Longrightarrow> leaves obs (for_acc f xs b)"
  by (induction xs arbitrary: b) (simp_all add: leaves_intros)

lemma leaves_for_each [leaves_intros]: "(\<And>x. leaves obs (f x)) \<Longrightarrow> leaves obs (for_each f xs)"
  by (induction xs) (simp_all add: leaves_intros)

lemma leaves_get [leaves_intros]: "leaves obs (get_proc p)" "leaves obs (get_argv a)"
  unfolding get_proc_def get_argv_def by (intro leaves_intros)+

lemma leaves_createMessage:
  "(\<And>t. obs (ETime t) = None) \<Longrightarrow> leaves obs (createMessage os lg level format args)"
  unfolding createMessage_def Let_def sys_time_def by (intro leaves_intros)

lemma leaves_LOG [leaves_intros]:
  assumes "\<And>fd out. obs (EOut fd out) = None" "\<And>t. obs (ETime t) = None"
  shows "leaves obs (LOG os lg level format args)" "leaves obs (LOG_ERROR os lg message)"
  using assms unfolding LOG_def LOG_ERROR_def createCErrorMessage_def
  by (cases lg; auto intro!: leaves_intros leaves_createMessage simp: sys_write_def)+

lemma triple_leaves:
  "leaves obs m \<Longrightarrow> triple (\<lambda>s. R (seen obs (hist s))) m (\<lambda>_ s. R (seen obs (hist s))) (\<lambda>_ _. True)"
  by (rule tripleI) (auto dest: leavesD)

section \<open>Computations that keep a property in every outcome\<close>

definition keeps :: "(sys \<Rightarrow> bool) \<Rightarrow> 'a io \<Rightarrow> bool" where
  "keeps I m \<longleftrightarrow> triple I m (\<lambda>_. I) (\<lambda>_. I)"

lemma keepsD: "keeps I m \<Longrightarrow> I s \<Longrightarrow> m s = (x, t) \<Longrightarrow> I t"
  by (cases x) (auto simp: keeps_def dest: triple_Val triple_Stop)

lemma keeps_simple [keeps_intros]:
  "keeps I (ret x)" "keeps I (halt e)" "keeps I (gets f)" "keeps I (lift_res r)" "keeps I (deref p)"
  by (simp_all add: keeps_def triple_ret triple_halt triple_gets lift_res_def deref_def split: sum.split option.split)

lemma keeps_bnd [keeps_intros]: "keeps I m \<Longrightarrow> (\<And>x. keeps I (k x)) \<Longrightarrow> keeps I (bnd m k)"
  unfolding keeps_def by (rule triple_bnd)

lemma keeps_thn [keeps_intros]: "keeps I m \<Longrightarrow> keeps I k \<Longrightarrow> keeps I (thn m k)"
  unfolding keeps_def by (rule triple_thn)

lemma keeps_if [keeps_intros]: "(b \<Longrightarrow> keeps I m) \<Longrightarrow> (\<not> b \<Longrightarrow> keeps I k) \<Longrightarrow> keeps I (if b then m else k)"
  by simp

lemma keeps_for_acc [keeps_intros]: "(\<And>x b. keeps I (f x b)) \<Longrightarrow> keeps I (for_acc f xs b)"
  by (induction xs arbitrary: b) (simp_all add: keeps_intros)

lemma keeps_for_each [keeps_intros]: "(\<And>x. keeps I (f x)) \<Longrightarrow> keeps I (for_each f xs)"
  by (induction xs) (simp_all add: keeps_intros)

text \<open>The history only grows.\<close>

definition grown :: "history \<Rightarrow> sys \<Rightarrow> bool" where
  "grown h0 s \<longleftrightarrow> (\<exists>h. hist s = h0 @ h)"

lemma keeps_grown [keeps_intros]:
  "keeps (grown h) (sys_call f ev er)" "keeps (grown h) (get_proc p)" "keeps (grown h) (get_argv a)"
  "keeps (grown h) (put_proc p pr)"
  unfolding keeps_def
  by (rule tripleI; auto simp: grown_def sys_call_def Let_def get_proc_def get_argv_def put_proc_def bnd_def gets_def
      modify_def deref_def ret_def halt_def split: option.splits)+

lemma keeps_grown_calm: "calm m \<Longrightarrow> keeps (grown h) m"
  unfolding keeps_def by (rule tripleI) (erule calmD, assumption, auto simp: grown_def)+

lemma keeps_grown_sys [keeps_intros]:
  "keeps (grown h) (sys_fork os)" "keeps (grown h) (sys_waitpid os p nohang)" "keeps (grown h) (sys_kill os p sig)"
  "keeps (grown h) (sys_time os)" "keeps (grown h) (sys_usleep n)"
  "keeps (grown h) (LOG os lg level format args)" "keeps (grown h) (LOG_ERROR os lg message)"
  unfolding sys_fork_def sys_waitpid_def sys_kill_def sys_time_def sys_usleep_def
  by (auto intro!: keeps_intros keeps_grown_calm [OF calm_LOG] keeps_grown_calm [OF calm_LOG_ERROR] split: prod.split)

end
