(* ===== verification/Command.thy ===== *)
theory Command
  imports Prelude
begin

text \<open>
  \<open>Util::parseCommand\<close> (src/src/util.cpp): the configured command line is cut into the argument
  vector that \<open>exec\<close> gets.

  The index loop is modelled with its two positions and its quote flag; \<open>toks\<close> is a structural
  reference for it, from which the laws about words and quotes follow.
\<close>

section \<open>The loop\<close>

text \<open>The local variables of the function.\<close>

record scan =
  position :: nat
  tmppos :: nat
  inQuote :: bool
  scan_args :: "string list"

text \<open>The \<open>switch\<close> on one character: a quote, a blank, anything else.\<close>

definition scan_char :: "string \<Rightarrow> char \<Rightarrow> scan \<Rightarrow> stop + scan" where
  "scan_char command c st =
     (if c = CHR 0x22 then Inr (st\<lparr>inQuote := \<not> inQuote st\<rparr>)
      else if c = CHR '' '' then
        (if inQuote st then Inr st
         else ebnd (substr command (position st) (tmppos st)) (\<lambda>item.
           Inr (st\<lparr>scan_args := scan_args st @ [item],
                   position := position st + (tmppos st + 1),
                   tmppos := 0\<rparr>)))
      else Inr st)"

lemma scan_char_forward:
  "scan_char command c st = Inr st' \<Longrightarrow>
     position st + tmppos st \<le> position st' + tmppos st'"
  by (auto simp: scan_char_def substr_def split: if_splits)

text \<open>
  The \<open>while\<close> loop: the switch, \<open>tmppos++\<close>, and the exit that pushes the rest of the command.
  After a blank \<open>tmppos\<close> is 0 and is incremented at once, so the character after a blank is not
  looked at by the switch.
\<close>

function scan_loop :: "string \<Rightarrow> scan \<Rightarrow> stop + string list" where
  "scan_loop command st =
     (if position st < length command then
        (case char_at command (position st + tmppos st) of
           Inl e \<Rightarrow> Inl e
         | Inr c \<Rightarrow>
             (case scan_char command c st of
                Inl e \<Rightarrow> Inl e
              | Inr st1 \<Rightarrow>
                  (let st2 = st1\<lparr>tmppos := tmppos st1 + 1\<rparr>
                   in if position st2 + tmppos st2 \<ge> length command
                      then ebnd (substr_from command (position st2)) (\<lambda>item.
                             Inr (scan_args st2 @ [item]))
                      else scan_loop command st2)))
      else Inr (scan_args st))"
  by pat_completeness auto
termination
  by (relation "measure (\<lambda>(command, st). length command - (position st + tmppos st))")
     (auto dest: scan_char_forward)

declare scan_loop.simps [simp del]

definition scan_start :: scan where
  "scan_start = \<lparr>position = 0, tmppos = 0, inQuote = False, scan_args = []\<rparr>"

text \<open>
  The second half copies each argument into a block of its own with \<open>strcpy\<close>, so an argument
  ends at its first 0, and ends the vector with a null pointer; the model keeps the strings.
  The block of an argument has \<open>length + 1\<close> characters.
\<close>

definition copy_arg :: "string \<Rightarrow> stop + string" where
  "copy_arg item =
     (if length (cstr item) + 1 \<le> length item + 1 then Inr (cstr item) else Inl Undefined)"

fun copy_args :: "string list \<Rightarrow> stop + string list" where
  "copy_args [] = Inr []"
| "copy_args (item # items) = ebnd (copy_arg item) (\<lambda>a. ebnd (copy_args items) (\<lambda>r. Inr (a # r)))"

definition parseCommand :: "string \<Rightarrow> stop + string list" where
  "parseCommand command = ebnd (scan_loop command scan_start) copy_args"

lemma copy_args_map [simp]: "copy_args items = Inr (map cstr items)"
  by (induction items) (simp_all add: copy_arg_def length_cstr)

section \<open>A structural reference\<close>

text \<open>
  \<open>toks q cur cs\<close>: inside quotes or not, the argument collected so far, the characters to come.
  The character after a separating blank starts the next argument unexamined.
\<close>

fun toks :: "bool \<Rightarrow> string \<Rightarrow> string \<Rightarrow> string list" where
  "toks q cur [] = [cur]"
| "toks q cur (c # cs) =
     (if c = CHR 0x22 then toks (\<not> q) (cur @ [c]) cs
      else if c = CHR '' '' \<and> \<not> q
      then cur # (case cs of [] \<Rightarrow> [[]] | d # ds \<Rightarrow> toks q [d] ds)
      else toks q (cur @ [c]) cs)"

text \<open>
  What the loop still has to do from a state within bounds: the argument collected so far is
  \<open>take tmppos (drop position command)\<close>.
\<close>

lemma take_drop_Suc:
  "p + t < length cs \<Longrightarrow> take (Suc t) (drop p cs) = take t (drop p cs) @ [cs ! (p + t)]"
  by (simp add: take_Suc_conv_app_nth)

lemma scan_loop_blank:
  assumes "position st + tmppos st < length command" "command ! (position st + tmppos st) = CHR '' ''"
    and "\<not> inQuote st"
  defines "st' \<equiv> st\<lparr>scan_args := scan_args st @ [take (tmppos st) (drop (position st) command)],
      position := Suc (position st + tmppos st), tmppos := 1\<rparr>"
  shows "scan_loop command st =
    (if position st' + tmppos st' < length command then scan_loop command st'
     else Inr (scan_args st' @ [drop (position st') command]))"
proof -
  have "char_at command (position st + tmppos st) = Inr (CHR '' '')"
    using assms(1,2) by (simp add: char_at_def)
  moreover have "scan_char command (CHR '' '') st = Inr (st'\<lparr>tmppos := 0\<rparr>)"
    using assms(1,3) by (simp add: scan_char_def substr_def st'_def)
  ultimately show ?thesis
    using assms(1) by (simp add: scan_loop.simps [of command st] substr_from_def st'_def not_less)
qed

lemma scan_loop_plain:
  assumes "position st + tmppos st < length command" "command ! (position st + tmppos st) = c"
    and "\<not> (c = CHR '' '' \<and> \<not> inQuote st)"
  defines "st' \<equiv> st\<lparr>inQuote := (if c = CHR 0x22 then \<not> inQuote st else inQuote st), tmppos := Suc (tmppos st)\<rparr>"
  shows "scan_loop command st =
    (if position st' + tmppos st' < length command then scan_loop command st'
     else Inr (scan_args st' @ [drop (position st') command]))"
proof -
  have "char_at command (position st + tmppos st) = Inr c"
    using assms(1,2) by (simp add: char_at_def)
  moreover have "scan_char command c st = Inr (st'\<lparr>tmppos := tmppos st\<rparr>)"
    using assms(3) by (auto simp: scan_char_def st'_def)
  ultimately show ?thesis
    using assms(1) by (simp add: scan_loop.simps [of command st] substr_from_def st'_def not_less)
qed

lemma scan_loop_toks:
  "position st + tmppos st < length command \<Longrightarrow>
   scan_loop command st =
     Inr (scan_args st @ toks (inQuote st) (take (tmppos st) (drop (position st) command))
                         (drop (position st + tmppos st) command))"
proof (induction "length command - (position st + tmppos st)" arbitrary: st rule: less_induct)
  case less
  let ?i = "position st + tmppos st"
  note lt = less.prems
  have rest: "drop ?i command = command ! ?i # drop (Suc ?i) command"
    using lt by (simp add: Cons_nth_drop_Suc)
  show ?case
  proof (cases "command ! ?i = CHR '' '' \<and> \<not> inQuote st")
    case True
    then have blank: "command ! ?i = CHR '' ''" "\<not> inQuote st" by simp_all
    show ?thesis
    proof (cases "drop (Suc ?i) command")
      case Nil
      then show ?thesis using scan_loop_blank [OF lt blank] blank by (simp add: rest)
    next
      case (Cons d ds)
      then have "ds = drop (Suc (Suc ?i)) command" by (metis drop_Suc list.sel(3) tl_drop)
      with Cons show ?thesis
        using scan_loop_blank [OF lt blank] blank lt less.hyps by (cases ds) (simp_all add: rest)
    qed
  next
    case False
    have cur: "take (Suc (tmppos st)) (drop (position st) command) =
        take (tmppos st) (drop (position st) command) @ [command ! ?i]"
      using lt by (simp add: take_drop_Suc)
    show ?thesis
    proof (cases "Suc ?i < length command")
      case True
      then show ?thesis
        using scan_loop_plain [OF lt refl False] lt less.hyps False by (auto simp: rest cur)
    next
      case last: False
      then have "take (Suc (tmppos st)) (drop (position st) command) = drop (position st) command"
        and "drop (Suc ?i) command = []" by simp_all
      with last show ?thesis
        using scan_loop_plain [OF lt refl False] False cur by (auto simp: rest)
    qed
  qed
qed

lemma parseCommand_Nil: "parseCommand [] = Inr []"
  by (simp add: parseCommand_def scan_start_def scan_loop.simps)

lemma parseCommand_eq:
  "parseCommand command = Inr (if command = [] then [] else map cstr (toks False [] command))"
  by (simp add: parseCommand_Nil, simp add: parseCommand_def scan_loop_toks scan_start_def)

section \<open>Laws of the argument vector\<close>

lemma toks_nonempty: "toks q cur cs \<noteq> []"
  by (induction q cur cs rule: toks.induct) auto

lemma join_sp_toks: "join_sp (toks q cur cs) = cur @ cs"
proof (induction q cur cs rule: toks.induct)
  case (1 q cur)
  show ?case by simp
next
  case (2 q cur c cs)
  then show ?case
    by (cases cs) (auto simp: join_sp_Cons toks_nonempty)
qed

text \<open>
  A stretch with no quote in it, and no blank unless inside quotes, is taken as it is.
\<close>

lemma toks_run:
  "CHR 0x22 \<notin> set w \<Longrightarrow> q \<or> CHR '' '' \<notin> set w \<Longrightarrow> toks q cur (w @ r) = toks q (cur @ w) r"
  by (induction w arbitrary: cur) auto

text \<open>A word that the shell, too, would pass as one argument.\<close>

definition plain_word :: "string \<Rightarrow> bool" where
  "plain_word w \<longleftrightarrow> w \<noteq> [] \<and> CHR '' '' \<notin> set w \<and> CHR 0x22 \<notin> set w \<and> CHR 0x00 \<notin> set w"

lemma plain_word_cstr: "plain_word w \<Longrightarrow> cstr w = w"
  by (simp add: plain_word_def cstr_id)

lemma toks_words:
  "plain_word w \<Longrightarrow> \<forall>v \<in> set ws. plain_word v \<Longrightarrow>
   CHR '' '' \<notin> set u \<Longrightarrow> CHR 0x22 \<notin> set u \<Longrightarrow>
   toks False cur (u @ concat (map (\<lambda>v. CHR '' '' # v) ws)) = (cur @ u) # ws"
proof (induction ws arbitrary: cur u)
  case Nil
  then show ?case using toks_run [of u False cur "[]"] by simp
next
  case (Cons v ws)
  from Cons.prems obtain d ds where v: "v = d # ds" by (cases v) (auto simp: plain_word_def)
  have ds: "CHR '' '' \<notin> set ds" "CHR 0x22 \<notin> set ds"
    using Cons.prems v by (auto simp: plain_word_def)
  have "toks False [d] (ds @ concat (map (\<lambda>v. CHR '' '' # v) ws)) = ([d] @ ds) # ws"
    by (rule Cons.IH) (use Cons.prems ds in auto)
  then show ?case
    using Cons.prems v by (simp add: toks_run)
qed

lemma join_sp_concat: "join_sp (w # ws) = w @ concat (map (\<lambda>v. CHR '' '' # v) ws)"
  by (induction ws arbitrary: w) (simp_all add: join_sp_Cons)

text \<open>
  C21. No command line makes \<open>parseCommand\<close> throw, read out of range or run on, and nothing of it
  is lost: the pieces it cuts, joined again by single blanks, are the command line. (The argument
  handed on is the piece up to its first 0, as a C string.)
\<close>

theorem parseCommand_join:
  "\<exists>pieces. parseCommand command = Inr (map cstr pieces) \<and> join_sp pieces = command"
proof (cases "command = []")
  case True
  then show ?thesis by (simp add: parseCommand_Nil)
next
  case False
  then show ?thesis
    by (intro exI [of _ "toks False [] command"]) (simp add: parseCommand_eq join_sp_toks)
qed

text \<open>
  C30. A command line made of plain words separated by single blanks is cut back into exactly
  these words.
\<close>

theorem parseCommand_words:
  assumes "\<forall>w \<in> set ws. plain_word w"
  shows "parseCommand (join_sp ws) = Inr ws"
proof (cases ws)
  case Nil
  then show ?thesis by (simp add: parseCommand_Nil)
next
  case (Cons w vs)
  with assms have w: "plain_word w" and vs: "\<forall>v \<in> set vs. plain_word v" by auto
  have "toks False [] (join_sp ws) = ws"
    using toks_words [OF w vs, of w "[]"] w by (simp add: Cons join_sp_concat plain_word_def)
  moreover have "join_sp ws \<noteq> []"
    using w by (simp add: Cons join_sp_concat plain_word_def)
  moreover have "map cstr ws = ws"
    using assms by (simp add: map_idI plain_word_cstr)
  ultimately show ?thesis by (simp add: parseCommand_eq)
qed

theorem parseCommand_words_witness:
  "parseCommand ''make test'' = Inr [''make'', ''test'']"
  using parseCommand_words [of "[''make'', ''test'']"] by (simp add: plain_word_def)



end
