(* ===== verification/Proc.thy ===== *)
theory Proc
  imports Rules Command
begin

text \<open>
  The class \<open>Process\<close> (src/src/process.hpp, src/src/process.cpp): constructors and destructor,
  \<open>run\<close> with its two sides of the fork, \<open>runAndWait\<close>, \<open>kill\<close>. Objects live in the heap \<open>procs\<close>
  and are named by their address; the argument vector a process starts is a block of \<open>argvs\<close> that
  other objects may share.
\<close>

section \<open>Construction\<close>

definition new_Process_command :: "string \<Rightarrow> bool \<Rightarrow> nat io" where
  "new_Process_command command in_path =
     bnd (lift_res (parseCommand command)) (\<lambda>v.
     bnd (new_argv v) (\<lambda>a.
       new_proc \<lparr>mProc = 0, mSearchInPath = in_path, mGeneratedCommand = True, mEnabled = True,
                 mCommand = a\<rparr>))"

definition new_Process :: "nat \<Rightarrow> bool \<Rightarrow> nat io" where
  "new_Process command in_path =
     new_proc \<lparr>mProc = 0, mSearchInPath = in_path, mGeneratedCommand = False, mEnabled = True,
               mCommand = command\<rparr>"

definition enable :: "process \<Rightarrow> process" where
  "enable pr = pr\<lparr>mEnabled := True\<rparr>"

definition disable :: "process \<Rightarrow> process" where
  "disable pr = pr\<lparr>mEnabled := False\<rparr>"

definition isEnabled :: "process \<Rightarrow> bool" where
  "isEnabled pr = mEnabled pr"

definition status :: "process \<Rightarrow> int" where
  "status pr = 0"

section \<open>The child's side of the fork\<close>

text \<open>
  The argument vector as the C code reads it: a null pointer ends it, and reading on past the null
  pointer is undefined.
\<close>

definition argv_at :: "string list \<Rightarrow> nat \<Rightarrow> stop + string option" where
  "argv_at v i = (if i < length v then Inr (Some (v ! i))
     else if i = length v then Inr None else Inl Undefined)"

lemma argv_at_Some: "argv_at v i = Inr (Some a) \<Longrightarrow> i < length v \<and> a = v ! i"
  by (simp add: argv_at_def split: if_splits)

text \<open>The first loop: the room the arguments after the command need, each with a blank.\<close>

function size_loop :: "string list \<Rightarrow> nat \<Rightarrow> nat \<Rightarrow> stop + nat" where
  "size_loop v i n =
     (case argv_at v i of
        Inl e \<Rightarrow> Inl e
      | Inr None \<Rightarrow> Inr n
      | Inr (Some a) \<Rightarrow> size_loop v (i + 1) (n + (length (cstr a) + 1)))"
  by pat_completeness auto
termination
  by (relation "measure (\<lambda>(v, i, n). Suc (length v) - i)") (auto dest: argv_at_Some)

text \<open>\<open>strcat\<close> into a buffer: the text, the appended text and the terminating 0 must fit.\<close>

definition strcat :: "nat \<Rightarrow> string \<Rightarrow> string \<Rightarrow> stop + string" where
  "strcat capacity dst src =
     (if length dst + length (cstr src) + 1 \<le> capacity then Inr (dst @ cstr src)
      else Inl Undefined)"

function args_loop :: "string list \<Rightarrow> nat \<Rightarrow> nat \<Rightarrow> string \<Rightarrow> stop + string" where
  "args_loop v i capacity buf =
     (case argv_at v i of
        Inl e \<Rightarrow> Inl e
      | Inr None \<Rightarrow> Inr buf
      | Inr (Some a) \<Rightarrow>
          (case strcat capacity buf a of
             Inl e \<Rightarrow> Inl e
           | Inr b \<Rightarrow>
               (case strcat capacity b '' '' of
                  Inl e \<Rightarrow> Inl e
                | Inr b' \<Rightarrow> args_loop v (i + 1) capacity b')))"
  by pat_completeness auto
termination
  by (relation "measure (\<lambda>(v, i, capacity, buf). Suc (length v) - i)") (auto dest: argv_at_Some)

declare size_loop.simps [simp del] args_loop.simps [simp del]

definition args_string :: "string list \<Rightarrow> stop + string" where
  "args_string v = ebnd (size_loop v 1 0) (\<lambda>n. args_loop v 1 (n + 1) [])"

text \<open>
  \<open>execvp\<close> or \<open>execv\<close> on the vector: either the image is replaced and nothing of this run goes
  on, or the call returns with an error.
\<close>

definition sys_exec :: "os \<Rightarrow> bool \<Rightarrow> string \<Rightarrow> string list \<Rightarrow> unit io" where
  "sys_exec os in_path file v =
     bnd (gets (\<lambda>s. os_exec os (hist s) in_path file v)) (\<lambda>r.
       case r of
         None \<Rightarrow> halt (Replaced in_path file v)
       | Some e \<Rightarrow> modify (\<lambda>s. s\<lparr>hist := hist s @ [EExec in_path file v], errno := e\<rparr>))"

text \<open>\<open>mCommand[0]\<close> where the code needs a string: a null pointer given to \<open>%s\<close> is undefined.\<close>

definition command_name :: "string list \<Rightarrow> string io" where
  "command_name v = bnd (lift_res (argv_at v 0)) deref"

definition run_child :: "os \<Rightarrow> iLogger \<Rightarrow> nat \<Rightarrow> bool io" where
  "run_child os lg p =
     thn (LOG os lg DEBUG ''In child process.'' [])
    (bnd (get_proc p) (\<lambda>pr.
     bnd (get_argv (mCommand pr)) (\<lambda>v.
     bnd (lift_res (args_string v)) (\<lambda>args_string.
     bnd (command_name v) (\<lambda>name.
     thn (LOG os lg DEBUG ''running command %s with %s arguments'' [PStr name, PStr args_string])
    (thn (sys_exec os (mSearchInPath pr) name v)
    (thn (LOG os lg ERROR ''Failed to run command!'' [])
         (halt (Exited 1)))))))))"

section \<open>Running, waiting, killing\<close>

definition report_wait :: "os \<Rightarrow> iLogger \<Rightarrow> int \<Rightarrow> unit io" where
  "report_wait os lg pid =
     bnd (gets errno) (\<lambda>e. if pid < 0 \<and> e \<noteq> ECHILD then LOG_ERROR os lg ''waitpid'' else ret ())"

definition report_failed :: "os \<Rightarrow> iLogger \<Rightarrow> nat \<Rightarrow> unit io" where
  "report_failed os lg p =
     bnd (get_proc p) (\<lambda>pr.
     bnd (get_argv (mCommand pr)) (\<lambda>v.
     bnd (command_name v) (\<lambda>name.
       LOG os lg ERROR ''An error has occured while attempting to run: %s'' [PStr name])))"

definition run_parent :: "os \<Rightarrow> iLogger \<Rightarrow> nat \<Rightarrow> int \<Rightarrow> bool io" where
  "run_parent os lg p mproc =
     thn (LOG os lg DEBUG ''The child has a pid of %d'' [PInt mproc])
    (thn (sys_usleep 10)
    (bnd (sys_waitpid os mproc True) (\<lambda>(pid, status).
     thn (report_wait os lg pid)
    (if 0 < pid \<and> status \<noteq> 0 then thn (report_failed os lg p) (ret False) else ret True))))"

definition run :: "os \<Rightarrow> iLogger \<Rightarrow> nat \<Rightarrow> bool io" where
  "run os lg p =
     bnd (sys_fork os) (\<lambda>pid.
     bnd (get_proc p) (\<lambda>pr.
     thn (put_proc p (pr\<lparr>mProc := pid\<rparr>))
    (if pid = -1 then
       thn (LOG os lg ERROR ''Failed to launch fork!'' [])
      (thn (LOG_ERROR os lg ''fork'')
           (ret False))
     else if pid = 0 then run_child os lg p
     else run_parent os lg p pid)))"

definition runAndWait :: "os \<Rightarrow> iLogger \<Rightarrow> nat \<Rightarrow> bool io" where
  "runAndWait os lg p =
     bnd (run os lg p) (\<lambda>started.
     if \<not> started then ret False
     else
       bnd (get_proc p) (\<lambda>pr.
       bnd (sys_waitpid os (mProc pr) False) (\<lambda>(pid, status).
       thn (report_wait os lg pid)
      (if 0 < pid \<and> status \<noteq> 0 then thn (report_failed os lg p) (ret False) else ret True))))"

text \<open>
  The second \<open>kill\<close> is made only if the null signal could be sent; its failure ends the operation.
\<close>

definition terminate :: "os \<Rightarrow> int \<Rightarrow> bool io" where
  "terminate os pid =
     bnd (sys_kill os pid 0) (\<lambda>r.
     if r = 0 then bnd (sys_kill os pid SIGTERM) (\<lambda>r. ret (r \<noteq> 0)) else ret False)"

definition kill :: "os \<Rightarrow> iLogger \<Rightarrow> nat \<Rightarrow> bool io" where
  "kill os lg p =
     bnd (get_proc p) (\<lambda>pr.
     if mProc pr \<le> 1 then ret True
     else
       bnd (terminate os (mProc pr)) (\<lambda>failed.
       if failed then thn (LOG_ERROR os lg ''kill'') (ret False)
       else
         bnd (sys_waitpid os (mProc pr) False) (\<lambda>(pid, status).
         thn (report_wait os lg pid)
        (thn (if status \<noteq> 0
              then LOG os lg SUCCESS ''Process [%d] exited with %d'' [PInt (mProc pr), PInt status]
              else ret ())
             (ret True)))))"

text \<open>\<open>delete\<close> on a process: the destructor kills it and frees the vector it made itself.\<close>

definition delete_Process :: "os \<Rightarrow> iLogger \<Rightarrow> nat \<Rightarrow> unit io" where
  "delete_Process os lg p =
     thn (kill os lg p)
    (bnd (get_proc p) (\<lambda>pr.
     thn (if mGeneratedCommand pr then free_argv (mCommand pr) else ret ())
         (free_proc p)))"

section \<open>The child\<close>

text \<open>The arguments after the command, each followed by a blank, as the log message shows them.\<close>

definition shown_args :: "string list \<Rightarrow> string" where
  "shown_args v = concat (map (\<lambda>a. cstr a @ '' '') v)"

lemma shown_args_simps [simp]:
  "shown_args [] = []"
  "shown_args (a # v) = cstr a @ '' '' @ shown_args v"
  by (simp_all add: shown_args_def)

lemma argv_at_drop:
  "i < length v \<Longrightarrow> argv_at v i = Inr (Some (v ! i)) \<and> drop i v = v ! i # drop (Suc i) v"
  by (simp add: argv_at_def Cons_nth_drop_Suc)

lemma size_loop_eq:
  "i \<le> length v \<Longrightarrow> size_loop v i n = Inr (n + length (shown_args (drop i v)))"
proof (induction v i n rule: size_loop.induct)
  case (1 v i n)
  show ?case
  proof (cases "i < length v")
    case True
    with argv_at_drop [OF True] 1 show ?thesis
      by (subst size_loop.simps) simp
  next
    case False
    with 1 show ?thesis by (subst size_loop.simps) (simp add: argv_at_def)
  qed
qed

lemma args_loop_eq:
  "i \<le> length v \<Longrightarrow> length buf + length (shown_args (drop i v)) + 1 \<le> capacity \<Longrightarrow>
   args_loop v i capacity buf = Inr (buf @ shown_args (drop i v))"
proof (induction v i capacity buf rule: args_loop.induct)
  case (1 v i capacity buf)
  show ?case
  proof (cases "i < length v")
    case True
    note d = argv_at_drop [OF True]
    have fits: "strcat capacity buf (v ! i) = Inr (buf @ cstr (v ! i))"
      "strcat capacity (buf @ cstr (v ! i)) '' '' = Inr (buf @ cstr (v ! i) @ '' '')"
      using "1.prems" d by (auto simp: strcat_def cstr_def)
    show ?thesis
      using "1.IH" [OF conjunct1 [OF d] refl fits(1) fits(2)] "1.prems" d True
      by (subst args_loop.simps) (simp add: fits)
  next
    case False
    with 1 show ?thesis by (subst args_loop.simps) (simp add: argv_at_def)
  qed
qed

lemma args_string_eq: "v \<noteq> [] \<Longrightarrow> args_string v = Inr (shown_args (tl v))"
  by (cases v) (simp_all add: args_string_def size_loop_eq args_loop_eq)

text \<open>
  C29. The buffer for the arguments is sized by one loop and filled by another: for every
  argument vector with a command the second never writes past what the first reserved, and the
  text it builds is all arguments after the command with a blank behind each.
\<close>

theorem args_string_fits:
  assumes "v \<noteq> []"
  shows "\<exists>n. size_loop v 1 0 = Inr n \<and> length (shown_args (tl v)) + 1 \<le> n + 1 \<and>
    args_loop v 1 (n + 1) [] = Inr (shown_args (tl v))"
  using assms by (cases v) (simp_all add: size_loop_eq args_loop_eq)

theorem args_string_fits_witness:
  "args_string [''make'', ''-j'', ''test''] = Inr ''-j test ''"
  using args_string_fits [of "[''make'', ''-j'', ''test'']"]
  by (auto simp: args_string_def cstr_def)

lemma bnd_lift_Inr [triple_intros]:
  "triple P (k x) Q E \<Longrightarrow> triple P (bnd (lift_res (Inr x)) k) Q E"
  by (simp add: lift_res_def)

lemma bnd_command_name [triple_intros]:
  "v \<noteq> [] \<Longrightarrow> triple P (k (hd v)) Q E \<Longrightarrow> triple P (bnd (command_name v) k) Q E"
  by (cases v) (simp_all add: command_name_def argv_at_def lift_res_def deref_def)

lemma bnd_args_string [triple_intros]:
  "v \<noteq> [] \<Longrightarrow> triple P (k (shown_args (tl v))) Q E \<Longrightarrow>
   triple P (bnd (lift_res (args_string v)) k) Q E"
  by (simp add: args_string_eq lift_res_def)

lemma triple_sys_exec:
  assumes "\<And>s. P s \<Longrightarrow> E (Replaced path file v) s"
    and "triple (\<lambda>s. True) k Q E"
  shows "triple P (thn (sys_exec os path file v) k) Q E"
  unfolding triple_def
proof (intro allI impI)
  fix s assume "P s"
  show "case thn (sys_exec os path file v) k s of (Val x, t) \<Rightarrow> Q x t | (Stop e, t) \<Rightarrow> E e t"
  proof (cases "os_exec os (hist s) path file v")
    case None
    then have "sys_exec os path file v s = (Stop (Replaced path file v), s)"
      by (simp add: sys_exec_def bnd_def gets_def halt_def)
    with assms(1) [OF \<open>P s\<close>] show ?thesis by (simp add: run_simps)
  next
    case (Some e)
    then have "sys_exec os path file v s =
        (Val (), s\<lparr>hist := hist s @ [EExec path file v], errno := e\<rparr>)"
      by (simp add: sys_exec_def bnd_def gets_def modify_def)
    with assms(2) show ?thesis by (simp add: run_simps triple_def)
  qed
qed

lemma thn_LOG_True:
  "vformat format args \<noteq> None \<Longrightarrow> triple (\<lambda>s. True) k Q E \<Longrightarrow>
   triple (\<lambda>s. True) (thn (LOG os lg level format args) k) Q E"
  using triple_thn [OF lg.triple_log [where P = "\<lambda>_. True"]] by blast

text \<open>
  The child becomes its command, found in the path if asked for, with exactly the configured
  arguments, or it exits with 1: in no case does it return into the parent's code.
\<close>

lemma triple_run_child:
  assumes "slot P p = Some pr" "slot V (mCommand pr) = Some v" "v \<noteq> []"
  shows "triple (core_is A P V) (run_child os lg p) Q
    (\<lambda>e _. e = Replaced (mSearchInPath pr) (hd v) v \<or> e = Exited 1)"
  unfolding run_child_def
  by (intro triple_intros triple_sys_exec thn_LOG_True assms) (simp_all add: assms)

section \<open>The parent\<close>

text \<open>
  What one operation adds to the acts of the history, as a relation between the operation, the
  pid it left in the object, the acts and the value returned. \<open>run_trace\<close>: a fork that failed, or
  a child started and looked at once; \<open>wait_trace\<close>: that, and the blocking wait if it was not
  reported to have failed already; \<open>kill_trace\<close>: nothing for an object with no child, otherwise the
  null signal, \<open>SIGTERM\<close> if that was possible, and the wait.
\<close>

inductive run_trace :: "int \<Rightarrow> history \<Rightarrow> bool \<Rightarrow> bool" where
  fork_failed: "run_trace (-1) [EFork (-1)] False"
| started: "r \<noteq> -1 \<Longrightarrow> r \<noteq> 0 \<Longrightarrow> ok = (\<not> (0 < w \<and> st \<noteq> 0)) \<Longrightarrow>
    run_trace r [EFork r, ESleep 10, EWait r True w st] ok"

inductive wait_trace :: "int \<Rightarrow> history \<Rightarrow> bool \<Rightarrow> bool" where
  not_run: "run_trace r h False \<Longrightarrow> wait_trace r h False"
| waited: "run_trace r h True \<Longrightarrow> ok = (\<not> (0 < w \<and> st \<noteq> 0)) \<Longrightarrow>
    wait_trace r (h @ [EWait r False w st]) ok"

inductive kill_trace :: "int \<Rightarrow> history \<Rightarrow> bool \<Rightarrow> bool" where
  no_child: "m \<le> 1 \<Longrightarrow> kill_trace m [] True"
| absent: "1 < m \<Longrightarrow> r \<noteq> 0 \<Longrightarrow> kill_trace m [EKill m 0 r, EWait m False w st] True"
| refused: "1 < m \<Longrightarrow> r \<noteq> 0 \<Longrightarrow> kill_trace m [EKill m 0 0, EKill m SIGTERM r] False"
| killed: "1 < m \<Longrightarrow> kill_trace m [EKill m 0 0, EKill m SIGTERM 0, EWait m False w st] True"

inductive_cases run_trace_True: "run_trace r h True"
inductive_simps run_trace_failed: "run_trace r h False"

text \<open>
  The children after an operation, under \<open>posix\<close>: a run adds its new child unless it has been
  collected, a run that waits adds none, a kill takes its child away.
\<close>

definition run_kids :: "history \<Rightarrow> int \<Rightarrow> history \<Rightarrow> bool \<Rightarrow> bool" where
  "run_kids A r h ok \<longleftrightarrow> (ok \<longrightarrow> 1 < r \<and> r \<notin> kids A) \<and>
     (kids (A @ h) = kids A \<or> (ok \<and> kids (A @ h) = insert r (kids A)))"

lemma run_kids_failed: "run_kids A (-1) [EFork (-1)] False"
  by (simp add: run_kids_def kids_append)

lemma run_kids_started:
  assumes "posix os" "fork_answer os A r" "r \<noteq> -1" "r \<noteq> 0"
    and "wait_answer os (A @ [EFork r, ESleep n]) r True w"
  shows "run_kids A r [EFork r, ESleep n, EWait r True w st] (\<not> (0 < w \<and> st \<noteq> 0))"
proof -
  have r: "1 < r" "r \<notin> kids A" using assms(1-4) by (auto simp: fork_answer_def)
  have "r \<in> kids (A @ [EFork r, ESleep n])" using r by (simp add: kids_append)
  then have "w = r \<or> w = 0" using assms(1,5) r by (auto simp: wait_answer_def)
  with r show ?thesis by (auto simp: run_kids_def kids_append)
qed

definition process_ready :: "process option list \<Rightarrow> string list option list \<Rightarrow> nat \<Rightarrow> bool" where
  "process_ready P V p \<longleftrightarrow> (\<exists>pr v. slot P p = Some pr \<and> slot V (mCommand pr) = Some v \<and> v \<noteq> [])"

lemma triple_report_wait [triple_intros]:
  "triple (core_is A P V) k Q E \<Longrightarrow>
   triple (core_is A P V) (thn (report_wait os lg r) k) Q E"
proof -
  assume k: "triple (core_is A P V) k Q E"
  have "triple (core_is A P V) (report_wait os lg r) (\<lambda>_. core_is A P V) E"
    unfolding report_wait_def
    by (intro bnd_gets_errno triple_if lg.triple_log_error triple_core_ret)
  then show ?thesis using k by (rule triple_thn)
qed

lemma triple_report_failed [triple_intros]:
  assumes "slot P p = Some pr" "slot V (mCommand pr) = Some v" "v \<noteq> []"
    and k: "triple (core_is A P V) k Q E"
  shows "triple (core_is A P V) (thn (report_failed os lg p) k) Q E"
proof -
  have "triple (core_is A P V) (report_failed os lg p) (\<lambda>_. core_is A P V) E"
    unfolding report_failed_def
    by (intro bnd_get_proc [OF assms(1)] bnd_get_argv [OF assms(2)] bnd_command_name [OF assms(3)]
        lg.triple_log) simp
  then show ?thesis using k by (rule triple_thn)
qed

lemma child_stop_cases:
  "triple P m Q (\<lambda>e _. e = Replaced b f v \<or> e = Exited n) \<Longrightarrow> triple P m Q (\<lambda>e _. child_stop e)"
  by (erule triple_conseq) auto

text \<open>The end of \<open>run\<close> and of \<open>runAndWait\<close>: a status other than 0 is a failure.\<close>

lemma triple_after_wait:
  assumes "slot P p = Some pr" "slot V (mCommand pr) = Some v" "v \<noteq> []"
    and "\<And>ok. ok = (\<not> (0 < w \<and> st \<noteq> 0)) \<Longrightarrow> triple (core_is A P V) (ret ok) Q E"
  shows "triple (core_is A P V)
    (thn (report_wait os lg w)
      (if 0 < w \<and> (if 0 < w then st else (0 :: int)) \<noteq> 0
       then thn (report_failed os lg p) (ret False) else ret True)) Q E"
  by (intro triple_report_wait triple_if triple_report_failed [OF assms(1-3)] assms(4)) auto

lemma triple_run_parent:
  assumes "slot P p = Some pr" "slot V (mCommand pr) = Some v" "v \<noteq> []"
    and r: "r \<noteq> -1" "r \<noteq> 0" "fork_answer os A r"
  shows "triple (core_is (A @ [EFork r]) P V) (run_parent os lg p r)
    (\<lambda>ok s. \<exists>h. core s = (A @ h, P, V) \<and> run_trace r h ok \<and> (posix os \<longrightarrow> run_kids A r h ok)) E"
proof -
  have leaf: "triple (core_is (((A @ [EFork r]) @ [ESleep 10]) @ [EWait r True w st]) P V) (ret ok)
    (\<lambda>ok s. \<exists>h. core s = (A @ h, P, V) \<and> run_trace r h ok \<and> (posix os \<longrightarrow> run_kids A r h ok)) E"
    if "ok = (\<not> (0 < w \<and> st \<noteq> 0))" "wait_answer os ((A @ [EFork r]) @ [ESleep 10]) r True w"
    for w st ok
    using that r run_kids_started [of os A r 10 w st]
    by (intro triple_core_ret exI [of _ "[EFork r, ESleep 10, EWait r True w st]"])
       (auto intro: run_trace.started)
  show ?thesis
    unfolding run_parent_def
    by (intro thn_LOG thn_usleep bnd_waitpid triple_after_wait [OF assms(1-3)] leaf) simp_all
qed

lemma triple_run:
  assumes "slot P p = Some pr" "slot V (mCommand pr) = Some v" "v \<noteq> []"
  shows "triple (core_is A P V) (run os lg p)
    (\<lambda>ok s. \<exists>r h. core s = (A @ h, P[p := Some (pr\<lparr>mProc := r\<rparr>)], V) \<and> run_trace r h ok \<and>
       (posix os \<longrightarrow> run_kids A r h ok))
    (\<lambda>e _. child_stop e)" (is "triple _ _ ?Q _")
proof -
  let ?P = "\<lambda>r. P[p := Some (pr\<lparr>mProc := r\<rparr>)]"
  have new: "slot (?P r) p = Some (pr\<lparr>mProc := r\<rparr>)" for r
    using slot_length [OF assms(1)] by (simp add: slot_update)
  have cmd: "slot V (mCommand (pr\<lparr>mProc := r\<rparr>)) = Some v" for r
    using assms(2) by simp
  have failed: "triple (core_is (A @ [EFork (-1)]) (?P (-1)) V)
      (thn (LOG os lg ERROR ''Failed to launch fork!'' []) (thn (LOG_ERROR os lg ''fork'') (ret False)))
      ?Q (\<lambda>e _. child_stop e)"
    by (intro thn_LOG thn_LOG_ERROR triple_core_ret exI [of _ "-1 :: int"]
          exI [of _ "[EFork (-1)]"] conjI impI)
       (simp_all add: run_trace.fork_failed run_kids_failed)
  have child: "triple (core_is (A @ [EFork 0]) (?P 0) V) (run_child os lg p) ?Q (\<lambda>e _. child_stop e)"
    by (rule child_stop_cases) (rule triple_run_child [OF new cmd assms(3)])
  have parent: "triple (core_is (A @ [EFork r]) (?P r) V) (run_parent os lg p r) ?Q (\<lambda>e _. child_stop e)"
    if "r \<noteq> -1" "r \<noteq> 0" "fork_answer os A r" for r
    by (rule triple_post [OF triple_run_parent [OF new cmd assms(3) that]]) blast
  show ?thesis
    unfolding run_def
    by (intro bnd_fork bnd_get_proc [OF assms(1)] thn_put_proc triple_if;
        (hypsubst, rule failed | hypsubst, rule child | rule parent, assumption+))
qed

text \<open>The blocking wait of \<open>runAndWait\<close> collects what the run has left.\<close>

lemma run_kids_waited:
  assumes "posix os" "run_kids A r h True"
    and "wait_answer os (A @ h) r False w"
  shows "kids ((A @ h) @ [EWait r False w st]) = kids A"
proof -
  have r: "1 < r" "r \<notin> kids A" using assms(2) by (simp_all add: run_kids_def)
  have w: "w = (if r \<in> kids (A @ h) then r else -1)"
    using assms(1,3) r by (simp add: wait_answer_def split: if_splits)
  from assms(2) consider "kids (A @ h) = kids A" | "kids (A @ h) = insert r (kids A)"
    unfolding run_kids_def by blast
  then show ?thesis
  proof cases
    case 1
    with w r have "w = -1" by simp
    with 1 show ?thesis by (simp add: kids_snoc del: append_assoc)
  next
    case 2
    with w have "w = r" by simp
    with 2 r show ?thesis by (simp add: kids_snoc del: append_assoc)
  qed
qed

lemma triple_runAndWait:
  assumes "slot P p = Some pr" "slot V (mCommand pr) = Some v" "v \<noteq> []"
  shows "triple (core_is A P V) (runAndWait os lg p)
    (\<lambda>ok s. \<exists>r h. core s = (A @ h, P[p := Some (pr\<lparr>mProc := r\<rparr>)], V) \<and>
       (wait_trace r h ok \<and> (posix os \<longrightarrow> kids (A @ h) = kids A)))
    (\<lambda>e _. child_stop e)" (is "triple _ _ ?Q ?E")
proof -
  let ?P = "\<lambda>r. P[p := Some (pr\<lparr>mProc := r\<rparr>)]"
  have new: "slot (?P r) p = Some (pr\<lparr>mProc := r\<rparr>)" for r
    using slot_length [OF assms(1)] by (simp add: slot_update)
  have cmd: "slot V (mCommand (pr\<lparr>mProc := r\<rparr>)) = Some v" for r
    using assms(2) by simp
  have failed: "triple (core_is (A @ h) (?P r) V) (ret False) ?Q ?E"
    if "run_trace r h False" "posix os \<longrightarrow> run_kids A r h False" for r h
    using that
    by (intro triple_core_ret exI [of _ r] exI [of _ h])
       (auto intro: wait_trace.not_run simp: run_kids_def)
  have waits: "triple (core_is (A @ h) (?P r) V)
      (bnd (get_proc p) (\<lambda>pr. bnd (sys_waitpid os (mProc pr) False) (\<lambda>(pid, status).
         thn (report_wait os lg pid)
           (if 0 < pid \<and> status \<noteq> 0 then thn (report_failed os lg p) (ret False) else ret True)))) ?Q ?E"
    if run: "run_trace r h True" "posix os \<longrightarrow> run_kids A r h True" for r h
  proof (intro bnd_get_proc [OF new] bnd_waitpid triple_after_wait [OF new cmd assms(3)] triple_core_ret)
    fix w st ok s
    assume w: "wait_answer os (A @ h) (mProc (pr\<lparr>mProc := r\<rparr>)) False w" "ok = (\<not> (0 < w \<and> st \<noteq> 0))"
      and c: "core s = ((A @ h) @ [EWait (mProc (pr\<lparr>mProc := r\<rparr>)) False w st], ?P r, V)"
    show "?Q ok s"
      using c w run run_kids_waited [of os A r h w st]
      by (intro exI [of _ r] exI [of _ "h @ [EWait r False w st]"])
         (auto intro: wait_trace.waited)
  qed
  show ?thesis
    unfolding runAndWait_def
    by (rule triple_bnd [OF triple_run [OF assms]], intro triple_ex triple_pure triple_if)
       (use failed waits in auto)
qed

section \<open>Killing\<close>

lemma bnd_terminate:
  assumes "\<And>r. r \<noteq> 0 \<Longrightarrow> triple (core_is (A @ [EKill m 0 r]) P V) (k False) Q E"
    and "\<And>r. r = 0 \<or> \<not> (posix os \<and> 1 < m) \<Longrightarrow>
      triple (core_is (A @ [EKill m 0 0, EKill m SIGTERM r]) P V) (k (r \<noteq> 0)) Q E"
  shows "triple (core_is A P V) (bnd (terminate os m) k) Q E"
proof (rule triple_core_bndI [where R = "\<lambda>x c. \<exists>r. (r \<noteq> 0 \<and> \<not> x \<and> c = (A @ [EKill m 0 r], P, V)) \<or>
    ((r = 0 \<or> \<not> (posix os \<and> 1 < m)) \<and> x = (r \<noteq> 0) \<and> c = (A @ [EKill m 0 0, EKill m SIGTERM r], P, V))"])
  fix s :: sys assume c: "core s = (A, P, V)"
  define r0 where "r0 = fst (os_kill os (hist s) m 0)"
  obtain t where t: "sys_kill os m 0 s = (Val r0, t)" "hist t = hist s @ [EKill m 0 r0]"
      "procs t = procs s" "argvs t = argvs s"
    using sys_kill_run [of os m 0 s] by (auto simp: r0_def)
  define r1 where "r1 = fst (os_kill os (hist t) m SIGTERM)"
  obtain u where u: "sys_kill os m SIGTERM t = (Val r1, u)" "hist u = hist t @ [EKill m SIGTERM r1]"
      "procs u = procs t" "argvs u = argvs t"
    using sys_kill_run [of os m SIGTERM t] by (auto simp: r1_def)
  have "r1 = 0" if "r0 = 0" "posix os" "1 < m"
    using that t(2) by (simp add: r0_def r1_def posix_def posix_kill_def)
  then show "\<exists>x t. terminate os m s = (Val x, t) \<and> (\<exists>r. (r \<noteq> 0 \<and> \<not> x \<and> core t = (A @ [EKill m 0 r], P, V)) \<or>
    ((r = 0 \<or> \<not> (posix os \<and> 1 < m)) \<and> x = (r \<noteq> 0) \<and>
      core t = (A @ [EKill m 0 0, EKill m SIGTERM r], P, V)))"
    using c t u by (auto simp: terminate_def run_simps core_def)
next
  fix x c'
  assume "\<exists>r. (r \<noteq> 0 \<and> \<not> x \<and> c' = (A @ [EKill m 0 r], P, V)) \<or>
    ((r = 0 \<or> \<not> (posix os \<and> 1 < m)) \<and> x = (r \<noteq> 0) \<and>
      c' = (A @ [EKill m 0 0, EKill m SIGTERM r], P, V))"
  then show "triple (\<lambda>s. core s = c') (k x) Q E"
    using assms assms(2) [of 0] by (elim exE disjE conjE) simp_all
qed

text \<open>Under \<open>posix\<close> a kill succeeds and its child is gone; nothing else of the heap changes.\<close>

definition kill_kids :: "history \<Rightarrow> int \<Rightarrow> history \<Rightarrow> bool \<Rightarrow> bool" where
  "kill_kids A m h ok \<longleftrightarrow> ok \<and>
     (1 < m \<or> (\<forall>k \<in> kids A. 1 < k) \<longrightarrow> kids (A @ h) = kids A - {m})"

lemma kill_kids_waited:
  assumes "posix os" "wait_answer os (A @ ks) m False w" "kids (A @ ks) = kids A" "1 < m"
  shows "kill_kids A m (ks @ [EWait m False w st]) True"
proof -
  from assms have "w = (if m \<in> kids A then m else -1)"
    by (simp add: wait_answer_def split: if_splits)
  moreover have "kids (A @ ks @ [EWait m False w st]) = kid_step (EWait m False w st) (kids A)"
    using assms(3) kids_snoc [of "A @ ks"] by simp
  ultimately show ?thesis using assms(4) by (auto simp: kill_kids_def)
qed

lemma triple_kill:
  assumes pr: "slot P p = Some pr"
  shows "triple (core_is A P V) (kill os lg p)
    (\<lambda>ok s. \<exists>h. core s = (A @ h, P, V) \<and>
       (kill_trace (mProc pr) h ok \<and> (posix os \<longrightarrow> kill_kids A (mProc pr) h ok))) E"
    (is "triple _ _ ?Q E")
proof -
  let ?m = "mProc pr"
  let ?rest = "bnd (sys_waitpid os ?m False) (\<lambda>(pid, status).
      thn (report_wait os lg pid)
     (thn (if status \<noteq> 0
           then LOG os lg SUCCESS ''Process [%d] exited with %d'' [PInt ?m, PInt status]
           else ret ())
          (ret True)))"
  have report: "triple (core_is A P V)
      (if st \<noteq> 0 then LOG os lg SUCCESS ''Process [%d] exited with %d'' [PInt ?m, PInt st] else ret ())
      (\<lambda>_. core_is A P V) E" for A st
    by (rule triple_if) (rule lg.triple_log, simp, simp add: triple_core_ret)
  have rest: "triple (core_is (A @ ks) P V) ?rest ?Q E"
    if "1 < ?m" "kids (A @ ks) = kids A"
      and tr: "\<And>w st. kill_trace ?m (ks @ [EWait ?m False w st]) True" for ks
  proof (intro bnd_waitpid triple_report_wait triple_thn [OF report] triple_core_ret)
    fix w st s
    assume w: "wait_answer os (A @ ks) ?m False w"
      and c: "core s = ((A @ ks) @ [EWait ?m False w st], P, V)"
    show "?Q True s"
      using c tr kill_kids_waited [of os A ks ?m w st] w that(1,2)
      by (intro exI [of _ "ks @ [EWait ?m False w st]"]) simp
  qed
  have none: "triple (core_is A P V) (ret True) ?Q E" if "?m \<le> 1"
    using that
    by (intro triple_core_ret exI [of _ "[]"]) (auto simp: kill_trace.no_child kill_kids_def)
  have refused: "triple (core_is (A @ [EKill ?m 0 0, EKill ?m SIGTERM r]) P V)
      (thn (LOG_ERROR os lg ''kill'') (ret False)) ?Q E"
    if "1 < ?m" "r \<noteq> 0" "r = 0 \<or> \<not> (posix os \<and> 1 < ?m)" for r
    using that
    by (intro thn_LOG_ERROR triple_core_ret exI [of _ "[EKill ?m 0 0, EKill ?m SIGTERM r]"])
       (simp add: kill_trace.refused)
  show ?thesis
    unfolding kill_def
    by (intro bnd_get_proc [OF pr] triple_if bnd_terminate)
       (use none refused rest [of "[EKill ?m 0 _]"] rest [of "[EKill ?m 0 0, EKill ?m SIGTERM 0]"]
        in \<open>auto simp: kids_append kill_trace.absent kill_trace.killed\<close>)
qed

lemma triple_delete_Process:
  assumes pr: "slot P p = Some pr" and own: "mGeneratedCommand pr \<longrightarrow> slot V (mCommand pr) \<noteq> None"
  shows "triple (core_is A P V) (delete_Process os lg p)
    (\<lambda>_ s. \<exists>h ok. core s = (A @ h, P[p := None],
         if mGeneratedCommand pr then V[mCommand pr := None] else V) \<and>
       (kill_trace (mProc pr) h ok \<and> (posix os \<longrightarrow> kill_kids A (mProc pr) h ok))) E"
    (is "triple _ _ ?Q E")
proof -
  have rest: "triple (core_is (A @ h) P V)
      (bnd (get_proc p) (\<lambda>pr. thn (if mGeneratedCommand pr then free_argv (mCommand pr) else ret ())
        (free_proc p))) ?Q E"
    if k: "kill_trace (mProc pr) h ok \<and> (posix os \<longrightarrow> kill_kids A (mProc pr) h ok)" for h ok
  proof (rule bnd_get_proc [OF pr])
    let ?V = "if mGeneratedCommand pr then V[mCommand pr := None] else V"
    have "triple (core_is (A @ h) P V) (if mGeneratedCommand pr then free_argv (mCommand pr) else ret ())
        (\<lambda>_. core_is (A @ h) P ?V) E"
      by (rule tripleI)
         (use own in \<open>auto simp: core_def free_argv_run ret_def split: if_splits\<close>)
    moreover have "triple (core_is (A @ h) P ?V) (free_proc p) ?Q E"
      by (rule tripleI) (use pr k in \<open>auto simp: core_def free_proc_run\<close>)
    ultimately show "triple (core_is (A @ h) P V)
        (thn (if mGeneratedCommand pr then free_argv (mCommand pr) else ret ()) (free_proc p)) ?Q E"
      by (rule triple_thn)
  qed
  show ?thesis
    unfolding delete_Process_def thn_def [of "kill os lg p"]
    by (rule triple_bnd [OF triple_kill [OF pr]], intro triple_ex triple_pure)
       (rule rest)
qed

section \<open>Running with given answers\<close>

text \<open>
  Where the answers of the system are known, for any history with the same acts, the outcome of a run
  can be computed: the child has the pid \<open>r\<close> and is still there at the first look.
\<close>

lemma bnd_fork_answer:
  assumes "\<And>h. acts h = A \<Longrightarrow> os_fork os h = (r, e)" "triple (core_is (A @ [EFork r]) P V) (k r) Q E"
  shows "triple (core_is A P V) (bnd (sys_fork os) k) Q E"
  by (rule triple_core_bndI [where R = "\<lambda>x c. x = r \<and> c = (A @ [EFork r], P, V)"])
     (use assms in \<open>auto simp: sys_fork_def sys_call_def bnd_def ret_def core_def\<close>)

lemma bnd_wait_answer:
  assumes "\<And>h. acts h = A \<Longrightarrow> os_waitpid os h p nohang = (w, st, e)"
    and "triple (core_is (A @ [EWait p nohang w st]) P V) (k w (if 0 < w then st else 0)) Q E"
  shows "triple (core_is A P V) (bnd (sys_waitpid os p nohang) (\<lambda>(r, st). k r st)) Q E"
  by (rule triple_core_bndI [where R = "\<lambda>x c. x = (w, if 0 < w then st else 0) \<and> c = (A @ [EWait p nohang w st], P, V)"])
     (use assms in \<open>auto simp: sys_waitpid_def sys_call_def bnd_def ret_def core_def\<close>)

lemma triple_run_answers:
  assumes "slot P p = Some pr" "slot V (mCommand pr) = Some v" "v \<noteq> []"
    and os: "\<And>h. acts h = A \<Longrightarrow> os_fork os h = (r, e)" "r \<noteq> -1" "r \<noteq> 0"
      "\<And>h. acts h = A @ [EFork r, ESleep 10] \<Longrightarrow> os_waitpid os h r True = (0, st, e')"
  shows "triple (core_is A P V) (run os lg p)
    (\<lambda>ok s. ok \<and> core s = (A @ [EFork r, ESleep 10, EWait r True 0 st], P[p := Some (pr\<lparr>mProc := r\<rparr>)], V)) E"
proof -
  let ?P = "P[p := Some (pr\<lparr>mProc := r\<rparr>)]"
  have parent: "triple (core_is (A @ [EFork r]) ?P V) (run_parent os lg p r)
      (\<lambda>ok s. ok \<and> core s = (A @ [EFork r, ESleep 10, EWait r True 0 st], ?P, V)) E"
    unfolding run_parent_def
    by (intro thn_LOG thn_usleep bnd_wait_answer [where w = 0 and st = st] triple_report_wait triple_if triple_core_ret)
       (simp_all add: os(4))
  show ?thesis
    unfolding run_def
    by (intro bnd_fork_answer [OF os(1)] bnd_get_proc [OF assms(1)] thn_put_proc)
       (simp_all add: os(2,3) parent)
qed

lemma triple_runAndWait_answers:
  assumes "slot P p = Some pr" "slot V (mCommand pr) = Some v" "v \<noteq> []"
    and os: "\<And>h. acts h = A \<Longrightarrow> os_fork os h = (r, e)" "r \<noteq> -1" "r \<noteq> 0"
      "\<And>h. acts h = A @ [EFork r, ESleep 10] \<Longrightarrow> os_waitpid os h r True = (0, st, e')"
      "\<And>h. acts h = A @ [EFork r, ESleep 10, EWait r True 0 st] \<Longrightarrow> os_waitpid os h r False = (w, st', e'')"
  shows "triple (core_is A P V) (runAndWait os lg p)
    (\<lambda>ok s. ok = (\<not> (0 < w \<and> st' \<noteq> 0)) \<and>
       core s = (A @ [EFork r, ESleep 10, EWait r True 0 st, EWait r False w st'], P[p := Some (pr\<lparr>mProc := r\<rparr>)], V)) E"
proof -
  let ?P = "P[p := Some (pr\<lparr>mProc := r\<rparr>)]" and ?A = "A @ [EFork r, ESleep 10, EWait r True 0 st]"
  let ?Q = "\<lambda>ok s. ok = (\<not> (0 < w \<and> st' \<noteq> 0)) \<and> core s = (?A @ [EWait r False w st'], ?P, V)"
  have new: "slot ?P p = Some (pr\<lparr>mProc := r\<rparr>)" "slot V (mCommand (pr\<lparr>mProc := r\<rparr>)) = Some v"
    using slot_length [OF assms(1)] assms(2) by (simp_all add: slot_update)
  have rest: "triple (core_is ?A ?P V) (bnd (get_proc p) (\<lambda>pr. bnd (sys_waitpid os (mProc pr) False) (\<lambda>(pid, status).
      thn (report_wait os lg pid)
     (if 0 < pid \<and> status \<noteq> 0 then thn (report_failed os lg p) (ret False) else ret True)))) ?Q E"
  proof -
    have "os_waitpid os h (mProc (pr\<lparr>mProc := r\<rparr>)) False = (w, st', e'')" if "acts h = ?A" for h
      using os(5) that by simp
    note wait = bnd_wait_answer [OF this]
    show ?thesis
      by (intro bnd_get_proc [OF new(1)] wait triple_after_wait [OF new assms(3)] triple_core_ret) simp_all
  qed
  have wait: "triple (\<lambda>s. started \<and> core s = (?A, ?P, V)) (if \<not> started then ret False else bnd (get_proc p) (\<lambda>pr.
      bnd (sys_waitpid os (mProc pr) False) (\<lambda>(pid, status). thn (report_wait os lg pid)
     (if 0 < pid \<and> status \<noteq> 0 then thn (report_failed os lg p) (ret False) else ret True)))) ?Q E" for started
    using rest by (cases started) (simp_all add: triple_def)
  have run: "triple (core_is A P V) (run os lg p) (\<lambda>ok s. ok \<and> core s = (?A, ?P, V)) E"
    by (rule triple_run_answers [OF assms(1-3)]) (use os(1-4) in simp_all)
  have "triple (core_is A P V) (runAndWait os lg p) ?Q E"
    unfolding runAndWait_def by (rule triple_bnd [OF run wait])
  then show ?thesis by simp
qed

section \<open>What the operations do\<close>





text \<open>
  C28. A wait that fails counts as a success: when the child is started and the blocking wait for it is
  interrupted by a signal, or fails in any other way, \<open>runAndWait\<close> reports success, although the child
  is still running and has not been collected.
\<close>

theorem interrupted_wait_succeeds:
  assumes "slot (procs s) p = Some pr" "slot (argvs s) (mCommand pr) = Some v" "v \<noteq> []"
    and "\<And>h. acts h = acts (hist s) \<Longrightarrow> os_fork os h = (r, e)" "1 < r"
    and "\<And>h. acts h = acts (hist s) @ [EFork r, ESleep 10] \<Longrightarrow> os_waitpid os h r True = (0, st, e')"
    and "\<And>h. acts h = acts (hist s) @ [EFork r, ESleep 10, EWait r True 0 st] \<Longrightarrow>
      os_waitpid os h r False = (-1, st', e'')"
  shows "\<exists>t. runAndWait os lg p s = (Val True, t) \<and> r \<in> kids (hist t)"
proof -
  have r: "r \<noteq> -1" "r \<noteq> 0" using assms(5) by simp_all
  have tr: "triple (core_is (acts (hist s)) (procs s) (argvs s)) (runAndWait os lg p)
    (\<lambda>ok t. ok = (\<not> (0 < (-1 :: int) \<and> st' \<noteq> 0)) \<and>
       core t = (acts (hist s) @ [EFork r, ESleep 10, EWait r True 0 st, EWait r False (-1) st'],
         (procs s)[p := Some (pr\<lparr>mProc := r\<rparr>)], argvs s)) (\<lambda>_ _. False)"
    by (rule triple_runAndWait_answers [OF assms(1-3)]) (use assms(4,6,7) r in simp_all)
  obtain x t where x: "runAndWait os lg p s = (x, t)" by (cases "runAndWait os lg p s")
  from triple_runD [OF tr] x obtain ok where ok: "x = Val ok" "ok"
      and c: "core t = (acts (hist s) @ [EFork r, ESleep 10, EWait r True 0 st, EWait r False (-1) st'],
        (procs s)[p := Some (pr\<lparr>mProc := r\<rparr>)], argvs s)"
    by (auto split: res.splits)
  have "r \<in> kids (hist t)" using assms(5) unfolding core_kids [OF c, symmetric] by (simp add: kids_append)
  with x ok show ?thesis by simp
qed

text \<open>An interrupted wait fails with \<open>EINTR\<close>, which is 4.\<close>

theorem interrupted_wait_succeeds_witness:
  "\<exists>t. runAndWait ((demo_os (\<lambda>p. 0))\<lparr>os_fork := \<lambda>h. (101, 0),
       os_waitpid := \<lambda>h p nohang. if nohang then (0, 0, 0) else (-1, 0, 4)\<rparr>) StdoutLogger 0
      \<lparr>hist = [], errno = 0,
       procs = [Some \<lparr>mProc = 0, mSearchInPath = True, mGeneratedCommand = False, mEnabled = True, mCommand = 0\<rparr>],
       argvs = [Some [''make'']]\<rparr> = (Val True, t) \<and> 101 \<in> kids (hist t)"
  by (rule interrupted_wait_succeeds [where v = "[''make'']" and pr = "\<lparr>mProc = 0, mSearchInPath = True,
        mGeneratedCommand = False, mEnabled = True, mCommand = 0\<rparr>"])
     (simp_all add: slot_def)

end
