(* ===== verification/ProcMan.thy ===== *)
theory ProcMan
  imports Proc
begin

text \<open>
  The class \<open>ProcessManager\<close> (src/src/procman.hpp, src/src/procman.cpp): the build step, the
  processes run between build and launch (the tests), the program, and the cycle \<open>restartAll\<close> that
  a successful rebuild triggers.

  What the manager needs of a process is the locale \<open>process_ops\<close>; the traces of its own
  operations are built from the traces of the process operations.
\<close>

section \<open>The class\<close>

record procman =
  mBuildStep :: "nat option"
  mProcesses :: "nat list"
  mProgram :: "nat option"

definition new_ProcessManager :: procman where
  "new_ProcessManager = \<lparr>mBuildStep = None, mProcesses = [], mProgram = None\<rparr>"

definition getBuildStep :: "procman \<Rightarrow> nat option" where
  "getBuildStep pm = mBuildStep pm"

definition getProgram :: "procman \<Rightarrow> nat option" where
  "getProgram pm = mProgram pm"

definition runBuild :: "os \<Rightarrow> iLogger \<Rightarrow> procman \<Rightarrow> bool io" where
  "runBuild os lg pm =
     bnd (deref (mBuildStep pm)) (\<lambda>b.
     bnd (runAndWait os lg b) (\<lambda>ok.
     if ok then thn (LOG os lg SUCCESS ''Successfully ran command'' []) (ret True)
     else thn (LOG os lg ERROR ''A command failed to run :('' []) (ret False)))"

text \<open>The body of the loop in \<open>runProcesses\<close>.\<close>

definition runOne :: "os \<Rightarrow> iLogger \<Rightarrow> nat \<Rightarrow> unit io" where
  "runOne os lg proc =
     bnd (runAndWait os lg proc) (\<lambda>ok.
     if ok then LOG os lg SUCCESS ''Successfully ran command'' []
     else LOG os lg ERROR ''A command failed to run :('' [])"

definition runProcesses :: "os \<Rightarrow> iLogger \<Rightarrow> procman \<Rightarrow> bool io" where
  "runProcesses os lg pm = thn (for_each (runOne os lg) (mProcesses pm)) (ret True)"

definition haltConstructionProcs :: "os \<Rightarrow> iLogger \<Rightarrow> procman \<Rightarrow> unit io" where
  "haltConstructionProcs os lg pm = for_each (kill os lg) (mProcesses pm)"

definition startProgram :: "os \<Rightarrow> iLogger \<Rightarrow> procman \<Rightarrow> unit io" where
  "startProgram os lg pm = bnd (deref (mProgram pm)) (\<lambda>g. thn (run os lg g) (ret ()))"

definition haltProgram :: "os \<Rightarrow> iLogger \<Rightarrow> procman \<Rightarrow> unit io" where
  "haltProgram os lg pm = bnd (deref (mProgram pm)) (\<lambda>g. thn (kill os lg g) (ret ()))"

definition killAll :: "os \<Rightarrow> iLogger \<Rightarrow> procman \<Rightarrow> unit io" where
  "killAll os lg pm =
     bnd (deref (mBuildStep pm)) (\<lambda>b.
     thn (kill os lg b)
    (thn (haltConstructionProcs os lg pm)
    (bnd (deref (mProgram pm)) (\<lambda>g. thn (kill os lg g) (ret ())))))"

definition restartAll :: "os \<Rightarrow> iLogger \<Rightarrow> procman \<Rightarrow> unit io" where
  "restartAll os lg pm =
     thn (haltConstructionProcs os lg pm)
    (bnd (runBuild os lg pm) (\<lambda>built.
     if built then
       thn (runProcesses os lg pm)
      (thn (haltProgram os lg pm)
           (startProgram os lg pm))
     else ret ()))"

definition setBuilder :: "nat option \<Rightarrow> procman \<Rightarrow> procman io" where
  "setBuilder proc pm =
     (if mBuildStep pm \<noteq> None then halt (Throw (Runtime_error ''Build Step already set''))
      else ret (pm\<lparr>mBuildStep := proc\<rparr>))"

definition addProcess :: "nat \<Rightarrow> procman \<Rightarrow> procman" where
  "addProcess proc pm = pm\<lparr>mProcesses := mProcesses pm @ [proc]\<rparr>"

definition setProgram :: "nat option \<Rightarrow> procman \<Rightarrow> procman io" where
  "setProgram proc pm =
     (if mProgram pm \<noteq> None then halt (Throw (Runtime_error ''Pogram already set''))
      else ret (pm\<lparr>mProgram := proc\<rparr>))"

text \<open>The destructor; \<open>delete\<close> on a null pointer does nothing.\<close>

definition delete_maybe :: "os \<Rightarrow> iLogger \<Rightarrow> nat option \<Rightarrow> unit io" where
  "delete_maybe os lg p = (case p of None \<Rightarrow> ret () | Some q \<Rightarrow> delete_Process os lg q)"

definition delete_ProcessManager :: "os \<Rightarrow> iLogger \<Rightarrow> procman \<Rightarrow> unit io" where
  "delete_ProcessManager os lg pm =
     thn (for_each (delete_Process os lg) (mProcesses pm))
    (thn (delete_maybe os lg (mBuildStep pm))
         (delete_maybe os lg (mProgram pm)))"

section \<open>Heaps that differ in pids only\<close>

text \<open>
  Running processes changes the pid recorded in an object and nothing else: \<open>same_procs\<close> relates
  the heap before and after.
\<close>

definition same_procs :: "process option list \<Rightarrow> process option list \<Rightarrow> bool" where
  "same_procs P P' \<longleftrightarrow>
     (\<forall>p. map_option (\<lambda>pr. pr\<lparr>mProc := 0\<rparr>) (slot P p) = map_option (\<lambda>pr. pr\<lparr>mProc := 0\<rparr>) (slot P' p))"

lemma same_procs_refl [simp, intro]: "same_procs P P"
  by (simp add: same_procs_def)

lemma same_procs_trans: "same_procs P P' \<Longrightarrow> same_procs P' P'' \<Longrightarrow> same_procs P P''"
  by (simp add: same_procs_def)

lemma same_procs_update:
  "slot P p = Some pr \<Longrightarrow> same_procs P (P[p := Some (pr\<lparr>mProc := r\<rparr>)])"
  by (auto simp: same_procs_def slot_update)

lemma same_procs_ready:
  assumes "same_procs P P'" "process_ready P V p"
  shows "process_ready P' V p"
proof -
  from assms(2) obtain pr v where p: "slot P p = Some pr" "slot V (mCommand pr) = Some v" "v \<noteq> []"
    by (auto simp: process_ready_def)
  with assms(1) obtain pr' where pr': "slot P' p = Some pr'" "pr\<lparr>mProc := 0\<rparr> = pr'\<lparr>mProc := 0\<rparr>"
    by (metis same_procs_def map_option_eq_Some option.simps(9))
  then have "mCommand pr' = mCommand pr" by (metis process.select_convs(5) process.surjective process.update_convs(1))
  with p pr' show ?thesis by (auto simp: process_ready_def)
qed

text \<open>The pid an object records; only meaningful for a live object.\<close>

definition pid_of :: "process option list \<Rightarrow> nat \<Rightarrow> int" where
  "pid_of P p = (case slot P p of None \<Rightarrow> 0 | Some pr \<Rightarrow> mProc pr)"

lemma pid_of_update: "p < length P \<Longrightarrow> pid_of (P[p := Some (pr\<lparr>mProc := r\<rparr>)]) q = (if q = p then r else pid_of P q)"
  by (simp add: pid_of_def slot_update)

lemma same_procs_put:
  assumes "slot P p \<noteq> None"
  shows "same_procs P (P[p := Some ((the (slot P p))\<lparr>mProc := r\<rparr>)])"
  using assms by (auto intro: same_procs_update)

lemma slot_put: "q \<noteq> p \<Longrightarrow> slot (P[p := v]) q = slot P q"
  by (simp add: slot_update)

lemma process_ready_slot: "process_ready P V p \<Longrightarrow> slot P p \<noteq> None"
  by (auto simp: process_ready_def)

section \<open>Traces of the loops\<close>

inductive kills_trace :: "int list \<Rightarrow> history \<Rightarrow> bool" where
  "kills_trace [] []"
| "kill_trace m h ok \<Longrightarrow> kills_trace ms h' \<Longrightarrow> kills_trace (m # ms) (h @ h')"

inductive waits_trace :: "int list \<Rightarrow> bool list \<Rightarrow> history \<Rightarrow> bool" where
  "waits_trace [] [] []"
| "wait_trace r h ok \<Longrightarrow> waits_trace rs oks h' \<Longrightarrow> waits_trace (r # rs) (ok # oks) (h @ h')"

text \<open>
  Killing the program with the acts \<open>h1\<close> and running it again with the acts \<open>h2\<close>, seen as what
  happens to the children: there is none left between the two.
\<close>

definition launch_kids :: "history \<Rightarrow> int \<Rightarrow> history \<Rightarrow> history \<Rightarrow> int \<Rightarrow> bool" where
  "launch_kids A m h1 h2 r \<longleftrightarrow> (kids A \<subseteq> {m} \<and> (\<forall>k \<in> kids A. 1 < k) \<longrightarrow>
     kids (A @ h1) = {} \<and> kids (A @ h1 @ h2) \<subseteq> {r} \<and> (\<forall>k \<in> kids (A @ h1 @ h2). 1 < k))"

lemma launch_kidsI:
  "kill_kids A m h1 ok \<Longrightarrow> run_kids (A @ h1) r h2 ok' \<Longrightarrow> launch_kids A m h1 h2 r"
  by (auto simp: kill_kids_def run_kids_def launch_kids_def)

section \<open>What the manager needs of a process\<close>

text \<open>
  The three operations the manager calls, with their effects on the acts and the heap, and, where
  the system is \<open>reliable\<close>, on the set of children. The lemmas of the locale are those about the
  manager's loops.
\<close>

locale process_ops =
  fixes kill_op wait_op run_op :: "nat \<Rightarrow> bool io"
    and reliable :: bool
  assumes kill_law: "slot P p \<noteq> None \<Longrightarrow> triple (core_is A P V) (kill_op p)
      (\<lambda>ok s. \<exists>h. core s = (A @ h, P, V) \<and>
         (kill_trace (pid_of P p) h ok \<and> (reliable \<longrightarrow> kill_kids A (pid_of P p) h ok))) E"
    and wait_law: "process_ready P V p \<Longrightarrow> triple (core_is A P V) (wait_op p)
      (\<lambda>ok s. \<exists>r h. core s = (A @ h, P[p := Some ((the (slot P p))\<lparr>mProc := r\<rparr>)], V) \<and>
         (wait_trace r h ok \<and> (reliable \<longrightarrow> kids (A @ h) = kids A)))
      (\<lambda>e _. child_stop e)"
    and run_law: "process_ready P V p \<Longrightarrow> triple (core_is A P V) (run_op p)
      (\<lambda>ok s. \<exists>r h. core s = (A @ h, P[p := Some ((the (slot P p))\<lparr>mProc := r\<rparr>)], V) \<and>
         (run_trace r h ok \<and> (reliable \<longrightarrow> run_kids A r h ok)))
      (\<lambda>e _. child_stop e)"
begin

text \<open>Killing a list of processes takes all their pids from the children.\<close>

lemma kill_each:
  assumes "\<forall>p \<in> set ps. slot P p \<noteq> None"
  shows "triple (core_is A P V) (for_each kill_op ps)
    (\<lambda>_ s. \<exists>h. core s = (A @ h, P, V) \<and> (kills_trace (map (pid_of P) ps) h \<and>
       (reliable \<longrightarrow> (\<forall>k \<in> kids A. 1 < k) \<longrightarrow> kids (A @ h) = kids A - set (map (pid_of P) ps)))) E"
  using assms
proof (induction ps arbitrary: A)
  case Nil
  show ?case
    by (simp, intro triple_core_ret exI [of _ "[]"]) (simp add: kills_trace.intros)
next
  case (Cons p ps)
  let ?Q = "\<lambda>qs B A. \<lambda>_ s. \<exists>h. core s = (A @ h, P, V) \<and> (kills_trace (map (pid_of P) qs) h \<and>
       (reliable \<longrightarrow> (\<forall>k \<in> kids A. 1 < k) \<longrightarrow> kids (A @ h) = kids A - set (map (pid_of P) qs)))"
  have rest: "triple (core_is (A @ h) P V) (for_each kill_op ps) (?Q (p # ps) B A) E"
    if k: "kill_trace (pid_of P p) h ok" "reliable \<longrightarrow> kill_kids A (pid_of P p) h ok" for h ok B
  proof (rule triple_post [OF Cons.IH])
    fix x t
    assume "\<exists>h'. core t = ((A @ h) @ h', P, V) \<and> (kills_trace (map (pid_of P) ps) h' \<and>
       (reliable \<longrightarrow> (\<forall>k \<in> kids (A @ h). 1 < k) \<longrightarrow>
          kids ((A @ h) @ h') = kids (A @ h) - set (map (pid_of P) ps)))"
    then obtain h' where h': "core t = (A @ h @ h', P, V)" "kills_trace (map (pid_of P) ps) h'"
      and kids: "reliable \<Longrightarrow> (\<forall>k \<in> kids (A @ h). 1 < k) \<Longrightarrow>
          kids (A @ h @ h') = kids (A @ h) - set (map (pid_of P) ps)"
      by auto
    have "kids (A @ h @ h') = kids A - set (map (pid_of P) (p # ps))"
      if "reliable" "\<forall>k \<in> kids A. 1 < k"
      using that kids k(2) by (auto simp: kill_kids_def)
    with h' k show "?Q (p # ps) B A x t"
      by (intro exI [of _ "h @ h'"]) (auto intro: kills_trace.intros)
  qed (use Cons.prems in simp)
  show ?case
    unfolding for_each.simps thn_def
    by (rule triple_bnd [OF kill_law], use Cons.prems in simp, intro triple_ex triple_pure)
       (use rest in blast)
qed

text \<open>
  Running a list of processes to their ends, one after the other, adds no child. What is done with
  the outcome of each (\<open>tell\<close>) must leave the machine alone.
\<close>

lemma wait_each:
  assumes tell: "\<And>ok A P V. triple (core_is A P V) (tell ok) (\<lambda>_. core_is A P V) (\<lambda>e _. child_stop e)"
    and "distinct ps" "\<forall>p \<in> set ps. process_ready P V p"
  shows "triple (core_is A P V) (for_each (\<lambda>p. bnd (wait_op p) tell) ps)
    (\<lambda>_ s. \<exists>P' oks h. core s = (A @ h, P', V) \<and>
       (same_procs P P' \<and> (\<forall>q. q \<notin> set ps \<longrightarrow> slot P' q = slot P q) \<and>
        waits_trace (map (pid_of P') ps) oks h \<and> (reliable \<longrightarrow> kids (A @ h) = kids A)))
    (\<lambda>e _. child_stop e)"
  using assms(2,3)
proof (induction ps arbitrary: A P)
  case Nil
  show ?case
    by (simp, intro triple_core_ret exI [of _ P] exI [of _ "[]"]) (simp add: waits_trace.intros)
next
  case (Cons p ps)
  let ?Q = "\<lambda>qs P A. \<lambda>_ s. \<exists>P' oks h. core s = (A @ h, P', V) \<and>
       (same_procs P P' \<and> (\<forall>q. q \<notin> set qs \<longrightarrow> slot P' q = slot P q) \<and>
        waits_trace (map (pid_of P') qs) oks h \<and> (reliable \<longrightarrow> kids (A @ h) = kids A))"
  let ?P = "\<lambda>r. P[p := Some ((the (slot P p))\<lparr>mProc := r\<rparr>)]"
  have ready: "process_ready P V p" using Cons.prems by simp
  have same: "same_procs P (?P r)" for r
    using ready by (intro same_procs_put process_ready_slot)
  have rest: "triple (core_is (A @ h) (?P r) V) (for_each (\<lambda>p. bnd (wait_op p) tell) ps)
      (?Q (p # ps) P A) (\<lambda>e _. child_stop e)"
    if w: "wait_trace r h ok" "reliable \<longrightarrow> kids (A @ h) = kids A" for r h ok
  proof (rule triple_post [OF Cons.IH])
    show "\<forall>q \<in> set ps. process_ready (?P r) V q"
      using Cons.prems same_procs_ready [OF same] by simp
    show "distinct ps" using Cons.prems(1) by simp
    fix x t assume "?Q ps (?P r) (A @ h) x t"
    then obtain P' oks h' where h': "core t = (A @ h @ h', P', V)" "same_procs (?P r) P'"
        "\<forall>q. q \<notin> set ps \<longrightarrow> slot P' q = slot (?P r) q" "waits_trace (map (pid_of P') ps) oks h'"
        "reliable \<longrightarrow> kids (A @ h @ h') = kids (A @ h)"
      by auto
    have "slot P' p = slot (?P r) p" using h'(3) Cons.prems(1) by simp
    then have "pid_of P' p = r"
      using process_ready_slot [OF ready] by (auto simp: pid_of_def slot_update dest: slot_length)
    with h' show "?Q (p # ps) P A x t"
      using w same_procs_trans [OF same h'(2)]
      by (intro exI [of _ P'] exI [of _ "ok # oks"] exI [of _ "h @ h'"])
         (auto simp: slot_put intro: waits_trace.intros)
  qed
  show ?case
    unfolding for_each.simps thn_def bnd_assoc
    by (rule triple_bnd [OF wait_law [OF ready]], intro triple_ex triple_pure triple_bnd [OF tell])
       (use rest in blast)
qed

text \<open>Replacing the program: the old child is gone before the new one is forked.\<close>

lemma relaunch:
  assumes "process_ready P V g"
  shows "triple (core_is A P V) (thn (kill_op g) (run_op g))
    (\<lambda>_ s. \<exists>r ok h1 ok' h2. core s = (A @ h1 @ h2, P[g := Some ((the (slot P g))\<lparr>mProc := r\<rparr>)], V) \<and>
       (kill_trace (pid_of P g) h1 ok \<and> run_trace r h2 ok' \<and>
        (reliable \<longrightarrow> launch_kids A (pid_of P g) h1 h2 r)))
    (\<lambda>e _. child_stop e)" (is "triple _ _ ?Q _")
proof -
  have rest: "triple (core_is (A @ h1) P V) (run_op g) ?Q (\<lambda>e _. child_stop e)"
    if k: "kill_trace (pid_of P g) h1 ok" "reliable \<longrightarrow> kill_kids A (pid_of P g) h1 ok" for h1 ok
  proof (rule triple_post [OF run_law [OF assms]])
    fix x t
    assume "\<exists>r h. core t = ((A @ h1) @ h, P[g := Some ((the (slot P g))\<lparr>mProc := r\<rparr>)], V) \<and>
         (run_trace r h x \<and> (reliable \<longrightarrow> run_kids (A @ h1) r h x))"
    then obtain r h where h: "core t = (A @ h1 @ h, P[g := Some ((the (slot P g))\<lparr>mProc := r\<rparr>)], V)"
        "run_trace r h x" "reliable \<longrightarrow> run_kids (A @ h1) r h x"
      by auto
    have "reliable \<longrightarrow> launch_kids A (pid_of P g) h1 h r"
      using h(3) k(2) launch_kidsI by blast
    with h(1,2) k(1) show "?Q x t"
      by (intro exI [of _ r] exI [of _ ok] exI [of _ h1] exI [of _ x] exI [of _ h]) simp
  qed
  show ?thesis
    unfolding thn_def
    by (rule triple_bnd [OF kill_law [OF process_ready_slot [OF assms]]], intro triple_ex triple_pure)
       (use rest in blast)
qed

end

text \<open>The operations of \<open>Proc\<close> provide the interface; the system is reliable when it is \<open>posix\<close>.\<close>

interpretation ops: process_ops "kill os lg" "runAndWait os lg" "run os lg" "posix os" for os lg
proof
  fix P :: "process option list" and p A V E
  assume "slot P p \<noteq> None"
  then obtain pr where pr: "slot P p = Some pr" by auto
  from triple_kill [OF pr, of A V os lg E] pr
  show "triple (core_is A P V) (kill os lg p)
      (\<lambda>ok s. \<exists>h. core s = (A @ h, P, V) \<and>
         (kill_trace (pid_of P p) h ok \<and> (posix os \<longrightarrow> kill_kids A (pid_of P p) h ok))) E"
    by (simp add: pid_of_def)
next
  fix P V p A
  assume "process_ready P V p"
  then obtain pr v where p: "slot P p = Some pr" "slot V (mCommand pr) = Some v" "v \<noteq> []"
    by (auto simp: process_ready_def)
  from triple_runAndWait [OF p, of A os lg] p(1)
  show "triple (core_is A P V) (runAndWait os lg p)
      (\<lambda>ok s. \<exists>r h. core s = (A @ h, P[p := Some ((the (slot P p))\<lparr>mProc := r\<rparr>)], V) \<and>
         (wait_trace r h ok \<and> (posix os \<longrightarrow> kids (A @ h) = kids A)))
      (\<lambda>e _. child_stop e)"
    by simp
  from triple_run [OF p, of A os lg] p(1)
  show "triple (core_is A P V) (run os lg p)
      (\<lambda>ok s. \<exists>r h. core s = (A @ h, P[p := Some ((the (slot P p))\<lparr>mProc := r\<rparr>)], V) \<and>
         (run_trace r h ok \<and> (posix os \<longrightarrow> run_kids A r h ok)))
      (\<lambda>e _. child_stop e)"
    by simp
qed

section \<open>The cycle\<close>

text \<open>
  The manager's abstract state is the pids it keeps: those of the tests and that of the program.
  What one \<open>restartAll\<close> adds to the acts, and what becomes of the pids: the tests are killed, the
  build step is run to its end; if that succeeded, every test is run to its end, whatever each one's
  outcome, then the program is killed and run; the pids are those of the new children then.
\<close>

type_synonym pids = "int list \<times> int"

definition pids_of :: "process option list \<Rightarrow> procman \<Rightarrow> nat \<Rightarrow> pids" where
  "pids_of P pm g = (map (pid_of P) (mProcesses pm), pid_of P g)"

inductive restart_trace :: "pids \<Rightarrow> history \<Rightarrow> bool \<Rightarrow> pids \<Rightarrow> bool" where
  build_failed: "kills_trace ms hk \<Longrightarrow> wait_trace b hb False \<Longrightarrow>
    restart_trace (ms, m) (hk @ hb) False (ms, m)"
| relaunched: "kills_trace ms hk \<Longrightarrow> wait_trace b hb True \<Longrightarrow> waits_trace ms' oks hw \<Longrightarrow>
    length ms' = length ms \<Longrightarrow> kill_trace m hp ok \<Longrightarrow> run_trace m' hr ok' \<Longrightarrow>
    restart_trace (ms, m) (hk @ hb @ hw @ hp @ hr) True (ms', m')"

lemma pids_of_other: "b \<noteq> g \<Longrightarrow> b \<notin> set (mProcesses pm) \<Longrightarrow> pids_of (P[b := v]) pm g = pids_of P pm g"
  by (auto simp: pids_of_def pid_of_def slot_update)

text \<open>
  A manager that can run: build step and program set, all objects and their commands live, no
  object in two places.
\<close>

definition procman_ready :: "process option list \<Rightarrow> string list option list \<Rightarrow> procman \<Rightarrow> nat \<Rightarrow> nat \<Rightarrow> bool" where
  "procman_ready P V pm b g \<longleftrightarrow> mBuildStep pm = Some b \<and> mProgram pm = Some g \<and>
     distinct (b # g # mProcesses pm) \<and> (\<forall>p \<in> set (b # g # mProcesses pm). process_ready P V p)"

text \<open>The only child there may be is the program.\<close>

definition only_program :: "history \<Rightarrow> process option list \<Rightarrow> nat \<Rightarrow> bool" where
  "only_program A P g \<longleftrightarrow> kids A \<subseteq> {pid_of P g} \<and> (\<forall>k \<in> kids A. 1 < k)"

lemma procman_ready_same: "procman_ready P V pm b g \<Longrightarrow> same_procs P P' \<Longrightarrow> procman_ready P' V pm b g"
  by (auto simp: procman_ready_def intro: same_procs_ready)

lemma triple_runBuild:
  assumes "mBuildStep pm = Some b" "process_ready P V b"
  shows "triple (core_is A P V) (runBuild os lg pm)
    (\<lambda>ok s. \<exists>r h. core s = (A @ h, P[b := Some ((the (slot P b))\<lparr>mProc := r\<rparr>)], V) \<and>
       (wait_trace r h ok \<and> (posix os \<longrightarrow> kids (A @ h) = kids A)))
    (\<lambda>e _. child_stop e)"
proof -
  have log: "triple (core_is A P V) (if ok
       then thn (LOG os lg SUCCESS ''Successfully ran command'' []) (ret True)
       else thn (LOG os lg ERROR ''A command failed to run :('' []) (ret False))
     (\<lambda>ok' s. ok' = ok \<and> core s = (A, P, V)) E" for ok A P V E
    by (intro triple_if thn_LOG triple_core_ret) simp_all
  show ?thesis
    unfolding runBuild_def
    using assms(1)
    by (simp add: deref_def, intro triple_bnd [OF ops.wait_law [OF assms(2)]] triple_ex triple_pure,
        intro triple_post [OF log]) auto
qed

lemma triple_runProcesses:
  assumes "distinct (mProcesses pm)" "\<forall>p \<in> set (mProcesses pm). process_ready P V p"
  shows "triple (core_is A P V) (runProcesses os lg pm)
    (\<lambda>_ s. \<exists>P' oks h. core s = (A @ h, P', V) \<and>
       (same_procs P P' \<and> (\<forall>q. q \<notin> set (mProcesses pm) \<longrightarrow> slot P' q = slot P q) \<and>
        waits_trace (map (pid_of P') (mProcesses pm)) oks h \<and> (posix os \<longrightarrow> kids (A @ h) = kids A)))
    (\<lambda>e _. child_stop e)"
proof -
  have log: "triple (core_is A P V) (if ok then LOG os lg SUCCESS ''Successfully ran command'' []
     else LOG os lg ERROR ''A command failed to run :('' []) (\<lambda>_. core_is A P V) (\<lambda>e _. child_stop e)"
    for ok A P V
    by (intro triple_if lg.triple_log) simp_all
  have "runOne os lg = (\<lambda>p. bnd (runAndWait os lg p) (\<lambda>ok.
      if ok then LOG os lg SUCCESS ''Successfully ran command'' []
      else LOG os lg ERROR ''A command failed to run :('' []))"
    by (rule ext) (simp add: runOne_def)
  then show ?thesis
    unfolding runProcesses_def thn_def
    by (simp, intro triple_bnd [OF ops.wait_each [OF log assms]] triple_ret)
qed

text \<open>
  The outcome of \<open>restartAll\<close>, and the situations inside it: the tests killed and the build step
  run (\<open>built_at\<close>), and all tests run as well.
\<close>

definition restarted :: "os \<Rightarrow> procman \<Rightarrow> process option list \<Rightarrow> string list option list \<Rightarrow> history \<Rightarrow>
    nat \<Rightarrow> sys \<Rightarrow> bool" where
  "restarted os pm P V A g s \<longleftrightarrow> (\<exists>P' h built. core s = (A @ h, P', V) \<and> same_procs P P' \<and>
     restart_trace (pids_of P pm g) h built (pids_of P' pm g) \<and>
     (posix os \<longrightarrow> only_program A P g \<longrightarrow> only_program (A @ h) P' g))"

definition built_at :: "os \<Rightarrow> procman \<Rightarrow> process option list \<Rightarrow> history \<Rightarrow> nat \<Rightarrow> history \<Rightarrow> history \<Rightarrow>
    int \<Rightarrow> bool \<Rightarrow> bool" where
  "built_at os pm P A g hk hb r ok \<longleftrightarrow> kills_trace (map (pid_of P) (mProcesses pm)) hk \<and>
     wait_trace r hb ok \<and> (posix os \<longrightarrow> only_program A P g \<longrightarrow> kids (A @ hk @ hb) \<subseteq> kids A)"

lemma triple_launch:
  assumes pm: "mProgram pm = Some g" "process_ready P V g" "g \<notin> set (mProcesses pm)"
    and b: "built_at os pm P A g hk hb r True"
    and w: "waits_trace (map (pid_of P') (mProcesses pm)) oks hw"
      "posix os \<longrightarrow> kids (A @ hk @ hb @ hw) = kids (A @ hk @ hb)"
    and P': "same_procs P P'" "slot P' g = slot P g"
  shows "triple (core_is (A @ hk @ hb @ hw) P' V)
    (thn (haltProgram os lg pm) (startProgram os lg pm)) (\<lambda>_. restarted os pm P V A g)
    (\<lambda>e _. child_stop e)"
proof -
  have eq: "thn (haltProgram os lg pm) (startProgram os lg pm) =
      thn (thn (kill os lg g) (run os lg g)) (ret ())"
    by (simp add: haltProgram_def startProgram_def deref_def pm thn_assoc)
  have g: "process_ready P' V g" using pm(2) P'(1) by (rule same_procs_ready [rotated])
  let ?P' = "\<lambda>r. P'[g := Some ((the (slot P' g))\<lparr>mProc := r\<rparr>)]"
  show ?thesis
    unfolding eq
  proof (intro triple_thn [OF ops.relaunch [OF g]] triple_ret)
    fix s
    assume "\<exists>r ok h1 ok' h2. core s = ((A @ hk @ hb @ hw) @ h1 @ h2, ?P' r, V) \<and>
      (kill_trace (pid_of P' g) h1 ok \<and> run_trace r h2 ok' \<and>
       (posix os \<longrightarrow> launch_kids (A @ hk @ hb @ hw) (pid_of P' g) h1 h2 r))"
    moreover have pid: "pid_of P' g = pid_of P g" using P'(2) by (simp add: pid_of_def)
    ultimately obtain r' ok h1 ok' h2 where c: "core s = (A @ hk @ hb @ hw @ h1 @ h2, ?P' r', V)"
      and t: "kill_trace (pid_of P g) h1 ok" "run_trace r' h2 ok'"
      and kk: "posix os \<longrightarrow> launch_kids (A @ hk @ hb @ hw) (pid_of P g) h1 h2 r'"
      unfolding append_assoc by auto
    have g': "pid_of (?P' r') g = r'"
      using process_ready_slot [OF g] by (auto simp: pid_of_update dest: slot_length)
    have ms: "map (pid_of (?P' r')) (mProcesses pm) = map (pid_of P') (mProcesses pm)"
      using pm(3) by (auto simp: pid_of_def slot_update)
    have "restart_trace (pids_of P pm g) (hk @ hb @ hw @ h1 @ h2) True (pids_of (?P' r') pm g)"
      using b w(1) t unfolding built_at_def pids_of_def g' ms by (auto intro: restart_trace.relaunched)
    moreover have "only_program (A @ hk @ hb @ hw @ h1 @ h2) (?P' r') g"
      if "posix os" "only_program A P g"
      using kk that b w(2) g' by (auto simp: only_program_def built_at_def launch_kids_def)
    moreover note same_procs_trans [OF P'(1) same_procs_put [OF process_ready_slot [OF g]]]
    ultimately show "restarted os pm P V A g s"
      unfolding restarted_def using c
      by (intro exI [of _ "?P' r'"] exI [of _ "hk @ hb @ hw @ h1 @ h2"] exI [of _ True]) simp
  qed
qed

lemma triple_test_and_launch:
  assumes ready: "procman_ready P V pm b g" and built: "built_at os pm P A g hk hb r True"
  shows "triple (core_is (A @ hk @ hb) (P[b := Some ((the (slot P b))\<lparr>mProc := r\<rparr>)]) V)
    (thn (runProcesses os lg pm) (thn (haltProgram os lg pm) (startProgram os lg pm)))
    (\<lambda>_. restarted os pm P V A g) (\<lambda>e _. child_stop e)" (is "triple (core_is _ ?P V) _ _ _")
proof -
  have pm: "mProgram pm = Some g" "process_ready P V g" "b \<noteq> g" "g \<notin> set (mProcesses pm)"
    using ready by (auto simp: procman_ready_def)
  have same: "same_procs P ?P"
    by (intro same_procs_put process_ready_slot) (use ready in \<open>auto simp: procman_ready_def\<close>)
  have ts: "\<forall>p \<in> set (mProcesses pm). process_ready ?P V p"
    using procman_ready_same [OF ready same] by (simp add: procman_ready_def)
  have d: "distinct (mProcesses pm)" using ready by (simp add: procman_ready_def)
  show ?thesis
    unfolding thn_def [of "runProcesses os lg pm"]
  proof (intro triple_bnd [OF triple_runProcesses [OF d ts]] triple_ex triple_pure)
    fix P' oks hw
    assume w: "same_procs ?P P' \<and> (\<forall>q. q \<notin> set (mProcesses pm) \<longrightarrow> slot P' q = slot ?P q) \<and>
      waits_trace (map (pid_of P') (mProcesses pm)) oks hw \<and>
      (posix os \<longrightarrow> kids ((A @ hk @ hb) @ hw) = kids (A @ hk @ hb))"
    then have "slot P' g = slot P g" using pm by (simp add: slot_put)
    with triple_launch [OF pm(1,2,4) built, of P' oks hw lg] same_procs_trans [OF same] w
    show "triple (core_is ((A @ hk @ hb) @ hw) P' V)
        (thn (haltProgram os lg pm) (startProgram os lg pm)) (\<lambda>_. restarted os pm P V A g)
        (\<lambda>e _. child_stop e)"
      by simp
  qed
qed

lemma build_failed_restarted:
  assumes ready: "procman_ready P V pm b g" and built: "built_at os pm P A g hk hb r False"
    and c: "core s = (A @ hk @ hb, P[b := Some ((the (slot P b))\<lparr>mProc := r\<rparr>)], V)"
  shows "restarted os pm P V A g s"
proof -
  let ?P = "P[b := Some ((the (slot P b))\<lparr>mProc := r\<rparr>)]"
  have b: "slot P b \<noteq> None" "b \<noteq> g" "b \<notin> set (mProcesses pm)"
    using ready process_ready_slot by (auto simp: procman_ready_def)
  have pids: "pids_of ?P pm g = pids_of P pm g" by (rule pids_of_other [OF b(2,3)])
  then have "pid_of ?P g = pid_of P g" by (simp add: pids_of_def)
  then have "only_program (A @ hk @ hb) ?P g" if "posix os" "only_program A P g"
    using that built by (auto simp: only_program_def built_at_def)
  moreover have "restart_trace (pids_of P pm g) (hk @ hb) False (pids_of ?P pm g)"
    using built unfolding pids built_at_def by (auto simp: pids_of_def intro: restart_trace.build_failed)
  ultimately show ?thesis
    unfolding restarted_def using c same_procs_put [OF b(1)]
    by (intro exI [of _ ?P] exI [of _ "hk @ hb"] exI [of _ False]) simp
qed

lemma triple_restartAll:
  assumes ready: "procman_ready P V pm b g"
  shows "triple (core_is A P V) (restartAll os lg pm) (\<lambda>_. restarted os pm P V A g)
    (\<lambda>e _. child_stop e)"
proof -
  have pm: "mBuildStep pm = Some b" "process_ready P V b" "\<forall>p \<in> set (mProcesses pm). slot P p \<noteq> None"
    using ready process_ready_slot by (auto simp: procman_ready_def)
  have at: "built_at os pm P A g hk hb r ok"
    if "kills_trace (map (pid_of P) (mProcesses pm)) hk \<and> (posix os \<longrightarrow> (\<forall>k \<in> kids A. 1 < k) \<longrightarrow>
        kids (A @ hk) = kids A - set (map (pid_of P) (mProcesses pm)))"
      "wait_trace r hb ok \<and> (posix os \<longrightarrow> kids ((A @ hk) @ hb) = kids (A @ hk))" for hk hb r ok
    using that by (auto simp: built_at_def only_program_def)
  show ?thesis
    unfolding restartAll_def haltConstructionProcs_def thn_def [of "for_each (kill os lg) (mProcesses pm)"]
    by (intro triple_bnd [OF ops.kill_each [OF pm(3)]] triple_ex triple_pure
          triple_bnd [OF triple_runBuild [OF pm(1,2)]] triple_if triple_core_ret;
        drule (1) at; unfold append_assoc)
       (simp_all add: triple_test_and_launch [OF ready] build_failed_restarted [OF ready])
qed

section \<open>Shutting down\<close>

lemma killAll_for_each:
  assumes "mBuildStep pm = Some b" "mProgram pm = Some g"
  shows "killAll os lg pm = for_each (kill os lg) (b # mProcesses pm @ [g])"
  using assms
  by (simp add: killAll_def haltConstructionProcs_def deref_def for_each_append thn_assoc)

lemma triple_killAll:
  assumes ready: "procman_ready P V pm b g"
  shows "triple (core_is A P V) (killAll os lg pm)
    (\<lambda>_ s. \<exists>h. core s = (A @ h, P, V) \<and>
       (kills_trace (map (pid_of P) (b # mProcesses pm @ [g])) h \<and>
        (posix os \<longrightarrow> (\<forall>k \<in> kids A. 1 < k) \<longrightarrow>
           kids (A @ h) = kids A - set (map (pid_of P) (b # mProcesses pm @ [g]))))) E"
proof -
  have pm: "mBuildStep pm = Some b" "mProgram pm = Some g"
    using ready by (simp_all add: procman_ready_def)
  have "\<forall>p \<in> set (b # mProcesses pm @ [g]). slot P p \<noteq> None"
    using ready process_ready_slot unfolding procman_ready_def by auto
  from ops.kill_each [OF this] show ?thesis
    unfolding killAll_for_each [OF pm] .
qed

text \<open>Killing is signals, waits and messages.\<close>

lemma leaves_kill [leaves_intros]:
  assumes "\<And>p sig r. obs (EKill p sig r) = None" "\<And>p b r st. obs (EWait p b r st) = None"
    and "\<And>fd out. obs (EOut fd out) = None" "\<And>t. obs (ETime t) = None"
  shows "leaves obs (kill os lg p)"
  using assms unfolding kill_def terminate_def report_wait_def sys_kill_def sys_waitpid_def
  by (auto intro!: leaves_intros split: prod.split)

lemma leaves_killAll [leaves_intros]:
  assumes "\<And>p sig r. obs (EKill p sig r) = None" "\<And>p b r st. obs (EWait p b r st) = None"
    and "\<And>fd out. obs (EOut fd out) = None" "\<And>t. obs (ETime t) = None"
  shows "leaves obs (killAll os lg pm)"
  using assms unfolding killAll_def haltConstructionProcs_def by (auto intro!: leaves_intros)

section \<open>The manager's contract\<close>

text \<open>
  C5. One \<open>restartAll\<close> of a manager that can run: the tests are stopped, the build step is run
  and waited for, and exactly if it succeeded the tests are run and waited for, then the program is
  stopped and started again, in this order; the pids signalled are those recorded before, the pids
  recorded after are those of the children started. The heap changes in the recorded pids only; a run
  that stops is that of a forked child, never an undefined step of the manager's own.
\<close>

theorem restartAll_cycle:
  assumes "procman_ready (procs s) (argvs s) pm b g"
  shows "case restartAll os lg pm s of
      (Val _, t) \<Rightarrow> \<exists>h built. acts (hist t) = acts (hist s) @ h \<and>
         restart_trace (pids_of (procs s) pm g) h built (pids_of (procs t) pm g) \<and>
         same_procs (procs s) (procs t) \<and> argvs t = argvs s
    | (Stop e, t) \<Rightarrow> child_stop e"
  using triple_runD [OF triple_restartAll [OF assms], of os lg]
  by (auto simp: restarted_def core_def split: prod.splits res.splits)



section \<open>A failing test\<close>

text \<open>A manager with one test, its three processes fresh from their constructors.\<close>

definition demo_proc :: "nat \<Rightarrow> process" where
  "demo_proc a = \<lparr>mProc = 0, mSearchInPath = True, mGeneratedCommand = False, mEnabled = True,
     mCommand = a\<rparr>"

definition demo_sys :: sys where
  "demo_sys = \<lparr>hist = [], errno = 0,
     procs = [Some (demo_proc 0), Some (demo_proc 1), Some (demo_proc 2)],
     argvs = [Some [''make''], Some [''make'', ''test''], Some [''./program'']]\<rparr>"

definition demo_pm :: procman where
  "demo_pm = \<lparr>mBuildStep = Some 0, mProcesses = [1], mProgram = Some 2\<rparr>"

lemma demo_ready: "procman_ready (procs demo_sys) (argvs demo_sys) demo_pm 0 2"
  by (simp add: procman_ready_def demo_pm_def demo_sys_def demo_proc_def process_ready_def slot_def)

lemma demo_only_program: "only_program (acts (hist demo_sys)) (procs demo_sys) 2"
  by (simp add: only_program_def demo_sys_def)

text \<open>
  The program is relaunched although its tests failed: with the build step successful and the
  test ending with status 256, \<open>restartAll\<close> goes on to start the program (pid 103).
\<close>

theorem restartAll_ignores_tests:
  "acts (hist (snd (restartAll (demo_os (\<lambda>p. if p = 102 then 256 else 0)) StdoutLogger demo_pm demo_sys))) =
     [EFork 101, ESleep 10, EWait 101 True 0 0, EWait 101 False 101 0,
      EFork 102, ESleep 10, EWait 102 True 0 0, EWait 102 False 102 256,
      EFork 103, ESleep 10, EWait 103 True 0 0]"
  by code_simp

text \<open>The contract on this manager, as an instance.\<close>

theorem restartAll_cycle_witness:
  "case restartAll (demo_os (\<lambda>p. 0)) StdoutLogger demo_pm demo_sys of
      (Val _, t) \<Rightarrow> \<exists>h built. acts (hist t) = h \<and> restart_trace ([0], 0) h built (pids_of (procs t) demo_pm 2) \<and>
         same_procs (procs demo_sys) (procs t) \<and> argvs t = argvs demo_sys
    | (Stop e, t) \<Rightarrow> child_stop e"
proof -
  have "acts (hist demo_sys) = []" "pids_of (procs demo_sys) demo_pm 2 = ([0], 0)"
    by (simp_all add: demo_sys_def demo_pm_def pids_of_def pid_of_def slot_def demo_proc_def)
  from restartAll_cycle [OF demo_ready, of "demo_os (\<lambda>p. 0)" StdoutLogger, unfolded this append_Nil]
  show ?thesis .
qed

lemma demo_restart_returns:
  "fst (restartAll (demo_os (\<lambda>p. 0)) StdoutLogger demo_pm demo_sys) = Val ()"
  by code_simp



end
