(* ===== verification/Glob.thy ===== *)
theory Glob
  imports Prelude "HOL-Library.Sublist"
begin

unbundle bit_operations_syntax

text \<open>
  The string functions of src/src/util.cpp that the configuration and the watcher call:
  \<open>Util::lowercase\<close>, \<open>Util::lowercase_r\<close> and the file filter \<open>Util::strMatch\<close>.

  The index of the asterisk is a \<open>size_t\<close>, kept at its 64 bits: the source starts it at -1 and
  relies on what that becomes.
\<close>

type_synonym size_t = "64 word"

section \<open>Lower case\<close>

text \<open>\<open>::tolower\<close> in the C locale, which the program never leaves.\<close>

definition tolower :: "char \<Rightarrow> char" where
  "tolower c = (let n = (of_char c :: nat) in if 65 \<le> n \<and> n \<le> 90 then char_of (n + 32) else c)"

definition lowercase_r :: "string \<Rightarrow> string" where
  "lowercase_r input = map tolower input"

text \<open>\<open>lowercase\<close> overwrites its argument; the model returns the new contents.\<close>

fun lowercase :: "string \<Rightarrow> string" where
  "lowercase [] = []"
| "lowercase (c # cs) = tolower c # lowercase cs"

lemma lowercase_eq: "lowercase s = lowercase_r s"
  by (induction s) (simp_all add: lowercase_r_def)

definition is_upper :: "char \<Rightarrow> bool" where
  "is_upper c \<longleftrightarrow> 65 \<le> (of_char c :: nat) \<and> (of_char c :: nat) \<le> 90"

lemma tolower_not_upper [simp]: "\<not> is_upper (tolower c)"
  by (auto simp: tolower_def is_upper_def Let_def)

lemma tolower_id [simp]: "\<not> is_upper c \<Longrightarrow> tolower c = c"
  by (auto simp: tolower_def is_upper_def Let_def)

lemma lowercase_r_idem [simp]: "lowercase_r (lowercase_r s) = lowercase_r s"
  by (simp add: lowercase_r_def)

section \<open>The file filter\<close>

text \<open>The \<open>for\<close> loop that leaves the index of the last asterisk in \<open>asterisk\<close>.\<close>

fun find_asterisk :: "string \<Rightarrow> size_t \<Rightarrow> size_t \<Rightarrow> size_t" where
  "find_asterisk [] i asterisk = asterisk"
| "find_asterisk (c # cs) i asterisk =
     find_asterisk cs (i + 1) (if c = CHR ''*'' then i else asterisk)"

text \<open>
  \<open>strMatch\<close>. The tests \<open>asterisk >= 0\<close> compare an unsigned number with 0, and without an
  asterisk \<open>asterisk + 1\<close> is the wrapped-around 0 and \<open>substr(0, asterisk)\<close> the whole string.
\<close>

definition strMatch :: "string \<Rightarrow> string \<Rightarrow> stop + bool" where
  "strMatch expression str =
     (if length expression = 0 \<or> length str = 0 then Inr False
      else
        let lenstr = (of_nat (length str) :: size_t);
            lensuffix = (of_nat (length expression) :: size_t)
        in if lensuffix > lenstr then Inr False
           else
             let asterisk = find_asterisk expression 0 (-1)
             in ebnd (if asterisk \<ge> 0 then substr_from expression (unat (asterisk + 1))
                      else Inr expression) (\<lambda>tmpstring.
                ebnd (substr_from str
                        (unat ((of_nat (length str) :: size_t) - of_nat (length tmpstring)))) (\<lambda>tl_str.
                let ends_with = (tl_str = tmpstring)
                in if asterisk \<ge> 0 then
                     ebnd (substr expression 0 (unat asterisk)) (\<lambda>tmpstring.
                     ebnd (substr str 0 (length tmpstring)) (\<lambda>hd_str.
                     let starts_with = (hd_str = tmpstring)
                     in Inr (starts_with \<and> ends_with)))
                   else
                     let starts_with = True
                     in Inr (starts_with \<and> ends_with))))"

subsection \<open>What the filter is for, without indices\<close>

text \<open>
  \<open>split_last\<close> cuts a filter at its last asterisk. \<open>accepts\<close> is the relation the watcher's
  properties are stated with; \<open>strMatch_accepts\<close> below shows that the code computes it.
\<close>

fun split_last :: "string \<Rightarrow> (string \<times> string) option" where
  "split_last [] = None"
| "split_last (c # cs) =
     (case split_last cs of
        Some (p, q) \<Rightarrow> Some (c # p, q)
      | None \<Rightarrow> if c = CHR ''*'' then Some ([], cs) else None)"

definition accepts :: "string \<Rightarrow> string \<Rightarrow> bool" where
  "accepts e s = (e \<noteq> [] \<and>
     (case split_last e of
        Some (p, q) \<Rightarrow> length p + length q < length s \<and> prefix p s \<and> suffix q s
      | None \<Rightarrow> prefix e s \<and> suffix e s))"

lemma split_last_None: "split_last e = None \<longleftrightarrow> CHR ''*'' \<notin> set e"
  by (induction e) (auto split: option.splits)

lemma split_last_Some: "split_last e = Some (p, q) \<Longrightarrow> e = p @ CHR ''*'' # q \<and> CHR ''*'' \<notin> set q"
  by (induction e arbitrary: p q)
     (auto simp: split_last_None split: option.splits if_splits)

lemma split_last_append: "CHR ''*'' \<notin> set q \<Longrightarrow> split_last (p @ CHR ''*'' # q) = Some (p, q)"
proof (induction p)
  case Nil
  then have "split_last q = None" by (simp add: split_last_None)
  then show ?case by simp
qed simp

subsection \<open>The index of the asterisk\<close>

lemma find_asterisk_none: "CHR ''*'' \<notin> set cs \<Longrightarrow> find_asterisk cs i a = a"
  by (induction cs arbitrary: i) auto

lemma find_asterisk_last:
  "CHR ''*'' \<notin> set q \<Longrightarrow> find_asterisk (p @ CHR ''*'' # q) i a = i + of_nat (length p)"
proof (induction p arbitrary: i a)
  case Nil
  then show ?case by (simp add: find_asterisk_none)
next
  case (Cons c p)
  then show ?case by (simp add: algebra_simps)
qed

lemma unat_size_t: "n < 2 ^ 64 \<Longrightarrow> unat (of_nat n :: size_t) = n"
  by (simp add: unat_of_nat)

lemma size_t_less: "m < 2 ^ 64 \<Longrightarrow> n < 2 ^ 64 \<Longrightarrow>
    (of_nat m < (of_nat n :: size_t)) = (m < n)"
  by (simp add: word_less_nat_alt unat_of_nat)

lemma unat_size_t_diff: "n \<le> m \<Longrightarrow> m < 2 ^ 64 \<Longrightarrow> unat (of_nat m - of_nat n :: size_t) = m - n"
  by (metis less_imp_diff_less of_nat_diff unat_size_t)

text \<open>The suffix and prefix tests on \<open>substr\<close>s.\<close>

lemma drop_eq_suffix: "length q \<le> length s \<Longrightarrow> (drop (length s - length q) s = q) = suffix q s"
  by (auto simp: suffix_def) (metis append_take_drop_id)

lemma take_eq_prefix: "(take (length p) s = p) = prefix p s"
  by (auto simp: prefix_def) (metis append_take_drop_id)

text \<open>A text that starts with \<open>p\<close>, ends with \<open>q\<close> and has room for both and something between.\<close>

lemma prefix_suffix_room:
  "(length p + length q < length s \<and> prefix p s \<and> suffix q s) =
   (\<exists>m. m \<noteq> [] \<and> s = p @ m @ q)"
proof
  assume l: "length p + length q < length s \<and> prefix p s \<and> suffix q s"
  then obtain r t where s: "s = p @ r" "s = t @ q" unfolding prefix_def suffix_def by blast
  have "drop (length p) s = drop (length p) t @ q"
    using l s(2) by simp
  then have "s = p @ drop (length p) t @ q"
    using s(1) by simp
  moreover have "drop (length p) t \<noteq> []"
    using l s(2) by auto
  ultimately show "\<exists>m. m \<noteq> [] \<and> s = p @ m @ q" by blast
qed (auto simp: prefix_def suffix_def)

subsection \<open>What the filter accepts\<close>

text \<open>The tail of \<open>strMatch\<close> once the asterisk is known: it splits the expression in two.\<close>

lemma strMatch_split:
  assumes "length expression < 2 ^ 64" "length str < 2 ^ 64"
    and "expression \<noteq> []"
    and "find_asterisk expression 0 (-1) = a"
    and "unat (a + 1) \<le> length expression"
    and "drop (unat (a + 1)) expression = q" "take (unat a) expression = p"
  shows "strMatch expression str =
    Inr (length expression \<le> length str \<and> prefix p str \<and> suffix q str)"
proof (cases "length expression \<le> length str")
  case False
  then show ?thesis using assms(1,2) by (auto simp: strMatch_def size_t_less)
next
  case True
  have q: "length q \<le> length str" using assms(6) True by auto
  have "str \<noteq> []" using True assms(3) by auto
  with True assms q show ?thesis
    by (simp add: strMatch_def size_t_less substr_from_def substr_def unat_size_t_diff
        drop_eq_suffix take_eq_prefix)
qed

lemma strMatch_star_eq:
  assumes "CHR ''*'' \<notin> set q"
    and "length (p @ CHR ''*'' # q) < 2 ^ 64" "length str < 2 ^ 64"
  shows "strMatch (p @ CHR ''*'' # q) str =
    Inr (length p + length q < length str \<and> prefix p str \<and> suffix q str)"
proof -
  let ?e = "p @ CHR ''*'' # q" and ?a = "of_nat (length p) :: size_t"
  have a: "find_asterisk ?e 0 (-1) = ?a"
    using assms(1) by (simp add: find_asterisk_last)
  have lp: "unat ?a = length p"
    using assms(2) by (simp add: unat_size_t)
  have "unat (?a + 1) = Suc (length p)"
    using assms(2) unat_size_t [of "Suc (length p)"] by (simp add: add.commute)
  then have "strMatch ?e str = Inr (length ?e \<le> length str \<and> prefix p str \<and> suffix q str)"
    by (intro strMatch_split [OF assms(2,3) _ a]) (simp_all add: lp)
  moreover have "length ?e \<le> length str \<longleftrightarrow> length p + length q < length str"
    by auto
  ultimately show ?thesis by simp
qed

lemma npos_max: "n < 2 ^ 64 \<Longrightarrow> n \<le> unat (-1 :: size_t)"
  using unat_sub_if' [of "0 :: size_t" 1] by simp

lemma strMatch_literal_eq:
  assumes "CHR ''*'' \<notin> set e" "e \<noteq> []"
    and "length e < 2 ^ 64" "length str < 2 ^ 64"
  shows "strMatch e str = Inr (prefix e str \<and> suffix e str)"
proof -
  have "find_asterisk e 0 (-1) = -1"
    using assms(1) by (rule find_asterisk_none)
  moreover have "length e \<le> unat (-1 :: size_t)"
    using assms(3) by (rule npos_max)
  ultimately have "strMatch e str = Inr (length e \<le> length str \<and> prefix e str \<and> suffix e str)"
    using assms(2-4) by (intro strMatch_split) simp_all
  then show ?thesis
    using prefix_length_le by auto
qed

lemma strMatch_accepts:
  assumes "length e < 2 ^ 64" "length str < 2 ^ 64"
  shows "strMatch e str = Inr (accepts e str)"
proof (cases "split_last e")
  case (Some pq)
  then obtain p q where "split_last e = Some (p, q)" by (cases pq) auto
  moreover from this have e: "e = p @ CHR ''*'' # q" and q: "CHR ''*'' \<notin> set q"
    using split_last_Some by auto
  ultimately show ?thesis
    using assms strMatch_star_eq [of q p str] by (simp add: accepts_def)
next
  case None
  then have "CHR ''*'' \<notin> set e" by (simp add: split_last_None)
  with None show ?thesis
    using assms strMatch_literal_eq [of e str]
    by (cases "e = []") (simp_all add: accepts_def strMatch_def [of "[]"])
qed

text \<open>
  C20. A filter with an asterisk (the last one, if there are more) accepts exactly the names that
  are its text before the asterisk, then at least one character, then its text after it.
\<close>

theorem strMatch_asterisk:
  assumes "CHR ''*'' \<notin> set q"
    and "length (p @ CHR ''*'' # q) < 2 ^ 64" "length str < 2 ^ 64"
  shows "strMatch (p @ CHR ''*'' # q) str = Inr (\<exists>m. m \<noteq> [] \<and> str = p @ m @ q)"
  using strMatch_star_eq [OF assms] by (simp add: prefix_suffix_room)

theorem strMatch_asterisk_witness:
  "strMatch ''*.cpp'' ''main.cpp'' = Inr True"
proof -
  have "strMatch ([] @ CHR ''*'' # ''.cpp'') ''main.cpp'' =
      Inr (\<exists>m. m \<noteq> [] \<and> ''main.cpp'' = [] @ m @ ''.cpp'')"
    by (rule strMatch_asterisk) simp_all
  moreover have "\<exists>m. m \<noteq> [] \<and> ''main.cpp'' = [] @ m @ ''.cpp''"
    by (rule exI [of _ "''main''"]) simp
  ultimately show ?thesis by simp
qed

text \<open>
  C32. A filter with no asterisk is not compared for equality: it accepts the names that both
  start and end with it (the test that should skip the start comparison, \<open>asterisk >= 0\<close> on an
  unsigned index, is always true). In particular a filter accepts itself.
\<close>

theorem strMatch_literal:
  assumes "CHR ''*'' \<notin> set e" "e \<noteq> []"
    and "length e < 2 ^ 64" "length str < 2 ^ 64"
  shows "strMatch e str = Inr (prefix e str \<and> suffix e str)"
  using assms by (rule strMatch_literal_eq)

theorem strMatch_literal_witness:
  "strMatch ''Makefile'' ''Makefile.old-Makefile'' = Inr True"
proof -
  have "strMatch ''Makefile'' ''Makefile.old-Makefile'' =
    Inr (prefix ''Makefile'' ''Makefile.old-Makefile'' \<and> suffix ''Makefile'' ''Makefile.old-Makefile'')"
    by (rule strMatch_literal) simp_all
  moreover have "suffix ''Makefile'' ''Makefile.old-Makefile''"
    unfolding suffix_def by (rule exI [of _ "''Makefile.old-''"]) simp
  ultimately show ?thesis by simp
qed

text \<open>
  Key comparison ignores case: two texts have the same lower case exactly when they agree up
  to the case of ASCII letters, character by character; the result holds no upper case letter and
  in-place and copying variants agree.
\<close>

theorem lowercase_spec:
  "lowercase s = lowercase_r s \<and> length (lowercase_r s) = length s \<and>
   list_all (\<lambda>c. \<not> is_upper c) (lowercase_r s) \<and> lowercase_r (lowercase_r s) = lowercase_r s \<and>
   ((lowercase_r s = s) = list_all (\<lambda>c. \<not> is_upper c) s)"
proof -
  have "map tolower s = s \<longleftrightarrow> list_all (\<lambda>c. \<not> is_upper c) s"
    by (induction s) (simp_all, metis tolower_id tolower_not_upper)
  then show ?thesis
    by (auto simp: lowercase_eq lowercase_r_def list_all_iff)
qed

end
