(* ===== verification/Dirs.thy ===== *)
theory Dirs
  imports Rules "HOL-Library.Sublist"
begin

text \<open>
  Directories: \<open>CException\<close> (src/src/exceptions.cpp), \<open>cwd\<close> and \<open>listDir\<close> of src/src/util.cpp, and
  the part of \<open>Watcher\<close> (src/src/watcher.cpp) that puts inotify watches on a directory tree and
  takes them off again.

  The properties compare the walk with an abstract file system: \<open>fs\<close> says of a path whether it is
  a directory (\<open>None\<close> when there is no such file), \<open>ls\<close> what a directory lists.
\<close>

section \<open>System errors as exceptions\<close>

definition CException :: "os \<Rightarrow> string \<Rightarrow> int \<Rightarrow> exn" where
  "CException os message e =
     C_exception (message @ '': '' @ os_strerror os e @ '' ('' @ show_int e @ '')'')"

definition throw_CException :: "os \<Rightarrow> string \<Rightarrow> 'a io" where
  "throw_CException os message = bnd (gets errno) (\<lambda>e. halt (Throw (CException os message e)))"

definition perror :: "os \<Rightarrow> string \<Rightarrow> unit io" where
  "perror os message =
     bnd (gets errno) (\<lambda>e. sys_write Stderr (message @ '': '' @ os_strerror os e @ [CHR 0x0A]))"

section \<open>The file system calls\<close>

definition sys_getcwd :: "os \<Rightarrow> string option io" where
  "sys_getcwd os =
     bnd (sys_call (os_getcwd os) (\<lambda>r. EGetcwd (case r of Inl e \<Rightarrow> None | Inr d \<Rightarrow> Some d))
            (\<lambda>r. case r of Inl e \<Rightarrow> Some e | Inr d \<Rightarrow> None))
         (\<lambda>r. ret (case r of Inl e \<Rightarrow> None | Inr d \<Rightarrow> Some d))"

text \<open>
  \<open>struct stat\<close> is a local variable: all the code reads of it is whether the mode is that of a
  directory. It is indeterminate (\<open>None\<close>) until a call fills it, and a call that fails leaves it as
  it was. \<open>S_ISDIR\<close> of an indeterminate mode is undefined.
\<close>

definition sys_lstat :: "os \<Rightarrow> string \<Rightarrow> bool option \<Rightarrow> bool option io" where
  "sys_lstat os file st =
     bnd (sys_call (\<lambda>h. os_lstat os h file) (ELstat file) (\<lambda>_. None))
         (\<lambda>r. ret (case r of None \<Rightarrow> st | Some d \<Rightarrow> Some d))"

definition S_ISDIR :: "bool option \<Rightarrow> bool io" where
  "S_ISDIR st = deref st"

definition sys_opendir :: "os \<Rightarrow> string \<Rightarrow> string list option io" where
  "sys_opendir os path =
     bnd (sys_call (\<lambda>h. os_dir os h path) (\<lambda>r. EDir path (case r of Inl e \<Rightarrow> None | Inr d \<Rightarrow> Some d))
            (\<lambda>r. case r of Inl e \<Rightarrow> Some e | Inr d \<Rightarrow> None))
         (\<lambda>r. ret (case r of Inl e \<Rightarrow> None | Inr d \<Rightarrow> Some d))"

definition sys_inotify_init :: "os \<Rightarrow> int io" where
  "sys_inotify_init os =
     bnd (sys_call (os_inotify_init os) (\<lambda>(r, e). EInotify r) (\<lambda>(r, e). if r < 0 then Some e else None))
         (\<lambda>(r, e). ret r)"

definition sys_add_watch :: "os \<Rightarrow> int \<Rightarrow> string \<Rightarrow> int io" where
  "sys_add_watch os fd path =
     sys_call (\<lambda>h. os_add_watch os h fd path) (EAddWatch fd path) (\<lambda>_. None)"

definition sys_rm_watch :: "os \<Rightarrow> int \<Rightarrow> int \<Rightarrow> unit io" where
  "sys_rm_watch os fd wd =
     thn (sys_call (\<lambda>h. os_rm_watch os h fd wd) (\<lambda>_. ERmWatch fd wd) (\<lambda>_. None)) (ret ())"

definition sys_close :: "int \<Rightarrow> unit io" where
  "sys_close fd = sys_call (\<lambda>_. ()) (\<lambda>_. EClose fd) (\<lambda>_. None)"

section \<open>Listing a directory\<close>

datatype FileType = DIRECTORY | FILETYPE | ALL_TYPES

definition cwd :: "os \<Rightarrow> string io" where
  "cwd os = bnd (sys_getcwd os) (\<lambda>r.
     case r of None \<Rightarrow> throw_CException os ''getcwd'' | Some d \<Rightarrow> ret d)"

text \<open>One round of the \<open>readdir\<close> loop: the stat buffer and the names kept so far.\<close>

definition list_entry :: "os \<Rightarrow> FileType \<Rightarrow> string \<Rightarrow> bool option \<times> string list \<Rightarrow>
    (bool option \<times> string list) io" where
  "list_entry os ft name = (\<lambda>(st, rs).
     bnd (sys_lstat os name st) (\<lambda>st.
     bnd (if ft = ALL_TYPES then ret True
          else bnd (S_ISDIR st) (\<lambda>d. ret (if ft = DIRECTORY then d else \<not> d))) (\<lambda>keep.
       ret (st, if keep then rs @ [name] else rs))))"

definition listDir :: "os \<Rightarrow> string \<Rightarrow> FileType \<Rightarrow> string list io" where
  "listDir os path ft =
     bnd (sys_lstat os (cstr path) None) (\<lambda>st.
     bnd (S_ISDIR st) (\<lambda>d.
     if \<not> d then ret []
     else
       bnd (sys_opendir os (cstr path)) (\<lambda>dirptr.
       case dirptr of
         None \<Rightarrow> throw_CException os ''opendir''
       | Some names \<Rightarrow> bnd (for_acc (list_entry os ft) names (st, [])) (\<lambda>(st, rs). ret rs))))"

section \<open>Watching a tree\<close>

text \<open>
  \<open>recursiveWatch\<close> goes down as deep as the tree does; the first argument bounds the depth. The
  vector \<open>mFDs\<close> is threaded through.
\<close>

primrec recursiveWatch :: "nat \<Rightarrow> os \<Rightarrow> int \<Rightarrow> string \<Rightarrow> int list \<Rightarrow> int list io" where
  "recursiveWatch 0 os fd maindir fds = halt Out_of_fuel"
| "recursiveWatch (Suc n) os fd maindir fds =
     bnd (listDir os maindir DIRECTORY) (\<lambda>dirs.
       for_acc (\<lambda>dir fds.
         if dir = ''.'' \<or> dir = ''..'' then ret fds
         else
           bnd (sys_add_watch os fd (cstr (maindir @ ''/'' @ dir))) (\<lambda>wd.
             recursiveWatch n os fd (maindir @ ''/'' @ dir) (fds @ [wd]))) dirs fds)"

definition removeAllWatches :: "os \<Rightarrow> int \<Rightarrow> int list \<Rightarrow> unit io" where
  "removeAllWatches os fd fds = for_each (sys_rm_watch os fd) fds"

section \<open>None of this concerns a process\<close>

lemma calm_dirs [calm_intros]:
  "calm (throw_CException os message)"
  "calm (perror os message)"
  "calm (sys_getcwd os)"
  "calm (sys_lstat os file st)"
  "calm (S_ISDIR st)"
  "calm (sys_opendir os path)"
  "calm (sys_inotify_init os)"
  "calm (sys_add_watch os fd path)"
  "calm (sys_rm_watch os fd wd)"
  "calm (sys_close fd)"
  unfolding throw_CException_def perror_def sys_getcwd_def sys_lstat_def S_ISDIR_def sys_opendir_def
    sys_inotify_init_def sys_add_watch_def sys_rm_watch_def sys_close_def sys_write_def
  by (auto intro!: calm_intros split: prod.split)

lemma calm_listDir [calm_intros]: "calm (cwd os)" "calm (listDir os path ft)"
  unfolding cwd_def listDir_def list_entry_def
  by (auto intro!: calm_intros split: option.split prod.split)

lemma calm_recursiveWatch [calm_intros]: "calm (recursiveWatch n os fd maindir fds)"
  by (induction n arbitrary: maindir fds) (auto intro!: calm_intros)

lemma calm_removeAllWatches [calm_intros]: "calm (removeAllWatches os fd fds)"
  unfolding removeAllWatches_def by (intro calm_intros)

section \<open>The watches in the history\<close>

fun watch_of :: "event \<Rightarrow> (string \<times> int) option" where
  "watch_of (EAddWatch fd path wd) = Some (path, wd)"
| "watch_of _ = None"

abbreviation watches :: "history \<Rightarrow> (string \<times> int) list" where
  "watches \<equiv> seen watch_of"

section \<open>Every watch is remembered\<close>

text \<open>A computation that sets no watch.\<close>

abbreviation unwatched :: "'a io \<Rightarrow> bool" where
  "unwatched \<equiv> leaves watch_of"

lemma unwatched_listDir: "unwatched (listDir os path ft)"
  unfolding listDir_def list_entry_def sys_lstat_def S_ISDIR_def sys_opendir_def throw_CException_def
  by (auto intro!: leaves_intros split: option.split prod.split)

lemma triple_add_watch:
  "triple (\<lambda>s. map snd (watches (hist s)) = fds) (sys_add_watch os fd path)
     (\<lambda>wd s. map snd (watches (hist s)) = fds @ [wd]) E"
  by (rule tripleI) (auto simp: sys_add_watch_def sys_call_def Let_def)

lemma triple_recursiveWatch:
  "triple (\<lambda>s. map snd (watches (hist s)) = pre @ fds) (recursiveWatch n os fd maindir fds)
     (\<lambda>fds s. map snd (watches (hist s)) = pre @ fds) (\<lambda>_ _. True)"
proof (induction n arbitrary: maindir fds)
  case 0
  show ?case by (simp add: triple_halt)
next
  case (Suc n)
  have body: "triple (\<lambda>s. map snd (watches (hist s)) = pre @ fds)
      (if dir = ''.'' \<or> dir = ''..'' then ret fds
       else bnd (sys_add_watch os fd (cstr (maindir @ ''/'' @ dir)))
         (\<lambda>wd. recursiveWatch n os fd (maindir @ ''/'' @ dir) (fds @ [wd])))
      (\<lambda>fds s. map snd (watches (hist s)) = pre @ fds) (\<lambda>_ _. True)" for dir fds
    using Suc.IH by (auto intro!: triple_ret triple_bnd [OF triple_add_watch])
  show ?case
    unfolding recursiveWatch.simps
    by (rule triple_bnd [OF triple_leaves [OF unwatched_listDir]])
       (rule triple_for_acc [where I = "\<lambda>fds s. map snd (watches (hist s)) = pre @ fds"], rule body)
qed

section \<open>A tree that does not change\<close>

text \<open>
  \<open>static_fs\<close>: the system answers questions about files from \<open>fs\<close> and \<open>ls\<close> throughout.
\<close>

definition static_fs :: "os \<Rightarrow> (string \<Rightarrow> bool option) \<Rightarrow> (string \<Rightarrow> int + string list) \<Rightarrow> bool" where
  "static_fs os fs ls \<longleftrightarrow> (\<forall>h p. os_lstat os h p = fs p \<and> os_dir os h p = ls p)"

text \<open>
  What \<open>listDir\<close> keeps: it asks for the type of a listed name as it stands, not below the
  directory listed, and takes the type of the entry before when there is no such file.
\<close>

fun keep_dirs :: "(string \<Rightarrow> bool option) \<Rightarrow> bool \<Rightarrow> string list \<Rightarrow> string list" where
  "keep_dirs fs st [] = []"
| "keep_dirs fs st (n # ns) =
     (let d = (case fs n of None \<Rightarrow> st | Some d \<Rightarrow> d)
      in if d then n # keep_dirs fs d ns else keep_dirs fs d ns)"

lemma keep_dirs_known:
  "\<forall>n \<in> set ns. fs n \<noteq> None \<Longrightarrow> keep_dirs fs st ns = filter (\<lambda>n. fs n = Some True) ns"
  by (induction ns arbitrary: st) (auto simp: Let_def)

lemma bnd_lstat:
  "bnd (sys_lstat os f st) k s =
     k (case os_lstat os (hist s) f of None \<Rightarrow> st | Some d \<Rightarrow> Some d)
       (s\<lparr>hist := hist s @ [ELstat f (os_lstat os (hist s) f)]\<rparr>)"
  by (simp add: sys_lstat_def sys_call_def bnd_def ret_def Let_def)

lemma lstat_static:
  "static_fs os fs ls \<Longrightarrow> bnd (sys_lstat os f st) k s =
     k (case fs f of None \<Rightarrow> st | Some d \<Rightarrow> Some d) (s\<lparr>hist := hist s @ [ELstat f (fs f)]\<rparr>)"
  by (simp add: bnd_lstat static_fs_def)

lemma opendir_static:
  "static_fs os fs ls \<Longrightarrow> ls p = Inr ns \<Longrightarrow> bnd (sys_opendir os p) k s =
     k (Some ns) (s\<lparr>hist := hist s @ [EDir p (Some ns)]\<rparr>)"
  by (simp add: sys_opendir_def sys_call_def bnd_def ret_def Let_def static_fs_def)

lemma list_entry_static:
  "static_fs os fs ls \<Longrightarrow> list_entry os DIRECTORY n (Some st, rs) s =
    (Val (Some (case fs n of None \<Rightarrow> st | Some d \<Rightarrow> d),
          if (case fs n of None \<Rightarrow> st | Some d \<Rightarrow> d) then rs @ [n] else rs),
     s\<lparr>hist := hist s @ [ELstat n (fs n)]\<rparr>)"
  by (simp add: list_entry_def lstat_static S_ISDIR_def deref_def split: option.split) (simp add: ret_def)

lemma list_entries_static:
  assumes "static_fs os fs ls"
  shows "\<exists>st' t. for_acc (list_entry os DIRECTORY) ns (Some st, rs) s =
     (Val (st', rs @ keep_dirs fs st ns), t)"
proof (induction ns arbitrary: st rs s)
  case Nil
  show ?case by (simp add: ret_def)
next
  case (Cons n ns)
  define d where "d = (case fs n of None \<Rightarrow> st | Some d \<Rightarrow> d)"
  note step = list_entry_static [OF assms, of n st rs s, folded d_def]
  show ?case
    using Cons.IH [of d "if d then rs @ [n] else rs" "s\<lparr>hist := hist s @ [ELstat n (fs n)]\<rparr>"]
    by (cases d) (simp_all add: bnd_def step Let_def flip: d_def)
qed

lemma listDir_static:
  assumes "static_fs os fs ls" "fs (cstr path) = Some True" "ls (cstr path) = Inr ns"
  shows "\<exists>t. listDir os path DIRECTORY s = (Val (keep_dirs fs True ns), t)"
proof -
  let ?s = "s\<lparr>hist := (hist s @ [ELstat (cstr path) (Some True)]) @ [EDir (cstr path) (Some ns)]\<rparr>"
  obtain st' t where "for_acc (list_entry os DIRECTORY) ns (Some True, []) ?s =
      (Val (st', keep_dirs fs True ns), t)"
    using list_entries_static [OF assms(1), of ns True "[]" ?s] by auto
  then show ?thesis
    using assms(2)
    by (simp add: listDir_def lstat_static [OF assms(1)] S_ISDIR_def deref_def
        opendir_static [OF assms(1,3)]) (simp add: bnd_def ret_def)
qed

text \<open>
  The subdirectories of a directory, and all directories below it. \<open>tame\<close> is what the walk needs
  to see them: every directory met can be listed, the name of each entry has the same type in the
  current directory as the entry itself, and the depth \<open>ht\<close> decreases on the way down.
\<close>

definition subdirs :: "(string \<Rightarrow> bool option) \<Rightarrow> (string \<Rightarrow> int + string list) \<Rightarrow> string \<Rightarrow> string set" where
  "subdirs fs ls d = (case ls d of Inl e \<Rightarrow> {} | Inr ns \<Rightarrow>
     {n \<in> set ns. n \<noteq> ''.'' \<and> n \<noteq> ''..'' \<and> fs (d @ ''/'' @ n) = Some True})"

inductive below :: "(string \<Rightarrow> bool option) \<Rightarrow> (string \<Rightarrow> int + string list) \<Rightarrow> string \<Rightarrow> string \<Rightarrow> bool"
  for fs ls where
  below_child: "n \<in> subdirs fs ls d \<Longrightarrow> below fs ls d (d @ ''/'' @ n)"
| below_deeper: "n \<in> subdirs fs ls d \<Longrightarrow> below fs ls (d @ ''/'' @ n) q \<Longrightarrow> below fs ls d q"

inductive_cases below_cases: "below fs ls d q"

lemma below_unfold:
  "{q. below fs ls d q} =
   (\<Union>n \<in> subdirs fs ls d. insert (d @ ''/'' @ n) {q. below fs ls (d @ ''/'' @ n) q})"
  by (auto intro: below.intros [simplified] elim: below_cases)

definition tame_dir :: "(string \<Rightarrow> bool option) \<Rightarrow> (string \<Rightarrow> int + string list) \<Rightarrow> (string \<Rightarrow> nat) \<Rightarrow>
    string \<Rightarrow> bool" where
  "tame_dir fs ls ht d \<longleftrightarrow> CHR 0x00 \<notin> set d \<and> fs d = Some True \<and>
     (\<exists>ns. ls d = Inr ns \<and> (\<forall>n \<in> set ns. fs n \<noteq> None \<and> fs n = fs (d @ ''/'' @ n))) \<and>
     (\<forall>n \<in> subdirs fs ls d. ht (d @ ''/'' @ n) < ht d)"

definition tame :: "(string \<Rightarrow> bool option) \<Rightarrow> (string \<Rightarrow> int + string list) \<Rightarrow> (string \<Rightarrow> nat) \<Rightarrow>
    string \<Rightarrow> bool" where
  "tame fs ls ht d \<longleftrightarrow> tame_dir fs ls ht d \<and> (\<forall>q. below fs ls d q \<longrightarrow> tame_dir fs ls ht q)"

lemma tame_child:
  "tame fs ls ht d \<Longrightarrow> n \<in> subdirs fs ls d \<Longrightarrow>
   tame fs ls ht (d @ ''/'' @ n) \<and> ht (d @ ''/'' @ n) < ht d"
  unfolding tame_def tame_dir_def by (meson below.intros)

lemma tame_listDir:
  assumes "static_fs os fs ls" "tame_dir fs ls ht d"
  shows "\<exists>ds t. listDir os d DIRECTORY s = (Val ds, t) \<and> {n \<in> set ds. n \<noteq> ''.'' \<and> n \<noteq> ''..''} = subdirs fs ls d"
proof -
  from assms(2) obtain ns where d: "cstr d = d" "fs d = Some True" "ls d = Inr ns"
      "\<forall>n \<in> set ns. fs n \<noteq> None" "\<forall>n \<in> set ns. fs n = fs (d @ ''/'' @ n)"
    unfolding tame_dir_def using cstr_id by metis
  from listDir_static [OF assms(1), of d ns s] d(1-3) obtain t where
    "listDir os d DIRECTORY s = (Val (keep_dirs fs True ns), t)" by auto
  moreover have "{n \<in> set (keep_dirs fs True ns). n \<noteq> ''.'' \<and> n \<noteq> ''..''} = subdirs fs ls d"
    using d by (auto simp: keep_dirs_known subdirs_def)
  ultimately show ?thesis by blast
qed

definition watched :: "history \<Rightarrow> string set" where
  "watched h = fst ` set (watches h)"

lemma triple_tame_listDir:
  assumes "static_fs os fs ls" "tame_dir fs ls ht d"
  shows "triple (\<lambda>s. watched (hist s) = W) (listDir os d DIRECTORY)
    (\<lambda>ds s. watched (hist s) = W \<and> {n \<in> set ds. n \<noteq> ''.'' \<and> n \<noteq> ''..''} = subdirs fs ls d) (\<lambda>_ _. False)"
proof (rule tripleI)
  fix s x t assume s: "watched (hist s) = W" "listDir os d DIRECTORY s = (Val x, t)"
  have "watches (hist t) = watches (hist s)"
    using leavesD [OF unwatched_listDir s(2)] .
  with s tame_listDir [OF assms, of s]
  show "watched (hist t) = W \<and> {n \<in> set x. n \<noteq> ''.'' \<and> n \<noteq> ''..''} = subdirs fs ls d"
    by (auto simp: watched_def)
next
  fix s e t assume "listDir os d DIRECTORY s = (Stop e, t)"
  with tame_listDir [OF assms, of s] show False by auto
qed

lemma triple_add_watched:
  "triple (\<lambda>s. watched (hist s) = W) (sys_add_watch os fd path) (\<lambda>_ s. watched (hist s) = insert path W) E"
  by (rule tripleI) (auto simp: sys_add_watch_def sys_call_def Let_def watched_def)

text \<open>The loop over the subdirectories, given the walk below each.\<close>

lemma triple_watch_dirs:
  assumes "\<And>n W fds. n \<in> set ns \<Longrightarrow> n \<noteq> ''.'' \<Longrightarrow> n \<noteq> ''..'' \<Longrightarrow>
      triple (\<lambda>s. watched (hist s) = W) (f n fds) (\<lambda>_ s. watched (hist s) = W \<union> B n) (\<lambda>_ _. False)"
  shows "triple (\<lambda>s. watched (hist s) = W)
    (for_acc (\<lambda>n fds. if n = ''.'' \<or> n = ''..'' then ret fds else f n fds) ns fds)
    (\<lambda>_ s. watched (hist s) = W \<union> (\<Union>n \<in> {n \<in> set ns. n \<noteq> ''.'' \<and> n \<noteq> ''..''}. B n)) (\<lambda>_ _. False)"
  using assms
proof (induction ns arbitrary: W fds)
  case Nil
  show ?case by (simp add: triple_ret)
next
  case (Cons n ns)
  let ?W = "if n = ''.'' \<or> n = ''..'' then W else W \<union> B n"
  have "triple (\<lambda>s. watched (hist s) = W) (if n = ''.'' \<or> n = ''..'' then ret fds else f n fds)
      (\<lambda>_ s. watched (hist s) = ?W) (\<lambda>_ _. False)"
    by (rule triple_if) (auto intro: triple_ret Cons.prems)
  moreover have "?W \<union> (\<Union>n \<in> {n \<in> set ns. n \<noteq> ''.'' \<and> n \<noteq> ''..''}. B n) =
      W \<union> (\<Union>m \<in> {m \<in> set (n # ns). m \<noteq> ''.'' \<and> m \<noteq> ''..''}. B m)"
    by auto
  moreover have "triple (\<lambda>s. watched (hist s) = ?W)
    (for_acc (\<lambda>n fds. if n = ''.'' \<or> n = ''..'' then ret fds else f n fds) ns fds)
    (\<lambda>_ s. watched (hist s) = ?W \<union> (\<Union>n \<in> {n \<in> set ns. n \<noteq> ''.'' \<and> n \<noteq> ''..''}. B n)) (\<lambda>_ _. False)" for fds
    by (rule Cons.IH) (simp add: Cons.prems)
  ultimately show ?case by (simp only: for_acc.simps triple_bnd)
qed

lemma triple_recursiveWatch_tame:
  assumes "static_fs os fs ls" "tame fs ls ht d" "ht d < n"
  shows "triple (\<lambda>s. watched (hist s) = W) (recursiveWatch n os fd d fds)
    (\<lambda>_ s. watched (hist s) = W \<union> {q. below fs ls d q}) (\<lambda>_ _. False)"
  using assms(2,3)
proof (induction n arbitrary: d fds W)
  case (Suc n)
  have dir: "tame_dir fs ls ht d" using Suc.prems(1) by (simp add: tame_def)
  show ?case
    unfolding recursiveWatch.simps below_unfold [of fs ls d]
  proof (rule triple_bnd [OF triple_tame_listDir [OF assms(1) dir]], rule triple_pure)
    fix ds assume ds: "{n \<in> set ds. n \<noteq> ''.'' \<and> n \<noteq> ''..''} = subdirs fs ls d"
    have walk: "triple (\<lambda>s. watched (hist s) = W)
      (bnd (sys_add_watch os fd (cstr (d @ ''/'' @ m))) (\<lambda>wd. recursiveWatch n os fd (d @ ''/'' @ m) (fds @ [wd])))
      (\<lambda>_ s. watched (hist s) = W \<union> insert (d @ ''/'' @ m) {q. below fs ls (d @ ''/'' @ m) q}) (\<lambda>_ _. False)"
      if "m \<in> set ds" "m \<noteq> ''.''" "m \<noteq> ''..''" for m W fds
    proof -
      have "m \<in> subdirs fs ls d" using that ds by blast
      note m = tame_child [OF Suc.prems(1) this]
      then have "cstr (d @ ''/'' @ m) = d @ ''/'' @ m" by (intro cstr_id) (simp add: tame_def tame_dir_def)
      moreover have "ht (d @ ''/'' @ m) < n" using m Suc.prems(2) by simp
      ultimately show ?thesis
        using triple_bnd [OF triple_add_watched Suc.IH] m by simp
    qed
    show "triple (\<lambda>s. watched (hist s) = W)
      (for_acc (\<lambda>dir fds. if dir = ''.'' \<or> dir = ''..'' then ret fds
         else bnd (sys_add_watch os fd (cstr (d @ ''/'' @ dir)))
           (\<lambda>wd. recursiveWatch n os fd (d @ ''/'' @ dir) (fds @ [wd]))) ds fds)
      (\<lambda>_ s. watched (hist s) =
         W \<union> (\<Union>n \<in> subdirs fs ls d. insert (d @ ''/'' @ n) {q. below fs ls (d @ ''/'' @ n) q})) (\<lambda>_ _. False)"
      unfolding ds [symmetric]
      by (rule triple_watch_dirs
          [where B = "\<lambda>m. insert (d @ ''/'' @ m) {q. below fs ls (d @ ''/'' @ m) q}"])
         (rule walk)
  qed
qed simp

section \<open>What the walk does\<close>

lemma list_entries_Val:
  "\<exists>st' rs' t. for_acc (list_entry os ft) ns (Some d, rs) s = (Val (Some st', rs @ rs'), t) \<and> subseq rs' ns"
proof (induction ns arbitrary: d rs s)
  case Nil
  show ?case by (simp add: ret_def)
next
  case (Cons n ns)
  obtain d' k t where step: "list_entry os ft n (Some d, rs) s = (Val (Some d', if k then rs @ [n] else rs), t)"
    by (cases "os_lstat os (hist s) n"; cases ft)
       (auto simp: list_entry_def sys_lstat_def sys_call_def bnd_def ret_def Let_def S_ISDIR_def deref_def)
  from Cons.IH [of d' "if k then rs @ [n] else rs" t] obtain st' rs' u where
    "for_acc (list_entry os ft) ns (Some d', if k then rs @ [n] else rs) t =
       (Val (Some st', (if k then rs @ [n] else rs) @ rs'), u)" "subseq rs' ns"
    by blast
  with step show ?case
    by (intro exI [of _ st'] exI [of _ "if k then n # rs' else rs'"] exI [of _ u])
       (auto simp: bnd_def split: if_splits)
qed

text \<open>
  C31. Every outcome of \<open>listDir\<close>, for any system and any kind of file asked for: the path of a file
  that is not there leaves it with an indeterminate \<open>stat\<close> buffer; of something else than a
  directory, with no names; a directory that cannot be opened raises \<open>CException\<close> with the system's
  error; otherwise some of the listed names are returned, in the order listed.
\<close>

theorem listDir_outcome:
  "fst (listDir os path ft s) \<in>
    (case os_lstat os (hist s) (cstr path) of
       None \<Rightarrow> {Stop Undefined}
     | Some False \<Rightarrow> {Val []}
     | Some True \<Rightarrow>
         (case os_dir os (hist s @ [ELstat (cstr path) (Some True)]) (cstr path) of
            Inl e \<Rightarrow> {Stop (Throw (CException os ''opendir'' e))}
          | Inr names \<Rightarrow> Val ` {rs. subseq rs names}))"
proof (cases "os_lstat os (hist s) (cstr path)")
  case None
  then show ?thesis
    by (simp add: listDir_def sys_lstat_def sys_call_def bnd_def ret_def Let_def S_ISDIR_def deref_def halt_def)
next
  case (Some d)
  let ?s = "s\<lparr>hist := hist s @ [ELstat (cstr path) (Some d)]\<rparr>"
  have eq: "listDir os path ft s = (if \<not> d then ret [] else
       bnd (sys_opendir os (cstr path)) (\<lambda>dirptr.
       case dirptr of
         None \<Rightarrow> throw_CException os ''opendir''
       | Some names \<Rightarrow> bnd (for_acc (list_entry os ft) names (Some d, [])) (\<lambda>(st, rs). ret rs))) ?s"
    using Some by (cases d) (simp_all add: listDir_def bnd_lstat S_ISDIR_def deref_def)
  show ?thesis
  proof (cases d)
    case True
    show ?thesis
    proof (cases "os_dir os (hist ?s) (cstr path)")
      case (Inl e)
      with Some True show ?thesis
        by (simp add: eq sys_opendir_def sys_call_def bnd_def ret_def Let_def throw_CException_def
            gets_def halt_def)
    next
      case (Inr names)
      obtain st' rs t where "for_acc (list_entry os ft) names (Some True, [])
          (s\<lparr>hist := hist s @ [ELstat (cstr path) (Some True), EDir (cstr path) (Some names)]\<rparr>) =
          (Val (Some st', rs), t)" "subseq rs names"
        using list_entries_Val [of os ft names True "[]"] by fastforce
      with Inr Some True show ?thesis
        by (auto simp: eq sys_opendir_def sys_call_def bnd_def ret_def Let_def)
    qed
  qed (use Some in \<open>simp add: eq ret_def\<close>)
qed

text \<open>
  C22. On a tree whose entries are named so that the current directory agrees with them on the type
  of each name, the walk returns, with a depth bound above the height of the tree, and the paths
  watched are exactly those before and all directories below its start; the descriptors handed
  back are those the system gave, in the order in which the watches were set.
\<close>

theorem recursiveWatch_tree:
  assumes "static_fs os fs ls" "tame fs ls ht d" "ht d < n"
    and "map snd (watches (hist s)) = pre @ fds"
  shows "\<exists>fds' t. recursiveWatch n os fd d fds s = (Val fds', t) \<and>
    watched (hist t) = watched (hist s) \<union> {q. below fs ls d q} \<and>
    map snd (watches (hist t)) = pre @ fds'"
proof -
  obtain x t where x: "recursiveWatch n os fd d fds s = (x, t)" by (cases "recursiveWatch n os fd d fds s")
  note tr = triple_recursiveWatch_tame [OF assms(1-3), of "watched (hist s)" fd fds]
  show ?thesis
  proof (cases x)
    case (Val fds')
    from triple_Val [OF tr refl x [unfolded Val]] triple_Val [OF triple_recursiveWatch assms(4) x [unfolded Val]]
    show ?thesis using x Val by blast
  next
    case (Stop e)
    from triple_Stop [OF tr refl x [unfolded Stop]] show ?thesis ..
  qed
qed

text \<open>A project with two directories and one below the first.\<close>

fun demo_fs :: "string \<Rightarrow> bool option" where
  "demo_fs p = (if p \<in> set [''/p'', ''/p/src'', ''/p/lib'', ''/p/src/lib'', ''.'', ''..'', ''src'', ''lib'']
     then Some True
     else if p \<in> set [d @ ''/'' @ n. d \<leftarrow> [''/p'', ''/p/src'', ''/p/lib'', ''/p/src/lib''], n \<leftarrow> [''.'', ''..'']]
     then Some True else None)"

fun demo_ls :: "string \<Rightarrow> int + string list" where
  "demo_ls p =
     (if p = ''/p'' then Inr [''.'', ''..'', ''src'', ''lib'']
      else if p = ''/p/src'' then Inr [''.'', ''..'', ''lib'']
      else if p = ''/p/lib'' \<or> p = ''/p/src/lib'' then Inr [''.'', ''..''] else Inl 2)"

lemma demo_below: "{q. below demo_fs demo_ls ''/p'' q} = {''/p/src'', ''/p/lib'', ''/p/src/lib''}"
proof -
  have sub: "subdirs demo_fs demo_ls ''/p'' = {''src'', ''lib''}" "subdirs demo_fs demo_ls ''/p/src'' = {''lib''}"
      "subdirs demo_fs demo_ls ''/p/lib'' = {}" "subdirs demo_fs demo_ls ''/p/src/lib'' = {}"
    by (auto simp: subdirs_def)
  have "{q. below demo_fs demo_ls ''/p/lib'' q} = {}" "{q. below demo_fs demo_ls ''/p/src/lib'' q} = {}"
    by (subst below_unfold, simp add: sub)+
  moreover from this have "{q. below demo_fs demo_ls ''/p/src'' q} = {''/p/src/lib''}"
    by (subst below_unfold) (auto simp: sub)
  ultimately show ?thesis by (subst below_unfold) (auto simp: sub)
qed

lemma demo_tame: "tame demo_fs demo_ls (\<lambda>q. 20 - length q) ''/p''"
proof -
  have "tame_dir demo_fs demo_ls (\<lambda>q. 20 - length q) q"
    if "q \<in> {''/p'', ''/p/src'', ''/p/lib'', ''/p/src/lib''}" for q
    using that by (auto simp: tame_dir_def subdirs_def)
  then show ?thesis
    using demo_below unfolding tame_def by blast
qed

definition tree_os :: os where
  "tree_os = (demo_os (\<lambda>p. 0))\<lparr>os_lstat := \<lambda>h. demo_fs, os_dir := \<lambda>h. demo_ls\<rparr>"

theorem recursiveWatch_tree_witness:
  "\<exists>fds t. recursiveWatch 20 tree_os 3 ''/p'' [] sys0 = (Val fds, t) \<and>
     watched (hist t) = {''/p/src'', ''/p/lib'', ''/p/src/lib''} \<and> map snd (watches (hist t)) = fds"
proof -
  have "static_fs tree_os demo_fs demo_ls" by (simp add: static_fs_def tree_os_def)
  from recursiveWatch_tree [OF this demo_tame, of 20 sys0 "[]" "[]" 3] show ?thesis
    by (simp add: demo_below sys0_def watched_def)
qed

text \<open>
  C39. Which subdirectories \<open>listDir\<close> finds in a file system that holds still: the listed names that
  are directories as they stand, that is in the current directory and not in the one listed; where
  there is no such file, the name is kept if the entry before was taken for a directory. The
  subdirectories of a listed directory are found only as far as the two happen to agree.
\<close>

theorem listDir_bare_names:
  assumes "static_fs os fs ls" "fs (cstr path) = Some True" "ls (cstr path) = Inr ns"
  shows "\<exists>t. listDir os path DIRECTORY s = (Val (keep_dirs fs True ns), t)"
  by (rule listDir_static [OF assms])

text \<open>
  In the tree above, with a plain file \<open>/p/lib\<close> in the current directory, the directory \<open>/p/src/lib\<close>
  is not found.
\<close>

definition clash_fs :: "string \<Rightarrow> bool option" where
  "clash_fs p = (if p = ''lib'' \<or> p = ''/p/lib'' then Some False else demo_fs p)"

theorem listDir_bare_names_witness:
  "(\<exists>t. listDir (tree_os\<lparr>os_lstat := \<lambda>h p. clash_fs p\<rparr>) ''/p/src'' DIRECTORY sys0 = (Val [''.'', ''..''], t)) \<and>
   clash_fs ''/p/src/lib'' = Some True \<and> demo_ls ''/p/src'' = Inr [''.'', ''..'', ''lib'']"
proof -
  have "static_fs (tree_os\<lparr>os_lstat := \<lambda>h p. clash_fs p\<rparr>) clash_fs demo_ls"
    by (simp add: static_fs_def tree_os_def)
  moreover have "cstr ''/p/src'' = ''/p/src''" by (simp add: cstr_def)
  ultimately have "\<exists>t. listDir (tree_os\<lparr>os_lstat := \<lambda>h p. clash_fs p\<rparr>) ''/p/src'' DIRECTORY sys0 =
      (Val (keep_dirs clash_fs True [''.'', ''..'', ''lib'']), t)"
    by (intro listDir_bare_names [of _ clash_fs demo_ls]) (simp_all add: clash_fs_def)
  then show ?thesis by (simp add: clash_fs_def)
qed

end
