(* ===== verification/Config.thy ===== *)
theory Config
  imports ProcMan Glob Dirs "HOL-Library.Multiset"
begin

text \<open>
  The class \<open>Config\<close> (src/src/config.hpp, src/src/config.cpp, src/src/config_sections.hpp): finding and
  reading renzoku.conf, its sections, and the processes the sections ask for, which are handed to
  the \<open>ProcessManager\<close>.

  YAML is read with yaml-cpp, which is not code of the repository: the node type and the operations
  on nodes are the parameter \<open>yaml\<close>.
\<close>

section \<open>The YAML library\<close>

datatype NodeType = Undefined_node | Null | Scalar | Sequence | Map

text \<open>
  A value of \<open>YAML::const_iterator\<close> is a node and a pair of nodes: over a sequence the node is the
  item, over a map the pair is the key and its value. Of the other part nothing is assumed.
  \<open>y_load\<close> reads a document, \<open>y_valid\<close> is the conversion of a node to \<open>bool\<close>, \<open>y_lookup\<close> is the
  operator \<open>[]\<close>, and the two conversions give a value or what they throw.
\<close>

record 'n yaml =
  y_load :: "string \<Rightarrow> exn + 'n"
  y_valid :: "'n \<Rightarrow> bool"
  y_type :: "'n \<Rightarrow> NodeType"
  y_lookup :: "'n \<Rightarrow> string \<Rightarrow> 'n"
  y_size :: "'n \<Rightarrow> nat"
  y_iter :: "'n \<Rightarrow> ('n \<times> 'n \<times> 'n) list"
  y_string :: "'n \<Rightarrow> exn + string"
  y_bool :: "'n \<Rightarrow> exn + bool"

definition lift_exn :: "exn + 'a \<Rightarrow> 'a io" where
  "lift_exn r = (case r of Inl e \<Rightarrow> halt (Throw e) | Inr x \<Rightarrow> ret x)"

definition as_string :: "'n yaml \<Rightarrow> 'n \<Rightarrow> string io" where
  "as_string y n = lift_exn (y_string y n)"

definition as_bool :: "'n yaml \<Rightarrow> 'n \<Rightarrow> bool io" where
  "as_bool y n = lift_exn (y_bool y n)"

definition assert_that :: "bool \<Rightarrow> unit io" where
  "assert_that b = (if b then ret () else halt Assert_failed)"

section \<open>The sections\<close>

text \<open>
  The section structures and the class with its members. \<open>ignore_states\<close> is never filled, and the
  vector \<open>sections\<close> of sliced copies holds nothing.
\<close>

record WatchConfig =
  filters :: "string list"
  included :: "string list"
  excluded :: "string list"

record CommandConfig =
  enabled :: bool
  cmd :: "nat option"

record config =
  mWatch :: WatchConfig
  mCompile :: CommandConfig
  mTest :: CommandConfig
  mProgramConfig :: CommandConfig

definition new_CommandConfig :: CommandConfig where
  "new_CommandConfig = \<lparr>enabled = True, cmd = None\<rparr>"

definition empty_Config :: config where
  "empty_Config = \<lparr>mWatch = \<lparr>filters = [], included = [], excluded = []\<rparr>,
     mCompile = new_CommandConfig, mTest = new_CommandConfig, mProgramConfig = new_CommandConfig\<rparr>"

definition getWatchConfig :: "config \<Rightarrow> WatchConfig" where
  "getWatchConfig c = mWatch c"

definition getCompileConfig :: "config \<Rightarrow> CommandConfig" where
  "getCompileConfig c = mCompile c"

definition getTestConfig :: "config \<Rightarrow> CommandConfig" where
  "getTestConfig c = mTest c"

definition getProgramConfig :: "config \<Rightarrow> CommandConfig" where
  "getProgramConfig c = mProgramConfig c"

section \<open>A command section\<close>

text \<open>One key of the section and its value (the body of the loop in \<open>Config::parseCommand\<close>).\<close>

definition command_key :: "os \<Rightarrow> iLogger \<Rightarrow> 'n yaml \<Rightarrow> 'n \<times> 'n \<times> 'n \<Rightarrow> CommandConfig \<Rightarrow> CommandConfig io" where
  "command_key os lg y it cc =
     bnd (as_string y (fst (snd it))) (\<lambda>key.
     let value = snd (snd it); key = lowercase key in
     if key = ''command'' then
       (if y_type y value = Scalar then
          bnd (as_string y value) (\<lambda>text.
          thn (LOG os lg DEBUG ''Proc: %s'' [PStr text])
         (bnd (as_string y value) (\<lambda>text.
          bnd (lift_res (parseCommand text)) (\<lambda>v.
          bnd (new_argv v) (\<lambda>a.
            ret (cc\<lparr>cmd := Some a\<rparr>))))))
        else ret cc)
     else if key = ''enabled'' then
       bnd (as_bool y value) (\<lambda>b. ret (cc\<lparr>enabled := b\<rparr>))
     else ret cc)"

definition parseCommandSection :: "os \<Rightarrow> iLogger \<Rightarrow> 'n yaml \<Rightarrow> 'n \<Rightarrow> CommandConfig \<Rightarrow> CommandConfig io" where
  "parseCommandSection os lg y node cc =
     (if 1 \<le> y_size y node \<and> y_type y node = Map
      then for_acc (command_key os lg y) (y_iter y node) cc
      else ret cc)"

section \<open>The watch section\<close>

fun asterisk_count :: "string \<Rightarrow> nat" where
  "asterisk_count [] = 0"
| "asterisk_count (c # val) = (if c = CHR ''*'' then 1 else 0) + asterisk_count val"

definition complain :: "string \<Rightarrow> unit io" where
  "complain text = sys_write Stderr text"

definition add_filter :: "os \<Rightarrow> iLogger \<Rightarrow> 'n yaml \<Rightarrow> 'n \<times> 'n \<times> 'n \<Rightarrow> WatchConfig \<Rightarrow> WatchConfig io" where
  "add_filter os lg y it w =
     bnd (as_string y (fst it)) (\<lambda>val.
     thn (LOG os lg DEBUG ''Filter: %s'' [PStr val])
    (if 1 < asterisk_count val then halt (Throw (Runtime_error ''Could not open file''))
     else ret (w\<lparr>filters := filters w @ [val]\<rparr>)))"

definition add_include :: "os \<Rightarrow> iLogger \<Rightarrow> 'n yaml \<Rightarrow> 'n \<Rightarrow> WatchConfig \<Rightarrow> WatchConfig io" where
  "add_include os lg y node w =
     bnd (as_string y node) (\<lambda>text.
     thn (LOG os lg DEBUG ''Include: %s'' [PStr text])
    (bnd (as_string y node) (\<lambda>text. ret (w\<lparr>included := included w @ [text]\<rparr>))))"

definition add_exclude :: "os \<Rightarrow> iLogger \<Rightarrow> 'n yaml \<Rightarrow> 'n \<Rightarrow> WatchConfig \<Rightarrow> WatchConfig io" where
  "add_exclude os lg y node w =
     bnd (as_string y node) (\<lambda>text.
     thn (LOG os lg DEBUG ''Exclude: %s'' [PStr text])
    (bnd (as_string y node) (\<lambda>text. ret (w\<lparr>excluded := excluded w @ [text]\<rparr>))))"

text \<open>The keys \<open>include\<close> and \<open>exclude\<close> take a sequence or a scalar.\<close>

definition one_or_many :: "'n yaml \<Rightarrow> 'n \<Rightarrow> ('n \<Rightarrow> WatchConfig \<Rightarrow> WatchConfig io) \<Rightarrow> WatchConfig \<Rightarrow>
    WatchConfig io" where
  "one_or_many y value add w =
     thn (if y_type y value \<noteq> Sequence \<and> y_type y value \<noteq> Scalar then complain (''ERROR!'' @ [CHR 0x0A]) else ret ())
    (if y_type y value = Sequence then for_acc (\<lambda>it. add (fst it)) (y_iter y value) w
     else if y_type y value = Scalar then add value w
     else ret w)"

definition watch_key :: "os \<Rightarrow> iLogger \<Rightarrow> 'n yaml \<Rightarrow> 'n \<times> 'n \<times> 'n \<Rightarrow> WatchConfig \<Rightarrow> WatchConfig io" where
  "watch_key os lg y it w =
     bnd (as_string y (fst (snd it))) (\<lambda>key.
     let value = snd (snd it); key = lowercase key in
     if key = ''filter'' then
       thn (if y_type y value \<noteq> Sequence then complain (''ERROR!'' @ [CHR 0x0A]) else ret ())
           (for_acc (add_filter os lg y) (y_iter y value) w)
     else if key = ''include'' then one_or_many y value (add_include os lg y) w
     else if key = ''exclude'' then one_or_many y value (add_exclude os lg y) w
     else
       bnd (as_string y value) (\<lambda>text.
       thn (LOG os lg DEBUG (''Value: %s'' @ [CHR 0x0A]) [PStr text]) (ret w)))"

definition parseWatcher :: "os \<Rightarrow> iLogger \<Rightarrow> 'n yaml \<Rightarrow> 'n \<Rightarrow> WatchConfig \<Rightarrow> WatchConfig io" where
  "parseWatcher os lg y node w =
     (if 1 \<le> y_size y node \<and> y_type y node = Map
      then for_acc (watch_key os lg y) (y_iter y node) w
      else ret w)"

section \<open>The file\<close>

text \<open>A process for a section, if the section has a command and is enabled.\<close>

definition section_process :: "CommandConfig \<Rightarrow> nat option io" where
  "section_process cc =
     (case cmd cc of
        None \<Rightarrow> ret None
      | Some a \<Rightarrow> if enabled cc then bnd (new_Process a True) (\<lambda>p. ret (Some p)) else ret None)"

text \<open>The four sections: what each does to the configuration and to the manager.\<close>

definition watch_section :: "os \<Rightarrow> iLogger \<Rightarrow> 'n yaml \<Rightarrow> 'n \<Rightarrow> config \<Rightarrow> procman \<Rightarrow> (config \<times> procman) io" where
  "watch_section os lg y node c pm =
     bnd (parseWatcher os lg y node (mWatch c)) (\<lambda>w. ret (c\<lparr>mWatch := w\<rparr>, pm))"

definition program_section :: "os \<Rightarrow> iLogger \<Rightarrow> 'n yaml \<Rightarrow> 'n \<Rightarrow> config \<Rightarrow> procman \<Rightarrow> (config \<times> procman) io" where
  "program_section os lg y node c pm =
     bnd (parseCommandSection os lg y node (mProgramConfig c)) (\<lambda>cc.
     if getProgram pm \<noteq> None then halt (Throw (Runtime_error ''Program already set!''))
     else
       bnd (section_process cc) (\<lambda>p.
       case p of
         None \<Rightarrow> ret (c\<lparr>mProgramConfig := cc\<rparr>, pm)
       | Some q \<Rightarrow> bnd (setProgram (Some q) pm) (\<lambda>pm. ret (c\<lparr>mProgramConfig := cc\<rparr>, pm))))"

definition test_section :: "os \<Rightarrow> iLogger \<Rightarrow> 'n yaml \<Rightarrow> 'n \<Rightarrow> config \<Rightarrow> procman \<Rightarrow> (config \<times> procman) io" where
  "test_section os lg y node c pm =
     bnd (parseCommandSection os lg y node (mTest c)) (\<lambda>cc.
     bnd (section_process cc) (\<lambda>p.
     case p of
       None \<Rightarrow> ret (c\<lparr>mTest := cc\<rparr>, pm)
     | Some q \<Rightarrow> ret (c\<lparr>mTest := cc\<rparr>, addProcess q pm)))"

definition compile_section :: "os \<Rightarrow> iLogger \<Rightarrow> 'n yaml \<Rightarrow> 'n \<Rightarrow> config \<Rightarrow> procman \<Rightarrow> (config \<times> procman) io" where
  "compile_section os lg y node c pm =
     bnd (parseCommandSection os lg y node (mCompile c)) (\<lambda>cc.
     if getBuildStep pm \<noteq> None then halt (Throw (Runtime_error ''BuildStage already set!''))
     else
       bnd (section_process cc) (\<lambda>p.
       case p of
         None \<Rightarrow> ret (c\<lparr>mCompile := cc\<rparr>, pm)
       | Some q \<Rightarrow> bnd (setBuilder (Some q) pm) (\<lambda>pm. ret (c\<lparr>mCompile := cc\<rparr>, pm))))"

lemmas section_defs = watch_section_def program_section_def test_section_def compile_section_def

text \<open>One section of the document (the body of the loop in \<open>parseConfig\<close>).\<close>

definition section_key :: "os \<Rightarrow> iLogger \<Rightarrow> 'n yaml \<Rightarrow> 'n \<times> 'n \<times> 'n \<Rightarrow> config \<times> procman \<Rightarrow>
    (config \<times> procman) io" where
  "section_key os lg y it = (\<lambda>(c, pm).
     thn (assert_that (y_type y (snd (snd it)) = Map))
    (bnd (as_string y (fst (snd it))) (\<lambda>key.
     let value = snd (snd it); key = lowercase_r key in
     if key = ''watch'' then watch_section os lg y value c pm
     else if key = ''program'' then program_section os lg y value c pm
     else if key = ''test'' then test_section os lg y value c pm
     else if key = ''compile'' then compile_section os lg y value c pm
     else
       thn (complain (''Found an error! -'' @ key @ [CHR 0x0A]))
           (halt (Throw (Runtime_error ''Found a config error!''))))))"

definition parseConfig :: "os \<Rightarrow> iLogger \<Rightarrow> 'n yaml \<Rightarrow> string \<Rightarrow> config \<times> procman \<Rightarrow> (config \<times> procman) io" where
  "parseConfig os lg y file cp =
     bnd (lift_exn (y_load y file)) (\<lambda>doc.
     thn (assert_that (y_valid y doc))
    (thn (assert_that (y_type y doc = Map))
    (thn (assert_that (y_type y doc = Map))
    (thn (assert_that (y_valid y (y_lookup y doc ''watch'')))
    (thn (assert_that (y_valid y (y_lookup y doc ''program'')))
         (for_acc (section_key os lg y) (y_iter y doc) cp))))))"

text \<open>The constructors: on a stream, and on the file in the current directory.\<close>

definition CONFIG_NAME :: string where
  "CONFIG_NAME = ''renzoku.conf''"

definition findConfig :: "os \<Rightarrow> string io" where
  "findConfig os =
     bnd (sys_call (\<lambda>h. os_file os h CONFIG_NAME) (\<lambda>r. EOpen CONFIG_NAME (r \<noteq> None)) (\<lambda>_. None)) (\<lambda>is.
     case is of
       None \<Rightarrow> halt (Throw (Runtime_error ''Could not open file''))
     | Some content \<Rightarrow> ret content)"

definition new_Config_stream :: "os \<Rightarrow> iLogger \<Rightarrow> 'n yaml \<Rightarrow> procman \<Rightarrow> string \<Rightarrow> (config \<times> procman) io" where
  "new_Config_stream os lg y pm file = parseConfig os lg y file (empty_Config, pm)"

definition new_Config :: "os \<Rightarrow> iLogger \<Rightarrow> 'n yaml \<Rightarrow> procman \<Rightarrow> (config \<times> procman) io" where
  "new_Config os lg y pm =
     bnd (findConfig os) (\<lambda>file. parseConfig os lg y file (empty_Config, pm))"

definition restartProcesses :: "os \<Rightarrow> iLogger \<Rightarrow> procman \<Rightarrow> unit io" where
  "restartProcesses os lg pm = restartAll os lg pm"

text \<open>The destructor.\<close>

definition free_command :: "CommandConfig \<Rightarrow> unit io" where
  "free_command cc = (case cmd cc of None \<Rightarrow> ret () | Some a \<Rightarrow> free_argv a)"

definition delete_Config :: "config \<Rightarrow> unit io" where
  "delete_Config c =
     thn (free_command (mCompile c))
    (thn (free_command (mTest c))
         (free_command (mProgramConfig c)))"

section \<open>The heap while the configuration is read\<close>

text \<open>
  Reading stops only by an exception or a failed assertion, never by undefined behaviour, and it
  starts no process: \<open>heap_is\<close> fixes the two heaps and the set of children.
\<close>

fun polite :: "stop \<Rightarrow> bool" where
  "polite (Throw _) = True"
| "polite Assert_failed = True"
| "polite _ = False"

definition heap_is :: "process option list \<Rightarrow> string list option list \<Rightarrow> int set \<Rightarrow> sys \<Rightarrow> bool" where
  "heap_is P V K s \<longleftrightarrow> procs s = P \<and> argvs s = V \<and> kids (hist s) = K"

lemma heap_is_calm:
  assumes "calm m" "\<And>s e t. m s = (Stop e, t) \<Longrightarrow> E e t"
  shows "triple (heap_is P V K) m (\<lambda>_. heap_is P V K) E"
proof (rule tripleI)
  fix s x t assume s: "heap_is P V K s" "m s = (Val x, t)"
  show "heap_is P V K t"
    using calm_kids [OF assms(1) s(2)] s(1) by (rule_tac calmD [OF assms(1) s(2)]) (simp add: heap_is_def)
qed (rule assms(2))

lemma heap_thn_LOG [triple_intros]:
  "vformat format as \<noteq> None \<Longrightarrow> triple (heap_is P V K) k Q E \<Longrightarrow>
   triple (heap_is P V K) (thn (LOG os lg level format as) k) Q E"
  by (rule triple_thn [OF heap_is_calm [OF calm_LOG]])
     (metis LOG_core prod.inject res.distinct(1), assumption)

lemma heap_thn_complain [triple_intros]:
  "triple (heap_is P V K) k Q E \<Longrightarrow> triple (heap_is P V K) (thn (complain text) k) Q E"
  by (rule triple_thn [OF heap_is_calm])
     (simp add: complain_def sys_write_def calm_intros, simp add: complain_def sys_write_run)

lemma heap_thn_if [triple_intros]:
  "triple (heap_is P V K) (thn m k) Q E \<Longrightarrow> triple (heap_is P V K) k Q E \<Longrightarrow>
   triple (heap_is P V K) (thn (if b then m else ret ()) k) Q E"
  by simp

lemma bnd_lift_exn [triple_intros]:
  "(\<And>x. triple R (k x) Q (\<lambda>e _. polite e)) \<Longrightarrow> triple R (bnd (lift_exn r) k) Q (\<lambda>e _. polite e)"
  by (cases r) (simp_all add: lift_exn_def triple_halt)

lemma bnd_as_string [triple_intros]:
  "(\<And>x. triple R (k x) Q (\<lambda>e _. polite e)) \<Longrightarrow> triple R (bnd (as_string y n) k) Q (\<lambda>e _. polite e)"
  unfolding as_string_def by (rule bnd_lift_exn)

lemma bnd_as_bool [triple_intros]:
  "(\<And>x. triple R (k x) Q (\<lambda>e _. polite e)) \<Longrightarrow> triple R (bnd (as_bool y n) k) Q (\<lambda>e _. polite e)"
  unfolding as_bool_def by (rule bnd_lift_exn)

lemma thn_assert_that [triple_intros]:
  "(b \<Longrightarrow> triple R k Q (\<lambda>e _. polite e)) \<Longrightarrow> triple R (thn (assert_that b) k) Q (\<lambda>e _. polite e)"
  by (cases b) (simp_all add: assert_that_def thn_def triple_halt)

lemma bnd_parseCommand [triple_intros]:
  "(\<And>v. triple R (k v) Q E) \<Longrightarrow> triple R (bnd (lift_res (parseCommand text)) k) Q E"
  by (simp add: parseCommand_eq lift_res_def)

lemma heap_bnd_new_argv [triple_intros]:
  "triple (heap_is P (V @ [Some v]) K) (k (length V)) Q E \<Longrightarrow>
   triple (heap_is P V K) (bnd (new_argv v) k) Q E"
  by (auto simp: triple_def heap_is_def bnd_def new_argv_run)

lemma heap_bnd_new_proc [triple_intros]:
  "triple (heap_is (P @ [Some \<lparr>mProc = 0, mSearchInPath = b, mGeneratedCommand = False, mEnabled = True,
       mCommand = a\<rparr>]) V K) (k (length P)) Q E \<Longrightarrow>
   triple (heap_is P V K) (bnd (new_Process a b) k) Q E"
  by (auto simp: triple_def heap_is_def bnd_def new_Process_def new_proc_run)

section \<open>A command section owns its last vector\<close>

text \<open>
  Reading a section adds vectors \<open>W\<close> to the heap; the section's command is what it was, or one of
  the new ones.
\<close>

definition fresh_cmd :: "string list option list \<Rightarrow> string list list \<Rightarrow> CommandConfig \<Rightarrow> CommandConfig \<Rightarrow> bool" where
  "fresh_cmd V W cc cc' \<longleftrightarrow> cmd cc' = cmd cc \<or>
     (\<exists>a. cmd cc' = Some a \<and> length V \<le> a \<and> a < length V + length W)"

lemma fresh_cmd_refl: "fresh_cmd V W cc cc"
  by (simp add: fresh_cmd_def)

lemma fresh_cmd_trans:
  "fresh_cmd V W cc cc' \<Longrightarrow> fresh_cmd (V @ map Some W) W' cc' cc'' \<Longrightarrow> fresh_cmd V (W @ W') cc cc''"
  by (auto simp: fresh_cmd_def)

lemma triple_command_key:
  "triple (heap_is P V K) (command_key os lg y it cc)
    (\<lambda>cc' s. \<exists>W. heap_is P (V @ map Some W) K s \<and> fresh_cmd V W cc cc') (\<lambda>e _. polite e)"
proof -
  have same: "\<exists>W. heap_is P (V @ map Some W) K s \<and> fresh_cmd V W cc cc'"
    if "heap_is P V K s" "cmd cc' = cmd cc" for cc' s
    using that by (intro exI [of _ "[]"]) (simp add: fresh_cmd_def)
  have new: "\<exists>W. heap_is P (V @ map Some W) K s \<and> fresh_cmd V W cc (cc\<lparr>cmd := Some (length V)\<rparr>)"
    if "heap_is P (V @ [Some v]) K s" for s v
    using that by (intro exI [of _ "[v]"]) (simp add: fresh_cmd_def)
  show ?thesis
    unfolding command_key_def Let_def
    by (intro triple_intros triple_if) (auto intro: same new)
qed

lemma triple_parseCommandSection:
  "triple (heap_is P V K) (parseCommandSection os lg y node cc)
    (\<lambda>cc' s. \<exists>W. heap_is P (V @ map Some W) K s \<and> fresh_cmd V W cc cc') (\<lambda>e _. polite e)"
  (is "triple _ _ ?I _")
proof -
  have start: "?I cc s" if "heap_is P V K s" for s
    using that by (intro exI [of _ "[]"]) (simp add: fresh_cmd_refl)
  have step: "triple (?I b) (command_key os lg y it b) ?I (\<lambda>e _. polite e)" for it b
  proof (intro triple_ex triple_pure, rule triple_post [OF triple_command_key])
    fix W cc' s
    assume "fresh_cmd V W cc b"
      "\<exists>W'. heap_is P ((V @ map Some W) @ map Some W') K s \<and> fresh_cmd (V @ map Some W) W' b cc'"
    then show "?I cc' s" using fresh_cmd_trans by (metis append_assoc map_append)
  qed
  show ?thesis
    unfolding parseCommandSection_def
    by (intro triple_if triple_ret start triple_pre [OF triple_for_acc [where I = ?I]] step) auto
qed

section \<open>What reading leaves of the history\<close>

text \<open>Reading opens a file, writes messages and asks the time; it makes no other call.\<close>

lemma leaves_sections:
  assumes "\<And>fd out. obs (EOut fd out) = None" "\<And>t. obs (ETime t) = None"
  shows "leaves obs (parseCommandSection os lg y n cc)" "leaves obs (parseWatcher os lg y n wc)"
    and "leaves obs (section_process cc)"
  using assms
  unfolding parseCommandSection_def command_key_def parseWatcher_def watch_key_def add_filter_def one_or_many_def
    add_include_def add_exclude_def section_process_def new_Process_def Let_def
    as_string_def as_bool_def lift_exn_def complain_def sys_write_def
  by (auto intro!: leaves_intros split: option.split sum.split)

lemma leaves_new_Config:
  assumes "\<And>fd out. obs (EOut fd out) = None" "\<And>t. obs (ETime t) = None" "\<And>f b. obs (EOpen f b) = None"
  shows "leaves obs (new_Config os lg y pm)"
  using assms
  unfolding new_Config_def findConfig_def parseConfig_def section_key_def section_defs setProgram_def setBuilder_def
    as_string_def lift_exn_def assert_that_def complain_def sys_write_def Let_def
  by (auto intro!: leaves_intros leaves_sections split: option.split prod.split sum.split)

section \<open>What holds of a configuration that was read\<close>

text \<open>
  The commands of the sections are live vectors, each owned by one section; the processes handed to
  the manager are live, different from each other, and run live vectors they do not own; every
  filter has at most one asterisk.
\<close>

definition single_star :: "WatchConfig \<Rightarrow> bool" where
  "single_star w \<longleftrightarrow> (\<forall>f \<in> set (filters w). asterisk_count f \<le> 1)"

definition opt_list :: "'a option \<Rightarrow> 'a list" where
  "opt_list x = (case x of None \<Rightarrow> [] | Some a \<Rightarrow> [a])"

lemma opt_list_simps [simp]: "opt_list None = []" "opt_list (Some a) = [a]"
  by (simp_all add: opt_list_def)

lemma set_opt_list [simp]: "set (opt_list x) = set_option x"
  by (cases x) simp_all

definition cmd_list :: "config \<Rightarrow> nat list" where
  "cmd_list c = opt_list (cmd (mCompile c)) @ opt_list (cmd (mTest c)) @ opt_list (cmd (mProgramConfig c))"

definition objects :: "procman \<Rightarrow> nat list" where
  "objects pm = mProcesses pm @ opt_list (mBuildStep pm) @ opt_list (mProgram pm)"

definition borrows :: "process option list \<Rightarrow> string list option list \<Rightarrow> nat \<Rightarrow> bool" where
  "borrows P V p \<longleftrightarrow> (\<exists>pr v. slot P p = Some pr \<and> \<not> mGeneratedCommand pr \<and> slot V (mCommand pr) = Some v)"

definition cfg_ok :: "process option list \<Rightarrow> string list option list \<Rightarrow> config \<Rightarrow> procman \<Rightarrow> bool" where
  "cfg_ok P V c pm \<longleftrightarrow> distinct (cmd_list c) \<and> (\<forall>a \<in> set (cmd_list c). slot V a \<noteq> None) \<and>
     distinct (objects pm) \<and> (\<forall>p \<in> set (objects pm). borrows P V p) \<and> single_star (mWatch c)"

lemma borrows_grow: "borrows P V p \<Longrightarrow> borrows (P @ P') (V @ V') p"
  by (auto simp: borrows_def intro: slot_append)

lemma borrows_length: "borrows P V p \<Longrightarrow> p < length P"
  by (auto simp: borrows_def dest: slot_length)

lemma slot_fresh: "length V \<le> a \<Longrightarrow> a < length V + length W \<Longrightarrow> slot (V @ map Some W) a \<noteq> None"
  by (simp add: slot_def nth_append)

lemma slot_grow: "slot V a \<noteq> None \<Longrightarrow> slot (V @ V') a \<noteq> None"
  by (auto intro: slot_append)

lemma slot_not_fresh: "slot V a \<noteq> None \<Longrightarrow> length V \<le> b \<Longrightarrow> a \<noteq> b"
  by (auto dest: slot_length)

text \<open>A section that was read again keeps the configuration well formed.\<close>

lemma cmd_list_update:
  assumes "distinct (cmd_list c)" "\<forall>a \<in> set (cmd_list c). slot V a \<noteq> None"
    and "fresh_cmd V W (sel c) cc"
    and "(sel, c') \<in> {(mCompile, c\<lparr>mCompile := cc\<rparr>), (mTest, c\<lparr>mTest := cc\<rparr>),
                      (mProgramConfig, c\<lparr>mProgramConfig := cc\<rparr>)}"
  shows "distinct (cmd_list c') \<and> (\<forall>a \<in> set (cmd_list c'). slot (V @ map Some W) a \<noteq> None)"
proof (cases "cmd cc = cmd (sel c)")
  case True
  then have "cmd_list c' = cmd_list c" using assms(4) by (auto simp: cmd_list_def)
  with assms(1,2) show ?thesis by (auto intro: slot_append)
next
  case False
  with assms(3) obtain a where a: "cmd cc = Some a" "length V \<le> a" "a < length V + length W"
    by (auto simp: fresh_cmd_def)
  have old: "\<forall>b \<in> set (cmd_list c). slot (V @ map Some W) b \<noteq> None \<and> b \<noteq> a"
    by (intro ballI conjI slot_grow slot_not_fresh [OF _ a(2)]) (use assms(2) in blast)+
  have new: "slot (V @ map Some W) a \<noteq> None" by (rule slot_fresh [OF a(2,3)])
  have "set (cmd_list c') \<subseteq> insert a (set (cmd_list c))"
    using assms(4) a(1) by (auto simp: cmd_list_def)
  moreover have "distinct (cmd_list c')"
  proof -
    have "\<forall>b \<in> set (cmd_list c). b \<noteq> a" using old by blast
    with assms(1) have "distinct (cmd_list (c\<lparr>mCompile := cc\<rparr>))" "distinct (cmd_list (c\<lparr>mTest := cc\<rparr>))"
        "distinct (cmd_list (c\<lparr>mProgramConfig := cc\<rparr>))"
      by (cases "cmd (mCompile c)"; cases "cmd (mTest c)"; cases "cmd (mProgramConfig c)";
          simp add: cmd_list_def a(1))+
    then show ?thesis using assms(4) by blast
  qed
  ultimately show ?thesis using old new by blast
qed

lemma cfg_ok_section:
  assumes "cfg_ok P V c pm" "fresh_cmd V W (sel c) cc"
    and "(sel, c') \<in> {(mCompile, c\<lparr>mCompile := cc\<rparr>), (mTest, c\<lparr>mTest := cc\<rparr>),
                      (mProgramConfig, c\<lparr>mProgramConfig := cc\<rparr>)}"
  shows "cfg_ok P (V @ map Some W) c' pm"
proof -
  have "mWatch c' = mWatch c" using assms(3) by auto
  with assms(1) cmd_list_update [OF _ _ assms(2,3)] borrows_grow [where P' = "[]"] show ?thesis
    by (auto simp: cfg_ok_def)
qed

text \<open>The object made for a section, and the manager that takes it.\<close>

abbreviation section_object :: "nat \<Rightarrow> process" where
  "section_object a \<equiv> \<lparr>mProc = 0, mSearchInPath = True, mGeneratedCommand = False, mEnabled = True,
     mCommand = a\<rparr>"

lemma cfg_ok_new:
  assumes "cfg_ok P V c pm" "slot V a \<noteq> None"
    and "mset (objects pm') = add_mset (length P) (mset (objects pm))"
  shows "cfg_ok (P @ [Some (section_object a)]) V c pm'"
proof -
  have "distinct (objects pm')"
    using assms(1) mset_eq_imp_distinct_iff [of "objects pm'" "length P # objects pm"] assms(3)
    by (auto simp: cfg_ok_def dest: borrows_length)
  moreover have "set (objects pm') = insert (length P) (set (objects pm))"
    using assms(3) by (metis set_mset_add_mset_insert set_mset_mset)
  moreover have "borrows (P @ [Some (section_object a)]) V (length P)"
    using assms(2) by (auto simp: borrows_def)
  ultimately show ?thesis
    using assms(1) borrows_grow [where V' = "[]"] by (auto simp: cfg_ok_def)
qed

lemma bnd_section_process:
  assumes "triple (heap_is P V K) (k None) Q E"
    and "\<And>a. cmd cc = Some a \<Longrightarrow> triple (heap_is (P @ [Some (section_object a)]) V K) (k (Some (length P))) Q E"
  shows "triple (heap_is P V K) (bnd (section_process cc) k) Q E"
proof (cases "cmd cc")
  case (Some a)
  show ?thesis
  proof (cases "enabled cc")
    case True
    have "triple (heap_is P V K) (bnd (new_Process a True) (\<lambda>p. k (Some p))) Q E"
      by (rule heap_bnd_new_proc) (rule assms(2) [OF Some])
    with Some True show ?thesis by (simp add: section_process_def bnd_assoc)
  qed (use Some assms(1) in \<open>simp add: section_process_def\<close>)
qed (use assms(1) in \<open>simp add: section_process_def\<close>)

section \<open>The watch section keeps the heap\<close>

lemma triple_for_single:
  assumes "\<And>it w. single_star w \<Longrightarrow> triple (heap_is P V K) (f it w)
      (\<lambda>w s. heap_is P V K s \<and> single_star w) (\<lambda>e _. polite e)"
    and "single_star w"
  shows "triple (heap_is P V K) (for_acc f xs w) (\<lambda>w s. heap_is P V K s \<and> single_star w) (\<lambda>e _. polite e)"
  by (rule triple_pre [OF triple_for_acc [where I = "\<lambda>w s. heap_is P V K s \<and> single_star w"]])
     (use assms in \<open>auto intro!: triple_pure\<close>)

lemma triple_one_or_many:
  assumes "\<And>n w. single_star w \<Longrightarrow> triple (heap_is P V K) (add n w)
      (\<lambda>w s. heap_is P V K s \<and> single_star w) (\<lambda>e _. polite e)"
    and "single_star w"
  shows "triple (heap_is P V K) (one_or_many y value add w)
    (\<lambda>w s. heap_is P V K s \<and> single_star w) (\<lambda>e _. polite e)"
  unfolding one_or_many_def
  by (intro triple_intros triple_if triple_for_single assms(1)) (simp_all add: assms)

lemma triple_watch_key:
  assumes "single_star w"
  shows "triple (heap_is P V K) (watch_key os lg y it w)
    (\<lambda>w s. heap_is P V K s \<and> single_star w) (\<lambda>e _. polite e)"
proof -
  have filter: "triple (heap_is P V K) (add_filter os lg y it w)
      (\<lambda>w s. heap_is P V K s \<and> single_star w) (\<lambda>e _. polite e)" if "single_star w" for it w
    unfolding add_filter_def
    by (intro triple_intros triple_if) (use that in \<open>auto simp: single_star_def\<close>)
  have incl: "triple (heap_is P V K) (add_include os lg y n w)
      (\<lambda>w s. heap_is P V K s \<and> single_star w) (\<lambda>e _. polite e)" if "single_star w" for n w
    unfolding add_include_def by (intro triple_intros) (use that in \<open>auto simp: single_star_def\<close>)
  have excl: "triple (heap_is P V K) (add_exclude os lg y n w)
      (\<lambda>w s. heap_is P V K s \<and> single_star w) (\<lambda>e _. polite e)" if "single_star w" for n w
    unfolding add_exclude_def by (intro triple_intros) (use that in \<open>auto simp: single_star_def\<close>)
  show ?thesis
    unfolding watch_key_def Let_def
    by (intro triple_intros triple_if triple_for_single triple_one_or_many filter incl excl)
       (use assms in auto)
qed

lemma triple_parseWatcher:
  assumes "single_star w"
  shows "triple (heap_is P V K) (parseWatcher os lg y node w)
    (\<lambda>w s. heap_is P V K s \<and> single_star w) (\<lambda>e _. polite e)"
  unfolding parseWatcher_def
  by (intro triple_if triple_ret triple_for_single triple_watch_key) (use assms in auto)

section \<open>Reading the file\<close>

definition cfg_state :: "int set \<Rightarrow> config \<times> procman \<Rightarrow> sys \<Rightarrow> bool" where
  "cfg_state K cp s \<longleftrightarrow> (\<exists>P V. heap_is P V K s \<and> cfg_ok P V (fst cp) (snd cp))"

lemma cfg_stateI: "heap_is P V K s \<Longrightarrow> cfg_ok P V c pm \<Longrightarrow> cfg_state K (c, pm) s"
  by (auto simp: cfg_state_def)

text \<open>
  A command section and what is done with its process: \<open>sel\<close> is the section, \<open>upd\<close> the configuration
  with it replaced, \<open>k\<close> gives the process to the manager.
\<close>

lemma triple_command_section:
  assumes ok: "cfg_ok P V c pm"
    and sec: "\<And>cc. (sel, upd cc) \<in> {(mCompile, c\<lparr>mCompile := cc\<rparr>), (mTest, c\<lparr>mTest := cc\<rparr>),
                      (mProgramConfig, c\<lparr>mProgramConfig := cc\<rparr>)}"
    and none: "\<And>P V cc. cfg_ok P V (upd cc) pm \<Longrightarrow>
      triple (heap_is P V K) (k cc None) (cfg_state K) (\<lambda>e _. polite e)"
    and some: "\<And>P V cc a. cfg_ok P V (upd cc) pm \<Longrightarrow> slot V a \<noteq> None \<Longrightarrow>
      triple (heap_is (P @ [Some (section_object a)]) V K) (k cc (Some (length P))) (cfg_state K) (\<lambda>e _. polite e)"
  shows "triple (heap_is P V K)
    (bnd (parseCommandSection os lg y value (sel c)) (\<lambda>cc. bnd (section_process cc) (k cc)))
    (cfg_state K) (\<lambda>e _. polite e)"
proof (rule triple_bnd [OF triple_parseCommandSection], intro triple_ex triple_pure)
  fix cc W assume "fresh_cmd V W (sel c) cc"
  note ok' = cfg_ok_section [OF ok this sec]
  have live: "slot (V @ map Some W) a \<noteq> None" if "cmd cc = Some a" for a
    using ok' sec [of cc] that by (auto simp: cfg_ok_def cmd_list_def)
  show "triple (heap_is P (V @ map Some W) K) (bnd (section_process cc) (k cc)) (cfg_state K) (\<lambda>e _. polite e)"
    by (rule bnd_section_process) (rule none [OF ok'], rule some [OF ok' live])
qed

lemma triple_watch_section:
  assumes ok: "cfg_ok P V c pm"
  shows "triple (heap_is P V K) (watch_section os lg y node c pm) (cfg_state K) (\<lambda>e _. polite e)"
  unfolding watch_section_def
  by (rule triple_bnd [OF triple_parseWatcher], use ok in \<open>simp add: cfg_ok_def\<close>,
      rule triple_pure, rule triple_ret, erule cfg_stateI)
     (use ok in \<open>auto simp: cfg_ok_def cmd_list_def\<close>)

lemma triple_test_section:
  assumes ok: "cfg_ok P V c pm"
  shows "triple (heap_is P V K) (test_section os lg y node c pm) (cfg_state K) (\<lambda>e _. polite e)"
proof -
  have upd: "cfg_ok (P @ [Some (section_object a)]) V c' (addProcess (length P) pm)"
    if "cfg_ok P V c' pm" "slot V a \<noteq> None" for P V c' a
    by (rule cfg_ok_new [OF that]) (simp add: objects_def addProcess_def)
  show ?thesis
    unfolding test_section_def
    by (rule triple_command_section [OF ok, where upd = "\<lambda>cc. c\<lparr>mTest := cc\<rparr>"])
       (auto intro!: triple_ret cfg_stateI upd)
qed

text \<open>A second section of its kind is an exception.\<close>

lemma triple_section_twice:
  "triple (heap_is P V K) (bnd (parseCommandSection os lg y node cc) (\<lambda>cc. halt (Throw e)))
    Q (\<lambda>e _. polite e)"
  by (rule triple_bnd [OF triple_parseCommandSection]) (simp add: triple_halt)

lemma triple_program_section:
  assumes ok: "cfg_ok P V c pm"
  shows "triple (heap_is P V K) (program_section os lg y node c pm) (cfg_state K) (\<lambda>e _. polite e)"
proof (cases "mProgram pm")
  case None
  show ?thesis
    unfolding program_section_def getProgram_def None
    by (simp, rule triple_command_section [OF ok, where upd = "\<lambda>cc. c\<lparr>mProgramConfig := cc\<rparr>"])
       (auto intro!: triple_ret cfg_stateI cfg_ok_new simp: setProgram_def objects_def None)
qed (simp add: program_section_def getProgram_def triple_section_twice)

lemma triple_compile_section:
  assumes ok: "cfg_ok P V c pm"
  shows "triple (heap_is P V K) (compile_section os lg y node c pm) (cfg_state K) (\<lambda>e _. polite e)"
proof (cases "mBuildStep pm")
  case None
  show ?thesis
    unfolding compile_section_def getBuildStep_def None
    by (simp, rule triple_command_section [OF ok, where upd = "\<lambda>cc. c\<lparr>mCompile := cc\<rparr>"])
       (auto intro!: triple_ret cfg_stateI cfg_ok_new simp: setBuilder_def objects_def None)
qed (simp add: compile_section_def getBuildStep_def triple_section_twice)

lemma triple_section_key:
  assumes "cfg_ok P V c pm"
  shows "triple (heap_is P V K) (section_key os lg y it (c, pm)) (cfg_state K) (\<lambda>e _. polite e)"
  unfolding section_key_def Let_def prod.case
  by (intro triple_intros triple_if triple_watch_section triple_program_section triple_test_section
      triple_compile_section assms) simp

lemma triple_parseConfig:
  "triple (cfg_state K cp) (parseConfig os lg y file cp) (cfg_state K) (\<lambda>e _. polite e)"
proof -
  have "triple (cfg_state K cp) (section_key os lg y it cp) (cfg_state K) (\<lambda>e _. polite e)" for it cp
    unfolding cfg_state_def [of K cp, abs_def]
    by (intro triple_ex triple_pure) (metis triple_section_key prod.collapse)
  then show ?thesis
    unfolding parseConfig_def by (intro triple_intros triple_for_acc)
qed

text \<open>
  C16. Reading a configuration, whatever the file and whatever the YAML library says of it: it stops
  with an exception or a failed assertion, or returns a well-formed configuration and manager: every
  section owns the live vector of its command, every process the manager got is live, listed once,
  and runs a live vector it does not own, every filter has at most one asterisk; no child was
  started.
\<close>

theorem new_Config_ok:
  "case new_Config_stream os lg y new_ProcessManager file s of
     (Val (c, pm), t) \<Rightarrow> cfg_ok (procs t) (argvs t) c pm \<and> kids (hist t) = kids (hist s)
   | (Stop e, t) \<Rightarrow> polite e"
proof -
  have "cfg_ok (procs s) (argvs s) empty_Config new_ProcessManager"
    by (simp add: cfg_ok_def cmd_list_def objects_def new_ProcessManager_def empty_Config_def
        new_CommandConfig_def single_star_def)
  then have start: "cfg_state (kids (hist s)) (empty_Config, new_ProcessManager) s"
    by (auto simp: cfg_state_def heap_is_def)
  obtain r t where run: "new_Config_stream os lg y new_ProcessManager file s = (r, t)"
    by (cases "new_Config_stream os lg y new_ProcessManager file s")
  note run' = run [unfolded new_Config_stream_def]
  show ?thesis
  proof (cases r)
    case (Val cp)
    from triple_Val [OF triple_parseConfig start run' [unfolded Val]] have "cfg_state (kids (hist s)) cp t" .
    with run Val show ?thesis by (cases cp) (auto simp: cfg_state_def heap_is_def)
  next
    case (Stop e)
    from triple_Stop [OF triple_parseConfig start run' [unfolded Stop]] have "polite e" .
    with run Stop show ?thesis by simp
  qed
qed

section \<open>The configuration of the test suite\<close>

text \<open>
  A YAML library of one document, for the witnesses: nodes are trees, keys are looked up among the
  scalars of a map, and \<open>yes\<close> and \<open>no\<close> are the booleans.
\<close>

datatype ynode = YScalar string | YSequence "ynode list" | YMap "(ynode \<times> ynode) list" | YNone

fun ynode_type :: "ynode \<Rightarrow> NodeType" where
  "ynode_type (YScalar _) = Scalar"
| "ynode_type (YSequence _) = Sequence"
| "ynode_type (YMap _) = Map"
| "ynode_type YNone = Undefined_node"

fun ynode_string :: "ynode \<Rightarrow> exn + string" where
  "ynode_string (YScalar s) = Inr s"
| "ynode_string _ = Inl Bad_conversion"

fun ynode_bool :: "ynode \<Rightarrow> exn + bool" where
  "ynode_bool (YScalar s) = (if s = ''yes'' then Inr True else if s = ''no'' then Inr False else Inl Bad_conversion)"
| "ynode_bool _ = Inl Bad_conversion"

fun ynode_iter :: "ynode \<Rightarrow> (ynode \<times> ynode \<times> ynode) list" where
  "ynode_iter (YSequence ns) = map (\<lambda>n. (n, YNone, YNone)) ns"
| "ynode_iter (YMap kvs) = map (\<lambda>(k, v). (YNone, k, v)) kvs"
| "ynode_iter _ = []"

fun has_key :: "string \<Rightarrow> ynode \<times> ynode \<times> ynode \<Rightarrow> bool" where
  "has_key key (_, YScalar s, _) = (s = key)"
| "has_key key _ = False"

definition ynode_lookup :: "ynode \<Rightarrow> string \<Rightarrow> ynode" where
  "ynode_lookup n key = (case List.find (has_key key) (ynode_iter n) of None \<Rightarrow> YNone | Some (_, _, v) \<Rightarrow> v)"

definition yaml_of :: "ynode \<Rightarrow> ynode yaml" where
  "yaml_of doc =
    \<lparr>y_load = \<lambda>_. Inr doc, y_valid = \<lambda>n. ynode_type n \<noteq> Undefined_node, y_type = ynode_type,
     y_lookup = ynode_lookup, y_size = \<lambda>n. length (ynode_iter n), y_iter = ynode_iter,
     y_string = ynode_string, y_bool = ynode_bool\<rparr>"

lemma yaml_of_simps [simp]:
  "y_load (yaml_of doc) = (\<lambda>_. Inr doc)"
  "y_valid (yaml_of doc) = (\<lambda>n. ynode_type n \<noteq> Undefined_node)"
  "y_type (yaml_of doc) = ynode_type"
  "y_lookup (yaml_of doc) = ynode_lookup"
  "y_size (yaml_of doc) = (\<lambda>n. length (ynode_iter n))"
  "y_iter (yaml_of doc) = ynode_iter"
  "y_string (yaml_of doc) = ynode_string"
  "y_bool (yaml_of doc) = ynode_bool"
  by (simp_all add: yaml_of_def)

text \<open>The document of tests/test_config.cpp, with the name of its first section as a parameter.\<close>

definition test_doc :: "string \<Rightarrow> ynode" where
  "test_doc watch = YMap
    [(YScalar watch, YMap
       [(YScalar ''Filter'', YSequence (map YScalar [''*.cpp'', ''*.hpp'', ''*.c'', ''*.h'', ''include/*.hxx''])),
        (YScalar ''Include'', YScalar ''Makefile''),
        (YScalar ''Exclude'', YScalar ''src/Config.cpp'')]),
     (YScalar ''compile'', YMap [(YScalar ''Command'', YScalar ''make''), (YScalar ''Enabled'', YScalar ''yes'')]),
     (YScalar ''Test'', YMap
       [(YScalar ''command'', YScalar ''make test''),
        (YScalar ''IgnoreStatus'', YSequence (map YScalar [''2'', ''3'', ''4''])),
        (YScalar ''Enabled'', YScalar ''no'')]),
     (YScalar ''program'', YMap
       [(YScalar ''command'', YScalar ''./bin/program --help''), (YScalar ''Enabled'', YScalar ''yes'')])]"

text \<open>
  Symbolic evaluation: the state a message leaves is not computed, only that its heaps are those
  before.
\<close>

definition logged :: "os \<Rightarrow> iLogger \<Rightarrow> LogLevel \<Rightarrow> string \<Rightarrow> parg list \<Rightarrow> sys \<Rightarrow> sys" where
  "logged os lg level format as s = snd (LOG os lg level format as s)"

lemma logged_heap [simp]:
  "procs (logged os lg level format as s) = procs s"
  "argvs (logged os lg level format as s) = argvs s"
  using calm_LOG unfolding logged_def calm_def by auto

lemma LOG_logged:
  "vformat format as \<noteq> None \<Longrightarrow> LOG os lg level format as s = (Val (), logged os lg level format as s)"
  unfolding logged_def using LOG_core [of format as os lg level s] by force

lemma seq_run:
  "bnd m k s = (case m s of (Val x, t) \<Rightarrow> k x t | (Stop e, t) \<Rightarrow> (Stop e, t))"
  "thn m k' s = (case m s of (Val x, t) \<Rightarrow> k' t | (Stop e, t) \<Rightarrow> (Stop e, t))"
  by (simp_all add: bnd_def thn_def)

text \<open>Congruences that keep the simplifier from working below the continuations.\<close>

lemma run_congs:
  "s = s' \<Longrightarrow> bnd m k s = bnd m k s'"
  "s = s' \<Longrightarrow> thn m k' s = thn m k' s'"
  "xs = ys \<Longrightarrow> b = c \<Longrightarrow> s = s' \<Longrightarrow> for_acc f xs b s = for_acc f ys c s'"
  by simp_all

lemma test_words:
  "parseCommand ''make'' = Inr [''make'']"
  "parseCommand ''make test'' = Inr [''make'', ''test'']"
  "parseCommand ''./bin/program --help'' = Inr [''./bin/program'', ''--help'']"
  by (simp_all add: parseCommand_eq cstr_def)

lemma test_keys:
  "lowercase ''Filter'' = ''filter''" "lowercase ''Include'' = ''include''"
  "lowercase ''Exclude'' = ''exclude''" "lowercase ''Command'' = ''command''"
  "lowercase ''command'' = ''command''" "lowercase ''Enabled'' = ''enabled''"
  "lowercase ''IgnoreStatus'' = ''ignorestatus''"
  "lowercase_r ''watch'' = ''watch''" "lowercase_r ''compile'' = ''compile''"
  "lowercase_r ''Test'' = ''test''" "lowercase_r ''program'' = ''program''"
  "lowercase_r ''Watch'' = ''watch''"
  by code_simp+

lemmas config_defs = new_Config_stream_def parseConfig_def section_key_def section_defs parseCommandSection_def
  command_key_def parseWatcher_def watch_key_def add_filter_def add_include_def add_exclude_def
  one_or_many_def section_process_def setProgram_def setBuilder_def getProgram_def getBuildStep_def
  new_Process_def as_string_def as_bool_def lift_exn_def assert_that_def

lemmas config_eval = config_defs Let_def seq_run run_simps LOG_logged new_argv_run new_proc_run
  test_doc_def ynode_lookup_def test_words test_keys empty_Config_def
  new_CommandConfig_def new_ProcessManager_def sys0_def getWatchConfig_def getCompileConfig_def
  getTestConfig_def getProgramConfig_def

text \<open>The four sections, one at a time, from any state.\<close>

definition test_watch :: WatchConfig where
  "test_watch = \<lparr>filters = [''*.cpp'', ''*.hpp'', ''*.c'', ''*.h'', ''include/*.hxx''],
     included = [''Makefile''], excluded = [''src/Config.cpp'']\<rparr>"

lemma read_watch:
  assumes "mWatch c = \<lparr>filters = [], included = [], excluded = []\<rparr>"
    and "watch = ''watch'' \<or> watch = ''Watch''"
  shows "\<exists>t. section_key os lg (yaml_of doc) (ynode_iter (test_doc watch) ! 0) (c, pm) s =
    (Val (c\<lparr>mWatch := test_watch\<rparr>, pm), t) \<and> procs t = procs s \<and> argvs t = argvs s"
  using assms by (auto simp: config_eval test_watch_def simp del: lowercase.simps cong: run_congs)

lemma read_compile:
  assumes "mCompile c = new_CommandConfig" "mBuildStep pm = None"
  shows "\<exists>t. section_key os lg (yaml_of doc) (ynode_iter (test_doc watch) ! 1) (c, pm) s =
    (Val (c\<lparr>mCompile := \<lparr>enabled = True, cmd = Some (length (argvs s))\<rparr>\<rparr>, pm\<lparr>mBuildStep := Some (length (procs s))\<rparr>), t) \<and>
    procs t = procs s @ [Some (section_object (length (argvs s)))] \<and> argvs t = argvs s @ [Some [''make'']]"
  using assms by (simp add: config_eval cong: run_congs del: lowercase.simps)

lemma read_test:
  assumes "mTest c = new_CommandConfig"
  shows "\<exists>t. section_key os lg (yaml_of doc) (ynode_iter (test_doc watch) ! 2) (c, pm) s =
    (Val (c\<lparr>mTest := \<lparr>enabled = False, cmd = Some (length (argvs s))\<rparr>\<rparr>, pm), t) \<and>
    procs t = procs s \<and> argvs t = argvs s @ [Some [''make'', ''test'']]"
  using assms by (simp add: config_eval cong: run_congs del: lowercase.simps)

lemma read_program:
  assumes "mProgramConfig c = new_CommandConfig" "mProgram pm = None"
  shows "\<exists>t. section_key os lg (yaml_of doc) (ynode_iter (test_doc watch) ! 3) (c, pm) s =
    (Val (c\<lparr>mProgramConfig := \<lparr>enabled = True, cmd = Some (length (argvs s))\<rparr>\<rparr>, pm\<lparr>mProgram := Some (length (procs s))\<rparr>), t) \<and>
    procs t = procs s @ [Some (section_object (length (argvs s)))] \<and>
    argvs t = argvs s @ [Some [''./bin/program'', ''--help'']]"
  using assms by (simp add: config_eval cong: run_congs del: lowercase.simps)

lemma test_doc_sections:
  "ynode_iter (test_doc watch) = map ((!) (ynode_iter (test_doc watch))) [0, 1, 2, 3]"
  by (simp add: test_doc_def)

lemma test_doc_types:
  "ynode_type (test_doc watch) = Map"
  "ynode_type (ynode_lookup (test_doc ''watch'') ''watch'') = Map"
  "ynode_type (ynode_lookup (test_doc ''Watch'') ''watch'') = Undefined_node"
  "ynode_type (ynode_lookup (test_doc watch) ''program'') = Map"
  by (simp_all add: test_doc_def ynode_lookup_def)

definition test_config :: config where
  "test_config = \<lparr>mWatch = test_watch, mCompile = \<lparr>enabled = True, cmd = Some 0\<rparr>,
     mTest = \<lparr>enabled = False, cmd = Some 1\<rparr>, mProgramConfig = \<lparr>enabled = True, cmd = Some 2\<rparr>\<rparr>"

definition test_manager :: procman where
  "test_manager = \<lparr>mBuildStep = Some 0, mProcesses = [], mProgram = Some 1\<rparr>"

lemma read_test_doc:
  assumes "procs s = []" "argvs s = []"
  shows "\<exists>t. parseConfig os lg (yaml_of (test_doc ''watch'')) file (empty_Config, new_ProcessManager) s =
      (Val (test_config, test_manager), t) \<and>
    procs t = [Some (section_object 0), Some (section_object 2)] \<and>
    argvs t = [Some [''make''], Some [''make'', ''test''], Some [''./bin/program'', ''--help'']]"
proof -
  let ?read = "\<lambda>i. section_key os lg (yaml_of (test_doc ''watch'')) (ynode_iter (test_doc ''watch'') ! i)"
  let ?c = "empty_Config\<lparr>mWatch := test_watch\<rparr>"
  note e = empty_Config_def new_CommandConfig_def new_ProcessManager_def assms
  obtain t where t: "?read 0 (empty_Config, new_ProcessManager) s = (Val (?c, new_ProcessManager), t)"
      "procs t = []" "argvs t = []"
    using read_watch [of empty_Config "''watch''" os lg "test_doc ''watch''" new_ProcessManager s]
    by (auto simp: e)
  let ?c1 = "?c\<lparr>mCompile := \<lparr>enabled = True, cmd = Some 0\<rparr>\<rparr>"
  let ?pm = "new_ProcessManager\<lparr>mBuildStep := Some 0\<rparr>"
  obtain u where u: "?read 1 (?c, new_ProcessManager) t = (Val (?c1, ?pm), u)"
      "procs u = [Some (section_object 0)]" "argvs u = [Some [''make'']]"
    using read_compile [of ?c new_ProcessManager os lg "test_doc ''watch''" "''watch''" t] t(2,3)
    by (auto simp: e)
  let ?c2 = "?c1\<lparr>mTest := \<lparr>enabled = False, cmd = Some 1\<rparr>\<rparr>"
  obtain v where v: "?read 2 (?c1, ?pm) u = (Val (?c2, ?pm), v)" "procs v = [Some (section_object 0)]"
      "argvs v = [Some [''make''], Some [''make'', ''test'']]"
    using read_test [of ?c1 os lg "test_doc ''watch''" "''watch''" ?pm u] u(2,3) by (auto simp: e)
  obtain w where w: "?read 3 (?c2, ?pm) v = (Val (?c2\<lparr>mProgramConfig := \<lparr>enabled = True, cmd = Some 2\<rparr>\<rparr>,
        ?pm\<lparr>mProgram := Some 1\<rparr>), w)"
      "procs w = [Some (section_object 0), Some (section_object 2)]"
      "argvs w = [Some [''make''], Some [''make'', ''test''], Some [''./bin/program'', ''--help'']]"
    using read_program [of ?c2 ?pm os lg "test_doc ''watch''" "''watch''" v] v(2,3)
    by (auto simp: e numeral_2_eq_2)
  have "for_acc (section_key os lg (yaml_of (test_doc ''watch''))) (ynode_iter (test_doc ''watch''))
      (empty_Config, new_ProcessManager) s =
      (Val (?c2\<lparr>mProgramConfig := \<lparr>enabled = True, cmd = Some 2\<rparr>\<rparr>, ?pm\<lparr>mProgram := Some 1\<rparr>), w)"
    by (subst test_doc_sections) (simp add: seq_run run_simps t(1) u(1) v(1) w(1) del: One_nat_def)
  moreover have "parseConfig os lg (yaml_of (test_doc ''watch'')) file (empty_Config, new_ProcessManager) s =
      for_acc (section_key os lg (yaml_of (test_doc ''watch''))) (ynode_iter (test_doc ''watch''))
      (empty_Config, new_ProcessManager) s"
    by (simp add: parseConfig_def lift_exn_def assert_that_def test_doc_types)
  ultimately show ?thesis
    using w(2,3) by (simp add: e test_config_def test_manager_def)
qed

text \<open>
  What the test suite checks of its document, for every system and logger: the filters,
  includes and excludes; the three commands as argument vectors, the keys in any case; the disabled
  test not given to the manager, which has a build step and a program and no test.
\<close>

theorem test_config_read:
  "case new_Config_stream os lg (yaml_of (test_doc ''watch'')) new_ProcessManager [] sys0 of
     (Val (c, pm), t) \<Rightarrow>
        getWatchConfig c = test_watch \<and>
        getCompileConfig c = \<lparr>enabled = True, cmd = Some 0\<rparr> \<and>
        getTestConfig c = \<lparr>enabled = False, cmd = Some 1\<rparr> \<and>
        getProgramConfig c = \<lparr>enabled = True, cmd = Some 2\<rparr> \<and>
        argvs t = [Some [''make''], Some [''make'', ''test''], Some [''./bin/program'', ''--help'']] \<and>
        pm = \<lparr>mBuildStep = Some 0, mProcesses = [], mProgram = Some 1\<rparr> \<and>
        procs t = [Some (section_object 0), Some (section_object 2)]
   | (Stop e, t) \<Rightarrow> False"
  using read_test_doc [of sys0 os lg "[]"]
  by (auto simp: new_Config_stream_def sys0_def test_config_def test_manager_def getWatchConfig_def
      getCompileConfig_def getTestConfig_def getProgramConfig_def)

text \<open>
  The sections are compared without regard to case, but the check before them is not: with
  \<open>Watch\<close> for \<open>watch\<close> the document is rejected by an assertion, although the section itself would
  be read.
\<close>

theorem capital_section_rejected:
  "fst (new_Config_stream os lg (yaml_of (test_doc ''Watch'')) new_ProcessManager [] s) = Stop Assert_failed \<and>
   (\<exists>t. section_key os lg (yaml_of (test_doc ''Watch'')) (ynode_iter (test_doc ''Watch'') ! 0)
      (empty_Config, new_ProcessManager) s = (Val (empty_Config\<lparr>mWatch := test_watch\<rparr>, new_ProcessManager), t))"
proof
  show "fst (new_Config_stream os lg (yaml_of (test_doc ''Watch'')) new_ProcessManager [] s) = Stop Assert_failed"
    by (simp add: new_Config_stream_def parseConfig_def lift_exn_def assert_that_def test_doc_types
        thn_Stop halt_run)
  show "\<exists>t. section_key os lg (yaml_of (test_doc ''Watch'')) (ynode_iter (test_doc ''Watch'') ! 0)
      (empty_Config, new_ProcessManager) s = (Val (empty_Config\<lparr>mWatch := test_watch\<rparr>, new_ProcessManager), t)"
    using read_watch [of empty_Config "''Watch''" os lg "test_doc ''Watch''" new_ProcessManager s] by (auto simp: empty_Config_def)
qed

end
