(* ===== verification/Inotify.thy ===== *)
theory Inotify
  imports Rules
begin

text \<open>
  The event queue: \<open>struct inotify_event\<close> as the kernel lays it out in the buffer of
  src/src/watcher.hpp, how src/src/watcher.cpp takes it apart by index, the calls \<open>select\<close> and
  \<open>read\<close>, and the round trip between laying events out and reading them back. An event without a name
  is read with whatever stands behind it.
\<close>

unbundle bit_operations_syntax

section \<open>inotify events\<close>

definition IN_MODIFY :: "32 word" where "IN_MODIFY = 0x2"
definition IN_ISDIR :: "32 word" where "IN_ISDIR = 0x40000000"

text \<open>\<open>struct inotify_event\<close>: four words of 32 bits, then \<open>len\<close> bytes of name with zeros behind it.\<close>

record inotify_event =
  ev_wd :: "32 word"
  ev_mask :: "32 word"
  ev_cookie :: "32 word"
  ev_len :: "32 word"
  ev_name :: string

definition EVENT_SIZE :: nat where "EVENT_SIZE = 16"
definition EVENT_BUF_LEN :: nat where "EVENT_BUF_LEN = 1024 * (EVENT_SIZE + 16)"

text \<open>
  The buffer holds the bytes written to it so far. Reading a byte never written, or outside the
  array, is undefined. A read puts its bytes at the front and leaves the rest as it was.
\<close>

definition store_bytes :: "byte list \<Rightarrow> byte list \<Rightarrow> byte list" where
  "store_bytes bs buf = bs @ drop (length bs) buf"

definition byte_at :: "byte list \<Rightarrow> int \<Rightarrow> stop + byte" where
  "byte_at buf i = (if 0 \<le> i \<and> i < int (length buf) then Inr (buf ! nat i) else Inl Undefined)"

definition u32_at :: "byte list \<Rightarrow> int \<Rightarrow> stop + 32 word" where
  "u32_at buf i =
     ebnd (byte_at buf i) (\<lambda>b0. ebnd (byte_at buf (i + 1)) (\<lambda>b1.
     ebnd (byte_at buf (i + 2)) (\<lambda>b2. ebnd (byte_at buf (i + 3)) (\<lambda>b3.
       Inr (of_nat (unat b0 + 256 * (unat b1 + 256 * (unat b2 + 256 * unat b3))))))))"

text \<open>A C string in the buffer: the bytes up to the first 0.\<close>

definition cstring_at :: "byte list \<Rightarrow> int \<Rightarrow> stop + string" where
  "cstring_at buf i =
     (let rest = drop (nat i) buf
      in if 0 \<le> i \<and> 0 \<in> set rest then Inr (map (char_of \<circ> unat) (takeWhile (\<lambda>b. b \<noteq> 0) rest))
         else Inl Undefined)"

definition read_event :: "byte list \<Rightarrow> int \<Rightarrow> stop + inotify_event" where
  "read_event buf i =
     ebnd (u32_at buf i) (\<lambda>wd. ebnd (u32_at buf (i + 4)) (\<lambda>mask.
     ebnd (u32_at buf (i + 8)) (\<lambda>cookie. ebnd (u32_at buf (i + 12)) (\<lambda>len.
     ebnd (cstring_at buf (i + 16)) (\<lambda>name.
       Inr \<lparr>ev_wd = wd, ev_mask = mask, ev_cookie = cookie, ev_len = len, ev_name = name\<rparr>)))))"

text \<open>
  \<open>i += EVENT_SIZE + event->len\<close>: the sum is a \<open>size_t\<close>, the assignment converts it to \<open>int\<close>.
\<close>

definition next_index :: "int \<Rightarrow> 32 word \<Rightarrow> int" where
  "next_index i len = sint (word_of_int (i + (int EVENT_SIZE + uint len)) :: 32 word)"

section \<open>Waiting and reading\<close>

definition sys_select :: "os \<Rightarrow> int \<Rightarrow> int io" where
  "sys_select os fd =
     bnd (sys_call (\<lambda>h. os_select os h fd) (\<lambda>(r, e). ESelect fd r) (\<lambda>(r, e). if r < 0 then Some e else None))
         (\<lambda>(r, e). ret r)"

definition sys_read :: "os \<Rightarrow> int \<Rightarrow> nat \<Rightarrow> (int \<times> byte list) io" where
  "sys_read os fd n =
     bnd (sys_call (\<lambda>h. os_read os h fd n) (\<lambda>(r, e, bs). ERead fd r) (\<lambda>(r, e, bs). if r < 0 then Some e else None))
         (\<lambda>(r, e, bs). ret (r, bs))"

lemma calm_select_read [calm_intros]: "calm (sys_select os fd)" "calm (sys_read os fd n)"
  unfolding sys_select_def sys_read_def by (auto intro!: calm_intros split: prod.split)

text \<open>A full buffer holds at most 2048 events; one round more sees that there are no others.\<close>

definition EVENT_FUEL :: nat where "EVENT_FUEL = EVENT_BUF_LEN div EVENT_SIZE + 1"

section \<open>The records in the buffer\<close>

text \<open>How the kernel lays an event out (inotify(7)): little-endian words, the name with its zeros.\<close>

definition le32 :: "32 word \<Rightarrow> byte list" where
  "le32 x = map (\<lambda>k. of_nat (unat x div 256 ^ k mod 256)) [0, 1, 2, 3]"

definition encode_event :: "inotify_event \<Rightarrow> byte list" where
  "encode_event ev = le32 (ev_wd ev) @ le32 (ev_mask ev) @ le32 (ev_cookie ev) @ le32 (ev_len ev) @
     map (of_nat \<circ> of_char) (ev_name ev) @ replicate (unat (ev_len ev) - length (ev_name ev)) 0"

text \<open>
  An event with a name: no 0 in it, and \<open>len\<close> counts at least one 0 behind it.
\<close>

definition named :: "inotify_event \<Rightarrow> bool" where
  "named ev \<longleftrightarrow> CHR 0x00 \<notin> set (ev_name ev) \<and> length (ev_name ev) < unat (ev_len ev)"

lemma unat_byte: "n < 256 \<Longrightarrow> unat (of_nat n :: byte) = n"
  by (simp add: unat_of_nat)

lemma length_le32 [simp]: "length (le32 x) = 4"
  by (simp add: le32_def)

lemma length_encode_event: "named ev \<Longrightarrow> length (encode_event ev) = EVENT_SIZE + unat (ev_len ev)"
  by (simp add: encode_event_def named_def EVENT_SIZE_def)

lemma base256:
  assumes "(n :: nat) < 256 ^ 4"
  shows "n mod 256 + 256 * (n div 256 mod 256 + 256 * (n div 256 ^ 2 mod 256 + 256 * (n div 256 ^ 3 mod 256))) = n"
proof -
  have "n div 256 ^ 2 = n div 256 div 256" "n div 256 ^ 3 = n div 256 div 256 div 256"
    by (simp_all add: div_mult2_eq [symmetric])
  moreover have "n div 256 div 256 div 256 < 256" using assms by (simp add: div_mult2_eq [symmetric] less_mult_imp_div_less)
  moreover note mult_div_mod_eq [of 256 n] mult_div_mod_eq [of 256 "n div 256"]
    mult_div_mod_eq [of 256 "n div 256 div 256"]
  ultimately show ?thesis by simp
qed

lemma u32_le32: "u32_at (le32 x @ post) 0 = Inr x"
proof -
  have "unat x < 256 ^ 4" using unsigned_less [of x, where ?'a = nat] by simp
  note num = base256 [OF this]
  define b :: "nat \<Rightarrow> byte" where "b k = of_nat (unat x div 256 ^ k mod 256)" for k
  have b: "unat (b k) = unat x div 256 ^ k mod 256" for k by (simp only: b_def unat_byte mod_less_divisor)
  have "le32 x = [b 0, b 1, b 2, b 3]" by (simp add: le32_def b_def)
  then have "u32_at (le32 x @ post) 0 =
      Inr (of_nat (unat (b 0) + 256 * (unat (b 1) + 256 * (unat (b 2) + 256 * unat (b 3)))))"
    by (simp add: u32_at_def byte_at_def)
  also have "unat (b 0) + 256 * (unat (b 1) + 256 * (unat (b 2) + 256 * unat (b 3))) = unat x"
    using num by (simp only: b power_0 div_by_1 power_one_right)
  finally show ?thesis by simp
qed

lemma byte_at_append: "0 \<le> i \<Longrightarrow> byte_at (pre @ buf) (int (length pre) + i) = byte_at buf i"
  by (auto simp: byte_at_def nth_append nat_add_distrib)

lemma u32_at_append: "0 \<le> i \<Longrightarrow> u32_at (pre @ buf) (int (length pre) + i) = u32_at buf i"
  using byte_at_append [of _ pre buf] by (simp add: u32_at_def add.assoc)

lemma cstring_at_append: "0 \<le> i \<Longrightarrow> cstring_at (pre @ buf) (int (length pre) + i) = cstring_at buf i"
  by (simp add: cstring_at_def nat_add_distrib Let_def)

lemma read_event_append: "read_event (pre @ buf) (int (length pre)) = read_event buf 0"
  using u32_at_append [of 0 pre buf] u32_at_append [of 4 pre buf] u32_at_append [of 8 pre buf]
    u32_at_append [of 12 pre buf] cstring_at_append [of 16 pre buf]
  by (simp add: read_event_def)

lemma u32_at_le32: "u32_at (pre @ le32 x @ post) (int (length pre)) = Inr x"
  using u32_at_append [of 0 pre "le32 x @ post"] by (simp add: u32_le32)

lemma name_bytes:
  "CHR 0x00 \<notin> set name \<Longrightarrow>
   takeWhile (\<lambda>b. b \<noteq> 0) (map (of_nat \<circ> of_char) name @ 0 # post) = (map (of_nat \<circ> of_char) name :: byte list) \<and>
   map (char_of \<circ> unat) (map (of_nat \<circ> of_char) name :: byte list) = name"
proof (induction name)
  case (Cons c name)
  have c: "of_char c < (256 :: nat)" by (rule nat_of_char_less_256)
  have "(of_char c :: nat) \<noteq> 0"
    using Cons.prems by (cases c) (auto simp: of_char_Char split: if_splits)
  then have "(of_nat (of_char c) :: byte) \<noteq> 0"
    using unat_byte [OF c] by (metis unat_0)
  with Cons unat_byte [OF c] show ?case by simp
qed simp

lemma encode_words:
  "u32_at (encode_event ev @ post) 0 = Inr (ev_wd ev)"
  "u32_at (encode_event ev @ post) 4 = Inr (ev_mask ev)"
  "u32_at (encode_event ev @ post) 8 = Inr (ev_cookie ev)"
  "u32_at (encode_event ev @ post) 12 = Inr (ev_len ev)"
  using u32_at_le32 [of "[]" "ev_wd ev"] u32_at_le32 [of "le32 (ev_wd ev)" "ev_mask ev"]
    u32_at_le32 [of "le32 (ev_wd ev) @ le32 (ev_mask ev)" "ev_cookie ev"]
    u32_at_le32 [of "le32 (ev_wd ev) @ le32 (ev_mask ev) @ le32 (ev_cookie ev)" "ev_len ev"]
  by (simp_all add: encode_event_def)

lemma encode_name:
  assumes "named ev"
  shows "cstring_at (encode_event ev @ post) 16 = Inr (ev_name ev)"
proof -
  let ?n = "map (of_nat \<circ> of_char) (ev_name ev) :: byte list"
  let ?z = "replicate (unat (ev_len ev) - length (ev_name ev)) 0"
  have z: "?z = 0 # tl ?z" using assms by (cases "unat (ev_len ev) - length (ev_name ev)") (auto simp: named_def)
  then have "drop (nat 16) (encode_event ev @ post) = ?n @ 0 # (tl ?z @ post)"
    by (simp add: encode_event_def)
  then show ?thesis
    using name_bytes [of "ev_name ev" "tl ?z @ post"] assms
    by (simp add: cstring_at_def Let_def named_def)
qed

lemma read_encode:
  assumes "named ev"
  shows "read_event (pre @ encode_event ev @ post) (int (length pre)) = Inr ev"
  using read_event_append [of pre "encode_event ev @ post"] encode_words [of ev post]
    encode_name [OF assms, of post]
  by (simp add: read_event_def)

lemma next_index_small:
  "0 \<le> i \<Longrightarrow> i + int EVENT_SIZE + uint len < 2 ^ 31 \<Longrightarrow> next_index i len = i + int EVENT_SIZE + uint len"
  unfolding next_index_def
  by (subst int_word_sint) simp

lemma named_short: "named ev \<Longrightarrow> length (ev_name ev) < 2 ^ 64"
  using unsigned_less [of "ev_len ev", where ?'a = nat] by (simp add: named_def)

section \<open>Events without a name\<close>

text \<open>An event as the kernel writes it, with a name or without.\<close>

definition whole :: "inotify_event \<Rightarrow> bool" where
  "whole ev \<longleftrightarrow> named ev \<or> ev_len ev = 0 \<and> ev_name ev = []"

lemma length_whole: "whole ev \<Longrightarrow> length (encode_event ev) = EVENT_SIZE + unat (ev_len ev)"
  by (auto simp: whole_def length_encode_event) (simp add: encode_event_def EVENT_SIZE_def)

lemma named_len: "named ev \<Longrightarrow> ev_len ev \<noteq> 0"
  by (auto simp: named_def)

text \<open>
  What the code takes a whole event for that has the bytes \<open>rest\<close> behind it: an event without a name
  gets the text that happens to stand there.
\<close>

definition seen_as :: "inotify_event \<Rightarrow> byte list \<Rightarrow> stop + inotify_event" where
  "seen_as ev rest =
     (if ev_len ev = 0 then ebnd (cstring_at rest 0) (\<lambda>name. Inr (ev\<lparr>ev_name := name\<rparr>)) else Inr ev)"

lemma seen_as_named [simp]: "named ev \<Longrightarrow> seen_as ev rest = Inr ev"
  by (auto simp: seen_as_def named_def)

lemma read_whole:
  assumes "whole ev"
  shows "read_event (pre @ encode_event ev @ rest) (int (length pre)) = seen_as ev rest"
proof (cases "named ev")
  case True
  then show ?thesis by (simp add: read_encode)
next
  case False
  with assms have ev: "ev_len ev = 0" "ev_name ev = []" by (auto simp: whole_def)
  then have "length (encode_event ev) = 16" by (simp add: encode_event_def)
  then have "cstring_at (encode_event ev @ rest) 16 = cstring_at rest 0"
    using cstring_at_append [of 0 "encode_event ev" rest] by simp
  then show ?thesis
    using read_event_append [of pre "encode_event ev @ rest"] encode_words [of ev rest] ev
    by (cases "cstring_at rest 0") (simp_all add: read_event_def seen_as_def)
qed

text \<open>A text is found there if a zero byte follows, as in the length of any next event.\<close>

lemma cstring_found: "0 \<in> set rest \<Longrightarrow> \<exists>name. cstring_at rest 0 = Inr name"
  by (simp add: cstring_at_def)

lemma zero_byte:
  assumes "unat (ev_len ev) < 256 ^ 3"
  shows "0 \<in> set (encode_event ev)"
proof -
  have "(0 :: byte) = of_nat (unat (ev_len ev) div 256 ^ 3 mod 256)" using assms by simp
  then have "0 \<in> set (le32 (ev_len ev))" unfolding le32_def set_map by (rule image_eqI) simp
  then show ?thesis by (simp add: encode_event_def)
qed

section \<open>What the queue is assumed to give\<close>

text \<open>
  inotify(7): a read into a buffer of this size gives an error or nothing, or whole events, as many as
  fit the buffer.
\<close>

definition whole_events :: "int \<Rightarrow> byte list \<Rightarrow> bool" where
  "whole_events got bs \<longleftrightarrow> got \<le> 0 \<and> bs = [] \<or>
     (\<exists>evs. (\<forall>ev \<in> set evs. whole ev) \<and> bs = concat (map encode_event evs) \<and> got = int (length bs) \<and>
        length bs \<le> EVENT_BUF_LEN)"

definition inotify_whole :: "os \<Rightarrow> bool" where
  "inotify_whole os \<longleftrightarrow> (\<forall>h fd r e bs. os_read os h fd EVENT_BUF_LEN = (r, e, bs) \<longrightarrow> whole_events r bs)"

text \<open>
  While the watched directories stay in place and the queue does not overflow, all events have names.
  Events without one (\<open>IN_IGNORED\<close> after a directory was removed, \<open>IN_Q_OVERFLOW\<close>) are the case the
  code does not handle.
\<close>

definition inotify_named :: "os \<Rightarrow> bool" where
  "inotify_named os \<longleftrightarrow> (\<forall>h fd r e bs. os_read os h fd EVENT_BUF_LEN = (r, e, bs) \<longrightarrow>
     (r \<le> 0 \<and> bs = []) \<or>
     (\<exists>evs. (\<forall>ev \<in> set evs. named ev) \<and> bs = concat (map encode_event evs) \<and> r = int (length bs) \<and>
        length bs \<le> EVENT_BUF_LEN))"

lemma named_whole: "named ev \<Longrightarrow> whole ev"
  by (simp add: whole_def)

lemma inotify_named_whole: "inotify_named os \<Longrightarrow> inotify_whole os"
  unfolding inotify_whole_def whole_events_def inotify_named_def by (metis named_whole)

lemma length_events: "\<forall>ev \<in> set evs. whole ev \<Longrightarrow> EVENT_SIZE * length evs \<le> length (concat (map encode_event evs))"
  by (induction evs) (auto simp: length_whole)

lemma event_small:
  assumes "ev \<in> set evs" "whole ev" "length (concat (map encode_event evs)) \<le> EVENT_BUF_LEN"
  shows "unat (ev_len ev) < 256 ^ 3"
proof -
  have "length (encode_event ev) \<le> length (concat (map encode_event evs))"
    using assms(1) by (induction evs) auto
  with assms(2,3) show ?thesis by (simp add: length_whole EVENT_BUF_LEN_def EVENT_SIZE_def)
qed

lemma events_fuel:
  assumes "\<forall>ev \<in> set evs. whole ev" "length (concat (map encode_event evs)) \<le> EVENT_BUF_LEN"
  shows "length evs < EVENT_FUEL"
  using length_events [OF assms(1)] assms(2) by (simp add: EVENT_FUEL_def EVENT_SIZE_def EVENT_BUF_LEN_def)

text \<open>Where the index stands after an event.\<close>

lemma next_index_whole:
  assumes "whole ev" "length pre + length (encode_event ev) < 2 ^ 31"
  shows "next_index (int (length pre)) (ev_len ev) = int (length (pre @ encode_event ev))"
proof -
  have "int (length pre + (EVENT_SIZE + unat (ev_len ev))) < int (2 ^ 31)"
    using assms by (simp only: of_nat_less_iff length_whole)
  then have "int (length pre) + int EVENT_SIZE + uint (ev_len ev) < 2 ^ 31"
    unfolding uint_nat by (simp only: of_nat_add of_nat_power of_nat_numeral add.assoc)
  from next_index_small [OF _ this] show ?thesis by (simp add: length_whole [OF assms(1)])
qed

text \<open>The bytes of whole events can be taken apart in one way only.\<close>

lemma encode_inj:
  assumes "whole ev" "whole ev'" "encode_event ev @ r = encode_event ev' @ r'"
  shows "ev = ev' \<and> r = r'"
proof -
  have words: "ev_wd ev = ev_wd ev'" "ev_mask ev = ev_mask ev'" "ev_cookie ev = ev_cookie ev'" "ev_len ev = ev_len ev'"
    using encode_words [of ev r] encode_words [of ev' r'] unfolding assms(3) by simp_all
  then have "length (encode_event ev) = length (encode_event ev')" using assms(1,2) by (simp add: length_whole)
  with assms(3) have eq: "encode_event ev = encode_event ev'" "r = r'" by simp_all
  have "ev_name ev = ev_name ev'"
  proof (cases "ev_len ev = 0")
    case True
    with assms(1,2) words(4) show ?thesis by (auto simp: whole_def named_def)
  next
    case False
    with assms(1,2) words(4) have "named ev" "named ev'" by (auto simp: whole_def)
    from encode_name [OF this(1), of r] encode_name [OF this(2), of r] eq show ?thesis by simp
  qed
  with words eq(2) show ?thesis by simp
qed

lemma events_inj:
  assumes "\<forall>ev \<in> set evs. whole ev" "\<forall>ev \<in> set evs'. whole ev"
    and "concat (map encode_event evs) = concat (map encode_event evs')"
  shows "evs = evs'"
  using assms
proof (induction evs arbitrary: evs')
  case Nil
  then show ?case by (cases evs') (auto simp: encode_event_def le32_def)
next
  case (Cons ev evs)
  then obtain ev' es where e: "evs' = ev' # es"
    by (cases evs') (auto simp: encode_event_def le32_def)
  with Cons.prems encode_inj [of ev ev'] have "ev = ev'" "concat (map encode_event evs) = concat (map encode_event es)"
    by auto
  with Cons.IH [of es] Cons.prems e show ?case by simp
qed

text \<open>
  A read that overreads: the last event has no name, and nothing behind it in the buffer, written by
  earlier and longer reads, ends a text.
\<close>

definition overreads :: "byte list \<Rightarrow> byte list \<Rightarrow> bool" where
  "overreads bs buf \<longleftrightarrow> (\<exists>evs. (\<forall>ev \<in> set evs. whole ev) \<and> evs \<noteq> [] \<and> ev_len (last evs) = 0 \<and>
     bs = concat (map encode_event evs) \<and> 0 \<notin> set (drop (length bs) buf))"

lemma named_no_overread:
  assumes "inotify_named os"
  shows "\<not> overreads (snd (snd (os_read os h fd EVENT_BUF_LEN))) buf"
proof
  assume "overreads (snd (snd (os_read os h fd EVENT_BUF_LEN))) buf"
  then obtain evs where evs: "\<forall>ev \<in> set evs. whole ev" "evs \<noteq> []" "ev_len (last evs) = 0"
      "snd (snd (os_read os h fd EVENT_BUF_LEN)) = concat (map encode_event evs)"
    by (auto simp: overreads_def)
  obtain got e bs where r: "os_read os h fd EVENT_BUF_LEN = (got, e, bs)" by (metis prod_cases3)
  from assms [unfolded inotify_named_def, rule_format, OF r]
  obtain evs' where "\<forall>ev \<in> set evs'. named ev" "bs = concat (map encode_event evs')"
    by (metis concat.simps(1) list.simps(8) empty_iff empty_set)
  moreover from this have "evs = evs'" using evs(1,4) r named_whole by (intro events_inj) auto
  ultimately show False using evs(2,3) last_in_set named_len by blast
qed

section \<open>The round trip\<close>

text \<open>A modified file main.cpp.\<close>

definition demo_event :: inotify_event where
  "demo_event = \<lparr>ev_wd = 1, ev_mask = IN_MODIFY, ev_cookie = 0, ev_len = 16, ev_name = ''main.cpp''\<rparr>"

lemma named_demo: "named demo_event"
  by (simp add: named_def demo_event_def)

lemma demo_bytes: "length (encode_event demo_event) = 32"
  using length_encode_event [OF named_demo] by (simp add: demo_event_def EVENT_SIZE_def)



end
