(* ===== verification/Watcher.thy ===== *)
theory Watcher
  imports Config Inotify
begin

text \<open>
  The class \<open>Watcher\<close> (src/src/watcher.hpp, src/src/watcher.cpp): setting the watches, waiting for
  events, taking the event buffer apart, and reacting to a modified file with a rebuild and a
  restart.

  The buffer is kept as bytes: the records the kernel writes into it are decoded by index as the
  code does, and the round trip with their encoding turns the loop over the buffer into a loop over
  events.
\<close>

section \<open>The class\<close>

record watcher =
  mDirectory :: string
  mRecursive :: bool
  mFDs :: "int list"
  mBuffer :: "byte list"
  mINotify :: int
  mTimer :: int
  mBuilder :: "nat option"

definition watchDirectory :: "nat \<Rightarrow> os \<Rightarrow> watcher \<Rightarrow> watcher io" where
  "watchDirectory depth os w =
     bnd (sys_inotify_init os) (\<lambda>fd.
     let w = w\<lparr>mINotify := fd\<rparr> in
     thn (if mINotify w < 0 then perror os ''inotify_init'' else ret ())
    (bnd (cwd os) (\<lambda>dir.
     bnd (sys_add_watch os (mINotify w) (cstr dir)) (\<lambda>wd.
     let w = w\<lparr>mFDs := mFDs w @ [wd]\<rparr> in
     if mRecursive w then
       bnd (cwd os) (\<lambda>dir.
       bnd (recursiveWatch depth os (mINotify w) dir (mFDs w)) (\<lambda>fds.
         ret (w\<lparr>mFDs := fds\<rparr>)))
     else ret w))))"

definition new_Watcher :: "nat \<Rightarrow> os \<Rightarrow> string \<Rightarrow> procman \<Rightarrow> bool \<Rightarrow> watcher io" where
  "new_Watcher depth os dir pm recursive =
     bnd (sys_time os) (\<lambda>now.
     let w = \<lparr>mDirectory = dir, mRecursive = recursive, mFDs = [], mBuffer = [], mINotify = 0,
              mTimer = now - 15, mBuilder = getBuildStep pm\<rparr> in
     bnd (sys_inotify_init os) (\<lambda>fd.
       watchDirectory depth os (w\<lparr>mINotify := fd\<rparr>)))"

definition delete_Watcher :: "os \<Rightarrow> iLogger \<Rightarrow> procman \<Rightarrow> watcher \<Rightarrow> unit io" where
  "delete_Watcher os lg pm w =
     thn (killAll os lg pm)
    (thn (removeAllWatches os (mINotify w) (mFDs w))
         (sys_close (mINotify w)))"

definition rebuild :: "os \<Rightarrow> iLogger \<Rightarrow> watcher \<Rightarrow> bool io" where
  "rebuild os lg w =
     bnd (deref (mBuilder w)) (\<lambda>b.
     bnd (runAndWait os lg b) (\<lambda>status.
     thn (if status then LOG os lg SUCCESS ''Successfully rebuilt project'' []
          else LOG os lg ERROR ''Project failed to rebuild'' [])
         (ret status)))"

definition restartProgram :: "os \<Rightarrow> iLogger \<Rightarrow> procman \<Rightarrow> unit io" where
  "restartProgram os lg pm = restartProcesses os lg pm"

text \<open>Two operations without a body.\<close>

definition removeWatch :: "string \<Rightarrow> watcher \<Rightarrow> watcher" where
  "removeWatch dir w = w"

definition watchFileType :: "string \<Rightarrow> watcher \<Rightarrow> watcher" where
  "watchFileType ft w = w"

definition modified_text :: string where
  "modified_text = esc ''0;32'' @ ''=> File %s was modified!'' @ esc ''0''"

text \<open>
  One filter against the event's file (the body of the inner loop). \<open>mktime\<close> normalises the
  structure it is given; what it returns for it stays the same.
\<close>

definition on_filter :: "os \<Rightarrow> iLogger \<Rightarrow> procman \<Rightarrow> inotify_event \<Rightarrow> string \<Rightarrow> watcher \<Rightarrow> watcher io" where
  "on_filter os lg pm event str w =
     bnd (lift_res (strMatch str (ev_name event))) (\<lambda>matched.
     if matched then
       thn (LOG os lg INFO modified_text [PStr (ev_name event)])
      (let timediff = os_localtime os (mTimer w);
           timediff = timediff\<lparr>tm_sec := tm_sec timediff + 5\<rparr> in
       bnd (sys_time os) (\<lambda>now.
       if os_mktime os timediff \<le> now then
         bnd (rebuild os lg w) (\<lambda>rebuilt.
         if rebuilt then
           thn (LOG os lg DEBUG ''%ju'' [PMax (os_mktime os timediff)])
          (bnd (sys_time os) (\<lambda>now.
           let w = w\<lparr>mTimer := now\<rparr> in
           thn (restartProgram os lg pm) (ret w)))
         else ret w)
       else ret w))
     else ret w)"

definition on_event :: "os \<Rightarrow> iLogger \<Rightarrow> config \<Rightarrow> procman \<Rightarrow> inotify_event \<Rightarrow> watcher \<Rightarrow> watcher io" where
  "on_event os lg c pm event w =
     thn (LOG os lg DEBUG ''File %s -> 0x%x!'' [PStr (ev_name event), PHex (ev_mask event)])
    (if ev_len event \<noteq> 0 \<and> ev_mask event AND IN_MODIFY \<noteq> 0 \<and> \<not> ev_mask event AND IN_ISDIR \<noteq> 0
     then for_acc (on_filter os lg pm event) (filters (getWatchConfig c)) w
     else ret w)"

text \<open>The loop over the buffer, with a bound on the number of events.\<close>

primrec event_loop :: "nat \<Rightarrow> os \<Rightarrow> iLogger \<Rightarrow> config \<Rightarrow> procman \<Rightarrow> int \<Rightarrow> int \<Rightarrow> watcher \<Rightarrow> watcher io" where
  "event_loop 0 os lg c pm i got w = halt Out_of_fuel"
| "event_loop (Suc n) os lg c pm i got w =
     (if i < got then
        bnd (lift_res (read_event (mBuffer w) i)) (\<lambda>event.
        bnd (on_event os lg c pm event w) (\<lambda>w.
          event_loop n os lg c pm (next_index i (ev_len event)) got w))
      else ret w)"

definition listen :: "os \<Rightarrow> iLogger \<Rightarrow> config \<Rightarrow> procman \<Rightarrow> watcher \<Rightarrow> watcher io" where
  "listen os lg c pm w =
     bnd (sys_select os (mINotify w)) (\<lambda>selval.
     if selval = 1 then
       bnd (sys_read os (mINotify w) EVENT_BUF_LEN) (\<lambda>(got, bytes).
       let w = w\<lparr>mBuffer := store_bytes bytes (mBuffer w)\<rparr> in
       thn (if got \<le> 0 then LOG_ERROR os lg ''read'' else ret ())
      (thn (LOG os lg DEBUG ''Event buffer size: %d'' [PInt got])
           (event_loop EVENT_FUEL os lg c pm 0 got w)))
     else if selval < 0 then thn (LOG_ERROR os lg ''select'') (ret w)
     else ret w)"

section \<open>The loop over the buffer is a loop over events\<close>

lemma triple_any: "triple P m (\<lambda>_ _. True) (\<lambda>_ _. True)"
  by (rule tripleI) simp_all

text \<open>Reacting changes nothing of the watcher but its timer.\<close>

definition same_watch :: "watcher \<Rightarrow> watcher \<Rightarrow> bool" where
  "same_watch w w' \<longleftrightarrow> w' = w\<lparr>mTimer := mTimer w'\<rparr>"

lemma same_watch_refl [simp]: "same_watch w w"
  by (simp add: same_watch_def)

lemma same_watch_timer [simp]: "same_watch w (w\<lparr>mTimer := n\<rparr>)"
  by (simp add: same_watch_def)

lemma same_watch_trans: "same_watch w w' \<Longrightarrow> same_watch w' w'' \<Longrightarrow> same_watch w w''"
  by (cases w; cases w'; cases w'') (simp add: same_watch_def)

lemma same_watchD:
  "same_watch w w' \<Longrightarrow> mBuffer w' = mBuffer w \<and> mBuilder w' = mBuilder w \<and> mINotify w' = mINotify w \<and> mFDs w' = mFDs w"
  by (cases w; cases w') (simp add: same_watch_def)

lemma on_filter_same: "triple (\<lambda>_. True) (on_filter os lg pm ev str w) (\<lambda>w' _. same_watch w w') (\<lambda>_ _. True)"
  unfolding on_filter_def Let_def
  by (intro triple_bnd [OF triple_any] triple_thn [OF triple_any] triple_if triple_ret) simp_all

lemma on_filters_same:
  "triple (\<lambda>_. True) (for_acc (on_filter os lg pm ev) fs w) (\<lambda>w' _. same_watch w w') (\<lambda>_ _. True)"
proof (rule triple_pre [OF triple_for_acc [where I = "\<lambda>w' _. same_watch w w'"]])
  fix str w'
  show "triple (\<lambda>_. same_watch w w') (on_filter os lg pm ev str w') (\<lambda>w' _. same_watch w w') (\<lambda>_ _. True)"
    using triple_pure [where P = "\<lambda>_. True" and b = "same_watch w w'", OF triple_post [OF on_filter_same]]
      same_watch_trans
    by (simp add: triple_def split: prod.splits res.splits)
qed simp

lemma on_event_same: "triple (\<lambda>_. True) (on_event os lg c pm ev w) (\<lambda>w' _. same_watch w w') (\<lambda>_ _. True)"
  unfolding on_event_def
  by (intro triple_thn [OF triple_any] triple_if on_filters_same triple_ret) simp

lemma bnd_cong_result: "(\<And>s x t. m s = (Val x, t) \<Longrightarrow> k x = k' x) \<Longrightarrow> bnd m k = bnd m k'"
  by (rule ext) (auto simp: bnd_def split: prod.split res.split)

text \<open>
  The loop over a list of events that were laid out with the bytes \<open>rest\<close> behind them.
\<close>

primrec on_events :: "os \<Rightarrow> iLogger \<Rightarrow> config \<Rightarrow> procman \<Rightarrow> byte list \<Rightarrow> inotify_event list \<Rightarrow> watcher \<Rightarrow> watcher io" where
  "on_events os lg c pm rest [] w = ret w"
| "on_events os lg c pm rest (ev # evs) w =
     bnd (lift_res (seen_as ev (concat (map encode_event evs) @ rest))) (\<lambda>ev.
     bnd (on_event os lg c pm ev w) (on_events os lg c pm rest evs))"

lemma on_events_named:
  "\<forall>ev \<in> set evs. named ev \<Longrightarrow> on_events os lg c pm rest evs = for_acc (on_event os lg c pm) evs"
proof (induction evs)
  case (Cons ev evs)
  then show ?case by (intro ext) (simp add: lift_res_def)
qed (simp add: fun_eq_iff)

lemma event_loop_events:
  assumes "\<forall>ev \<in> set evs. whole ev" "length evs < n"
    and "length pre + length (concat (map encode_event evs)) < 2 ^ 31"
    and "mBuffer w = pre @ concat (map encode_event evs) @ rest"
  shows "event_loop n os lg c pm (int (length pre))
      (int (length pre + length (concat (map encode_event evs)))) w = on_events os lg c pm rest evs w"
  using assms
proof (induction evs arbitrary: n pre w)
  case Nil
  then show ?case by (cases n) simp_all
next
  case (Cons ev evs)
  from Cons.prems obtain m where n: "n = Suc m" by (cases n) auto
  let ?pre = "pre @ encode_event ev" and ?tail = "concat (map encode_event evs)"
  let ?stop = "int (length ?pre + length ?tail)"
  have ev: "whole ev" using Cons.prems(1) by simp
  have read: "read_event (mBuffer w) (int (length pre)) = seen_as ev (?tail @ rest)"
    using read_whole [OF ev, of pre "?tail @ rest"] Cons.prems(4) by simp
  have step: "next_index (int (length pre)) (ev_len ev) = int (length ?pre)"
    using next_index_whole [OF ev, of pre] Cons.prems(3) by simp
  have go_on: "bnd (on_event os lg c pm ev' w) (\<lambda>w. event_loop m os lg c pm (int (length ?pre)) ?stop w) =
      bnd (on_event os lg c pm ev' w) (on_events os lg c pm rest evs)" for ev'
  proof (rule bnd_cong_result)
    fix s w' t assume "on_event os lg c pm ev' w s = (Val w', t)"
    from triple_Val [OF on_event_same TrueI this] have "mBuffer w' = mBuffer w"
      by (auto dest: same_watchD)
    then show "event_loop m os lg c pm (int (length ?pre)) ?stop w' = on_events os lg c pm rest evs w'"
      using Cons.prems n by (intro Cons.IH) simp_all
  qed
  have more: "int (length pre) < int (length pre + length (concat (map encode_event (ev # evs))))"
    using length_whole [OF ev] by (simp only: EVENT_SIZE_def list.map concat.simps length_append of_nat_less_iff)
  show ?case
  proof (cases "seen_as ev (?tail @ rest)")
    case (Inl e)
    with read more show ?thesis by (simp add: n lift_res_def)
  next
    case (Inr ev')
    then have "ev_len ev' = ev_len ev"
      by (cases "cstring_at (?tail @ rest) 0") (auto simp: seen_as_def split: if_splits)
    with read more go_on [of ev'] Inr step show ?thesis by (simp add: n lift_res_def add.assoc)
  qed
qed

text \<open>The buffer a read leaves, and what the loop makes of it.\<close>

lemma event_loop_read:
  assumes "\<forall>ev \<in> set evs. whole ev" "length (concat (map encode_event evs)) \<le> EVENT_BUF_LEN"
    and "mBuffer w = concat (map encode_event evs) @ rest"
  shows "event_loop EVENT_FUEL os lg c pm 0 (int (length (concat (map encode_event evs)))) w =
    on_events os lg c pm rest evs w"
  using event_loop_events [OF assms(1) events_fuel [OF assms(1,2)], of "[]" w rest] assms(2,3)
  by (simp add: EVENT_BUF_LEN_def EVENT_SIZE_def)

lemma listen_run:
  assumes "os_select os (hist s) (mINotify w) = (1, e1)"
    and "\<forall>ev \<in> set evs. named ev" "evs \<noteq> []"
    and "length (concat (map encode_event evs)) \<le> EVENT_BUF_LEN"
    and "os_read os (hist s @ [ESelect (mINotify w) 1]) (mINotify w) EVENT_BUF_LEN =
      (int (length (concat (map encode_event evs))), e2, concat (map encode_event evs))"
  shows "listen os lg c pm w s =
    thn (LOG os lg DEBUG ''Event buffer size: %d'' [PInt (int (length (concat (map encode_event evs))))])
        (for_acc (on_event os lg c pm) evs
           (w\<lparr>mBuffer := store_bytes (concat (map encode_event evs)) (mBuffer w)\<rparr>))
      (s\<lparr>hist := hist s @ [ESelect (mINotify w) 1, ERead (mINotify w) (int (length (concat (map encode_event evs))))]\<rparr>)"
proof -
  let ?bs = "concat (map encode_event evs)"
  let ?w = "w\<lparr>mBuffer := store_bytes ?bs (mBuffer w)\<rparr>"
  have "0 < length evs" using assms(3) by simp
  have all: "\<forall>ev \<in> set evs. whole ev" using assms(2) named_whole by blast
  from \<open>0 < length evs\<close> have pos: "0 < length ?bs" using length_events [OF all] unfolding EVENT_SIZE_def by linarith
  then have np: "\<not> int (length ?bs) \<le> 0" by linarith
  have loop: "event_loop EVENT_FUEL os lg c pm 0 (int (length ?bs)) ?w = for_acc (on_event os lg c pm) evs ?w"
    using event_loop_read [OF all assms(4), of ?w "drop (length ?bs) (mBuffer w)"] on_events_named [OF assms(2)]
    by (simp add: store_bytes_def)
  have sel: "sys_select os (mINotify w) s = (Val 1, s\<lparr>hist := hist s @ [ESelect (mINotify w) 1]\<rparr>)"
    using assms(1) by (simp add: sys_select_def sys_call_def bnd_def ret_def Let_def)
  have rd: "sys_read os (mINotify w) EVENT_BUF_LEN (s\<lparr>hist := hist s @ [ESelect (mINotify w) 1]\<rparr>) =
      (Val (int (length ?bs), ?bs),
       s\<lparr>hist := hist s @ [ESelect (mINotify w) 1, ERead (mINotify w) (int (length ?bs))]\<rparr>)"
    using assms(5) by (simp add: sys_read_def sys_call_def bnd_def ret_def Let_def)
  show ?thesis
    unfolding listen_def
    by (simp only: seq_run(1) sel rd prod.case res.case Let_def if_not_P [OF np] if_P thn_ret loop)
qed

text \<open>
  C10. One round of \<open>listen\<close> that finds the descriptor readable and reads whole, named events, as many
  as fit the buffer: whatever the buffer held before, the code takes it apart into exactly these
  events and reacts to them in order; the bound on the loop is never met.
\<close>

theorem listen_events:
  assumes "os_select os (hist s) (mINotify w) = (1, e1)"
    and "\<forall>ev \<in> set evs. named ev" "evs \<noteq> []"
    and "length (concat (map encode_event evs)) \<le> EVENT_BUF_LEN"
    and "os_read os (hist s @ [ESelect (mINotify w) 1]) (mINotify w) EVENT_BUF_LEN =
      (int (length (concat (map encode_event evs))), e2, concat (map encode_event evs))"
  shows "listen os lg c pm w s =
    thn (LOG os lg DEBUG ''Event buffer size: %d'' [PInt (int (length (concat (map encode_event evs))))])
        (for_acc (on_event os lg c pm) evs
           (w\<lparr>mBuffer := store_bytes (concat (map encode_event evs)) (mBuffer w)\<rparr>))
      (s\<lparr>hist := hist s @ [ESelect (mINotify w) 1, ERead (mINotify w) (int (length (concat (map encode_event evs))))]\<rparr>)"
  by (rule listen_run [OF assms])

section \<open>Reacting to one event\<close>

text \<open>
  What the reaction to one matching filter adds to the acts, and what becomes of the manager's pids:
  nothing within five seconds of the last restart; otherwise the build step is run to its end, and only
  if it succeeds everything is restarted (the flag) and the timer set. \<open>reactions\<close> is any number of
  them, one after the other, each going on with the pids the one before left.
\<close>

inductive reaction :: "pids \<Rightarrow> history \<Rightarrow> bool \<Rightarrow> pids \<Rightarrow> bool" where
  too_soon: "reaction ps [] False ps"
| rebuild_failed: "wait_trace r h False \<Longrightarrow> reaction ps h False ps"
| restart: "wait_trace r h True \<Longrightarrow> restart_trace ps h' built ps' \<Longrightarrow> reaction ps (h @ h') True ps'"

inductive reactions :: "pids \<Rightarrow> history \<Rightarrow> pids \<Rightarrow> bool" where
  no_reaction: "reactions ps [] ps"
| one_more: "reactions ps h ps' \<Longrightarrow> reaction ps' h' fired ps'' \<Longrightarrow> reactions ps (h @ h') ps''"

inductive_cases reaction_True: "reaction ps h True ps'"
inductive_cases reaction_False: "reaction ps h False ps'"

lemma modified_text_ok: "vformat modified_text [PStr name] \<noteq> None"
  by (simp add: modified_text_def esc_def)

lemma event_text_ok: "vformat ''File %s -> 0x%x!'' [PStr name, PHex bits] \<noteq> None"
  by simp

lemma bnd_sys_time [triple_intros]:
  assumes "\<And>n. triple (core_is A P V) (k n) Q E"
  shows "triple (core_is A P V) (bnd (sys_time os) k) Q E"
  by (rule triple_core_bndI [where R = "\<lambda>x c. c = (A, P, V)"])
     (use assms in \<open>auto simp: sys_time_def sys_call_def Let_def core_def\<close>)

lemma bnd_lift_strMatch:
  "length str < 2 ^ 64 \<Longrightarrow> length name < 2 ^ 64 \<Longrightarrow> triple R (k (accepts str name)) Q E \<Longrightarrow>
   triple R (bnd (lift_res (strMatch str name)) k) Q E"
  by (simp add: strMatch_accepts lift_res_def)

lemma triple_rebuild:
  assumes "mBuilder w = Some b" "process_ready P V b"
  shows "triple (core_is A P V) (rebuild os lg w)
    (\<lambda>ok s. \<exists>r h. core s = (A @ h, P[b := Some ((the (slot P b))\<lparr>mProc := r\<rparr>)], V) \<and>
       (wait_trace r h ok \<and> (posix os \<longrightarrow> kids (A @ h) = kids A)))
    (\<lambda>e _. child_stop e)"
proof -
  have log: "triple (core_is A P V) (thn (if ok
       then LOG os lg SUCCESS ''Successfully rebuilt project'' []
       else LOG os lg ERROR ''Project failed to rebuild'' []) (ret ok))
     (\<lambda>ok' s. ok' = ok \<and> core s = (A, P, V)) E" for ok A P V E
    by (cases ok) (auto intro!: thn_LOG triple_core_ret)
  show ?thesis
    unfolding rebuild_def
    using assms(1)
    by (simp add: deref_def, intro triple_bnd [OF ops.wait_law [OF assms(2)]] triple_ex triple_pure,
        intro triple_post [OF log]) auto
qed

lemma triple_restart_after_build:
  assumes ready: "procman_ready P V pm b g" and w: "wait_trace r h True"
  shows "triple (core_is (A @ h) (P[b := Some ((the (slot P b))\<lparr>mProc := r\<rparr>)]) V)
    (thn (restartProgram os lg pm) (ret w'))
    (\<lambda>x s. x = w' \<and> (\<exists>P' h'. core s = (A @ h', P', V) \<and> same_procs P P' \<and>
       reaction (pids_of P pm g) h' True (pids_of P' pm g))) (\<lambda>e _. child_stop e)"
    (is "triple (core_is _ ?P V) _ _ _")
proof -
  have b: "slot P b \<noteq> None" "b \<noteq> g" "b \<notin> set (mProcesses pm)"
    using ready process_ready_slot by (auto simp: procman_ready_def)
  have same: "same_procs P ?P" by (rule same_procs_put [OF b(1)])
  have pids: "pids_of ?P pm g = pids_of P pm g" by (rule pids_of_other [OF b(2,3)])
  have "\<exists>P' h'. core s = (A @ h', P', V) \<and> same_procs P P' \<and> reaction (pids_of P pm g) h' True (pids_of P' pm g)"
    if r: "restarted os pm ?P V (A @ h) g s" for s
  proof -
    from r obtain P' h' built where "core s = (A @ h @ h', P', V)" "same_procs ?P P'"
        "restart_trace (pids_of P pm g) h' built (pids_of P' pm g)"
      by (auto simp: restarted_def pids)
    with same_procs_trans [OF same] reaction.restart [OF w] show ?thesis by blast
  qed
  then show ?thesis
    unfolding restartProgram_def restartProcesses_def
    by (intro triple_thn [OF triple_restartAll [OF procman_ready_same [OF ready same]]] triple_ret) simp
qed

text \<open>The reaction once a filter has accepted the file and the time has come; \<open>d\<close> is what is logged of it.\<close>

definition react :: "os \<Rightarrow> iLogger \<Rightarrow> procman \<Rightarrow> int \<Rightarrow> watcher \<Rightarrow> watcher io" where
  "react os lg pm d w =
     bnd (rebuild os lg w) (\<lambda>rebuilt.
     if rebuilt then
       thn (LOG os lg DEBUG ''%ju'' [PMax d])
      (bnd (sys_time os) (\<lambda>now. thn (restartProgram os lg pm) (ret (w\<lparr>mTimer := now\<rparr>))))
     else ret w)"

lemma on_filter_react:
  "on_filter os lg pm ev str w =
     bnd (lift_res (strMatch str (ev_name ev))) (\<lambda>matched.
     if matched then
       thn (LOG os lg INFO modified_text [PStr (ev_name ev)])
      (let d = os_mktime os ((os_localtime os (mTimer w))\<lparr>tm_sec := tm_sec (os_localtime os (mTimer w)) + 5\<rparr>) in
       bnd (sys_time os) (\<lambda>now. if d \<le> now then react os lg pm d w else ret w))
     else ret w)"
  unfolding on_filter_def react_def Let_def by (rule refl)

lemma triple_react:
  assumes ready: "procman_ready P V pm b g" and b: "mBuilder w = Some b"
  shows "triple (core_is A P V) (react os lg pm d w)
    (\<lambda>w' s. \<exists>P' h fired. core s = (A @ h, P', V) \<and> same_procs P P' \<and>
       (if fired then reaction (pids_of P pm g) h True (pids_of P' pm g) \<and> w' = w\<lparr>mTimer := mTimer w'\<rparr>
        else (\<exists>r. wait_trace r h False) \<and> pids_of P' pm g = pids_of P pm g \<and> w' = w))
    (\<lambda>e _. child_stop e)" (is "triple _ _ ?Q _")
proof -
  have pb: "process_ready P V b" "b \<noteq> g" "b \<notin> set (mProcesses pm)" using ready by (auto simp: procman_ready_def)
  have failed: "?Q w s" if "core s = (A @ h, P[b := Some ((the (slot P b))\<lparr>mProc := r\<rparr>)], V)"
      "wait_trace r h False" for s r h
    using that same_procs_put [OF process_ready_slot [OF pb(1)]]
    by (intro exI [of _ "P[b := Some ((the (slot P b))\<lparr>mProc := r\<rparr>)]"] exI [of _ h] exI [of _ False])
       (auto simp: pids_of_other [OF pb(2,3)])
  have restart: "triple (core_is (A @ h) (P[b := Some ((the (slot P b))\<lparr>mProc := r\<rparr>)]) V)
      (thn (restartProgram os lg pm) (ret (w\<lparr>mTimer := n\<rparr>))) ?Q (\<lambda>e _. child_stop e)"
    if "wait_trace r h True" for r h n
    by (rule triple_post [OF triple_restart_after_build [OF ready that]]) fastforce
  have after: "triple (core_is (A @ h) (P[b := Some ((the (slot P b))\<lparr>mProc := r\<rparr>)]) V)
      (if ok then thn (LOG os lg DEBUG ''%ju'' [PMax d])
         (bnd (sys_time os) (\<lambda>now. thn (restartProgram os lg pm) (ret (w\<lparr>mTimer := now\<rparr>)))) else ret w)
      ?Q (\<lambda>e _. child_stop e)"
    if h: "wait_trace r h ok" for r h ok
  proof (cases ok)
    case True
    with h have t: "wait_trace r h True" by simp
    show ?thesis unfolding if_P [OF True] by (intro thn_LOG bnd_sys_time restart [OF t]) simp
  next
    case False
    with h have f: "wait_trace r h False" by simp
    show ?thesis unfolding if_not_P [OF False] by (intro triple_core_ret failed [OF _ f])
  qed
  show ?thesis
    unfolding react_def
    by (intro triple_bnd [OF triple_rebuild [OF b pb(1)]] triple_ex triple_pure after) simp
qed

lemma triple_on_filter:
  assumes ready: "procman_ready P V pm b g" and b: "mBuilder w = Some b"
    and len: "length str < 2 ^ 64" "length (ev_name ev) < 2 ^ 64"
  shows "triple (core_is A P V) (on_filter os lg pm ev str w)
    (\<lambda>w' s. \<exists>P' h fired. core s = (A @ h, P', V) \<and> same_procs P P' \<and>
       reaction (pids_of P pm g) h fired (pids_of P' pm g) \<and>
       (if fired then w' = w\<lparr>mTimer := mTimer w'\<rparr> else w' = w))
    (\<lambda>e _. child_stop e)" (is "triple _ _ ?Q _")
proof -
  have quiet: "?Q w s" if "core s = (A, P, V)" for s
    using that by (intro exI [of _ P] exI [of _ "[]"] exI [of _ False]) (simp add: reaction.too_soon)
  have skip: "triple (core_is A P V) (ret w) ?Q (\<lambda>e _. child_stop e)"
    by (intro triple_core_ret quiet)
  have go: "triple (core_is A P V) (react os lg pm d w) ?Q (\<lambda>e _. child_stop e)" for d
    by (rule triple_post [OF triple_react [OF ready b]]) (metis (full_types) rebuild_failed)
  show ?thesis
    unfolding on_filter_react Let_def
    by (intro bnd_lift_strMatch len triple_if thn_LOG modified_text_ok bnd_sys_time go skip)
qed

section \<open>The invariant of a session\<close>

text \<open>
  What the watcher relies on while it reacts, in three steps. A property \<open>J\<close> of the machine that does not
  depend on anything a bystander does (\<open>calm_closed\<close>); one that the reaction to a filter keeps as well
  (\<open>reactive\<close>), for which the locale carries \<open>J\<close> through whole rounds of listening; one that the build
  step and the restart keep (\<open>restartable\<close>), which is reactive.
\<close>

locale calm_closed =
  fixes J :: "sys \<Rightarrow> bool"
  assumes calm_law: "J s \<Longrightarrow> procs t = procs s \<Longrightarrow> argvs t = argvs s \<Longrightarrow> hist t = hist s @ h \<Longrightarrow>
      list_all bystander h \<Longrightarrow> J t"
begin

lemma calm_run: "calm m \<Longrightarrow> J s \<Longrightarrow> m s = (x, t) \<Longrightarrow> J t"
  by (erule calmD) (auto intro: calm_law)

lemma keep_calm:
  assumes "calm m" "\<And>s e t. J s \<Longrightarrow> m s = (Stop e, t) \<Longrightarrow> E e t"
  shows "triple J m (\<lambda>_. J) E"
  by (rule tripleI) (auto intro: calm_run [OF assms(1)] assms(2))

lemma keep_LOG: "vformat format as \<noteq> None \<Longrightarrow> triple J (LOG os lg level format as) (\<lambda>_. J) E"
  by (rule keep_calm [OF calm_LOG]) (metis LOG_core prod.inject res.distinct(1))

lemma keep_LOG_ERROR: "triple J (LOG_ERROR os lg message) (\<lambda>_. J) E"
  by (rule keep_calm [OF calm_LOG_ERROR]) (metis LOG_ERROR_core prod.inject res.distinct(1))

lemma keep_time: "triple J (sys_time os) (\<lambda>_. J) E"
  by (rule keep_calm [OF calm_time]) (simp add: sys_time_def sys_call_def Let_def)

end

text \<open>No filter fills the address space.\<close>

definition filters_fit :: "config \<Rightarrow> bool" where
  "filters_fit c \<longleftrightarrow> (\<forall>f \<in> set (filters (getWatchConfig c)). length f < 2 ^ 64)"

locale reactive = calm_closed J for J :: "sys \<Rightarrow> bool" +
  fixes os :: os and lg :: iLogger and pm :: procman and b :: nat
  assumes filter_law: "mBuilder w = Some b \<Longrightarrow> length str < 2 ^ 64 \<Longrightarrow> length (ev_name ev) < 2 ^ 64 \<Longrightarrow>
      triple J (on_filter os lg pm ev str w) (\<lambda>_. J) (\<lambda>e _. child_stop e)"
begin

lemma keep_on_event:
  assumes "mBuilder w = Some b" "filters_fit c" "ev_len ev = 0 \<or> length (ev_name ev) < 2 ^ 64"
  shows "triple J (on_event os lg c pm ev w) (\<lambda>w' s. J s \<and> same_watch w w') (\<lambda>e _. child_stop e)"
proof -
  have step: "triple (\<lambda>s. J s \<and> same_watch w v) (on_filter os lg pm ev str v)
      (\<lambda>w' s. J s \<and> same_watch w w') (\<lambda>e _. child_stop e)"
    if "str \<in> set (filters (getWatchConfig c))" "length (ev_name ev) < 2 ^ 64" for str v
  proof (rule triple_pure)
    assume v: "same_watch w v"
    have "mBuilder v = Some b" "length str < 2 ^ 64"
      using v assms(1,2) that by (simp_all add: same_watchD filters_fit_def)
    note keep = filter_law [OF this that(2)]
    show "triple J (on_filter os lg pm ev str v) (\<lambda>w' s. J s \<and> same_watch w w') (\<lambda>e _. child_stop e)"
      by (intro tripleI) (blast intro: triple_Val [OF keep] triple_Stop [OF keep]
          same_watch_trans [OF v] triple_Val [OF on_filter_same TrueI])+
  qed
  have "triple J (for_acc (on_filter os lg pm ev) (filters (getWatchConfig c)) w)
      (\<lambda>w' s. J s \<and> same_watch w w') (\<lambda>e _. child_stop e)" if "length (ev_name ev) < 2 ^ 64"
    by (rule triple_pre [OF triple_for_acc [where I = "\<lambda>w' s. J s \<and> same_watch w w'"]])
       (rule step [OF _ that], simp_all)
  then show ?thesis
    unfolding on_event_def
    by (intro triple_thn [OF keep_LOG] triple_if triple_ret) (use assms(3) in auto)
qed

text \<open>
  A list of events. The only way to run into undefined behaviour is to look for the name of the last
  event, when it has none and no zero byte follows.
\<close>

lemma keep_on_events:
  assumes "mBuilder w = Some b" "filters_fit c"
    and "\<forall>ev \<in> set evs. whole ev \<and> unat (ev_len ev) < 256 ^ 3"
  shows "triple J (on_events os lg c pm rest evs w) (\<lambda>w' s. J s \<and> same_watch w w')
    (\<lambda>e _. child_stop e \<or> e = Undefined \<and> evs \<noteq> [] \<and> ev_len (last evs) = 0 \<and> 0 \<notin> set rest)"
  using assms(1,3)
proof (induction evs arbitrary: w)
  case Nil
  show ?case by (simp add: triple_ret)
next
  case (Cons ev evs)
  let ?tail = "concat (map encode_event evs) @ rest"
  let ?E = "\<lambda>e (_ :: sys). child_stop e \<or> e = Undefined \<and> ev # evs \<noteq> [] \<and> ev_len (last (ev # evs)) = 0 \<and> 0 \<notin> set rest"
  show ?case
  proof (cases "seen_as ev ?tail")
    case (Inl e)
    then have e: "ev_len ev = 0" "cstring_at ?tail 0 = Inl e"
      by (cases "cstring_at ?tail 0"; simp add: seen_as_def split: if_splits)+
    then have "0 \<notin> set ?tail" using cstring_found by (metis Inl_Inr_False)
    moreover have "evs = []"
      using calculation Cons.prems(2) zero_byte by (cases evs) auto
    moreover have "e = Undefined" using e(2) by (auto simp: cstring_at_def Let_def split: if_splits)
    ultimately show ?thesis using e(1) Inl by (simp add: lift_res_def triple_halt)
  next
    case (Inr ev')
    have "ev_len ev' = 0 \<or> length (ev_name ev') < 2 ^ 64"
      using Inr Cons.prems(2) named_short
      by (cases "cstring_at ?tail 0") (auto simp: seen_as_def whole_def split: if_splits)
    note event = keep_on_event [OF Cons.prems(1) assms(2) this]
    have "triple J (bnd (on_event os lg c pm ev' w) (on_events os lg c pm rest evs)) (\<lambda>w' s. J s \<and> same_watch w w') ?E"
    proof (rule triple_bnd [where R = "\<lambda>v s. J s \<and> same_watch w v"])
      show "triple J (on_event os lg c pm ev' w) (\<lambda>v s. J s \<and> same_watch w v) ?E"
        by (rule triple_conseq [OF event]) simp_all
      fix v
      show "triple (\<lambda>s. J s \<and> same_watch w v) (on_events os lg c pm rest evs v) (\<lambda>w' s. J s \<and> same_watch w w') ?E"
      proof (rule triple_pure)
        assume v: "same_watch w v"
        then have "mBuilder v = Some b" using Cons.prems(1) by (simp add: same_watchD)
        show "triple J (on_events os lg c pm rest evs v) (\<lambda>w' s. J s \<and> same_watch w w') ?E"
          by (rule triple_conseq [OF Cons.IH [OF \<open>mBuilder v = Some b\<close>]])
             (use Cons.prems(2) same_watch_trans [OF v] in auto)
      qed
    qed
    with Inr show ?thesis by (simp add: lift_res_def)
  qed
qed

end

locale restartable = calm_closed J for J :: "sys \<Rightarrow> bool" +
  fixes os :: os and lg :: iLogger and pm :: procman and b :: nat
  assumes build_law: "triple J (runAndWait os lg b) (\<lambda>_. J) (\<lambda>e _. child_stop e)"
    and restart_law: "triple J (restartAll os lg pm) (\<lambda>_. J) (\<lambda>e _. child_stop e)"
begin

lemma keep_rebuild: "mBuilder w = Some b \<Longrightarrow> triple J (rebuild os lg w) (\<lambda>_. J) (\<lambda>e _. child_stop e)"
  unfolding rebuild_def deref_def
  by (simp, intro triple_bnd [OF build_law] triple_thn triple_if keep_LOG triple_ret)
     (simp_all add: keep_LOG)

lemma keep_on_filter:
  assumes "mBuilder w = Some b" "length str < 2 ^ 64" "length (ev_name ev) < 2 ^ 64"
  shows "triple J (on_filter os lg pm ev str w) (\<lambda>_. J) (\<lambda>e _. child_stop e)"
  unfolding on_filter_def Let_def restartProgram_def restartProcesses_def
  by (intro bnd_lift_strMatch assms triple_if triple_thn [OF keep_LOG] modified_text_ok
      triple_bnd [OF keep_time] triple_bnd [OF keep_rebuild] triple_thn [OF restart_law] triple_ret)
     simp_all

end

sublocale restartable \<subseteq> reactive J os lg pm b
  by unfold_locales (rule keep_on_filter)

text \<open>
  The invariant itself, on a \<open>posix\<close> system: the manager can run, the only child there may be is the
  program, and the configuration still owns its vectors.
\<close>

definition session :: "os \<Rightarrow> config \<Rightarrow> procman \<Rightarrow> nat \<Rightarrow> nat \<Rightarrow> sys \<Rightarrow> bool" where
  "session os c pm b g s \<longleftrightarrow> posix os \<and> procman_ready (procs s) (argvs s) pm b g \<and>
     only_program (acts (hist s)) (procs s) g \<and> cfg_ok (procs s) (argvs s) c pm"

lemma same_procs_borrows:
  assumes "same_procs P P'" "borrows P V p"
  shows "borrows P' V p"
proof -
  from assms(2) obtain pr v where p: "slot P p = Some pr" "\<not> mGeneratedCommand pr" "slot V (mCommand pr) = Some v"
    by (auto simp: borrows_def)
  with assms(1) obtain pr' where pr': "slot P' p = Some pr'" "pr\<lparr>mProc := 0\<rparr> = pr'\<lparr>mProc := 0\<rparr>"
    by (metis same_procs_def map_option_eq_Some option.simps(9))
  then have "mCommand pr' = mCommand pr" "mGeneratedCommand pr' = mGeneratedCommand pr"
    by (metis process.select_convs process.surjective process.update_convs(1))+
  with p pr' show ?thesis by (auto simp: borrows_def)
qed

lemma same_procs_cfg_ok: "same_procs P P' \<Longrightarrow> cfg_ok P V c pm \<Longrightarrow> cfg_ok P' V c pm"
  by (auto simp: cfg_ok_def intro: same_procs_borrows)

lemma session_core:
  "session os c pm b g s \<longleftrightarrow> (\<exists>A P V. core s = (A, P, V) \<and> posix os \<and> procman_ready P V pm b g \<and>
     only_program A P g \<and> cfg_ok P V c pm)"
  by (auto simp: session_def core_def)

lemma triple_session:
  assumes "\<And>A P V. posix os \<Longrightarrow> procman_ready P V pm b g \<Longrightarrow> only_program A P g \<Longrightarrow> cfg_ok P V c pm \<Longrightarrow>
      triple (core_is A P V) m (\<lambda>_. session os c pm b g) E"
  shows "triple (session os c pm b g) m (\<lambda>_. session os c pm b g) E"
proof -
  have tr: "triple (core_is (acts (hist s)) (procs s) (argvs s)) m (\<lambda>_. session os c pm b g) E"
    if "session os c pm b g s" for s
    using that by (intro assms) (simp_all add: session_def)
  have c: "core s = (acts (hist s), procs s, argvs s)" for s by (simp add: core_def)
  show ?thesis
    by (rule tripleI) (blast intro: triple_Val [OF tr c] triple_Stop [OF tr c])+
qed

lemma session_put:
  assumes "core s = (A @ h, P[b := Some ((the (slot P b))\<lparr>mProc := r\<rparr>)], V)" "posix os \<longrightarrow> kids (A @ h) = kids A"
    and "posix os" "procman_ready P V pm b g" "only_program A P g" "cfg_ok P V c pm"
  shows "session os c pm b g s"
proof -
  let ?P = "P[b := Some ((the (slot P b))\<lparr>mProc := r\<rparr>)]"
  have b: "slot P b \<noteq> None" "b \<noteq> g"
    using assms(4) process_ready_slot by (auto simp: procman_ready_def)
  have same: "same_procs P ?P" by (rule same_procs_put [OF b(1)])
  have "pid_of ?P g = pid_of P g" using b(2) by (simp add: pid_of_def slot_update)
  then have "only_program (A @ h) ?P g" using assms(2,3,5) by (auto simp: only_program_def)
  with assms(1,3) procman_ready_same [OF assms(4) same] same_procs_cfg_ok [OF same assms(6)]
  show ?thesis unfolding session_core by blast
qed

interpretation live: restartable "session os c pm b g" os lg pm b for os c pm b g lg
proof
  fix s t :: sys and h
  assume "session os c pm b g s" "procs t = procs s" "argvs t = argvs s" "hist t = hist s @ h"
    "list_all bystander h"
  then show "session os c pm b g t"
    by (simp add: session_def only_program_def kids_bystander del: acts_append)
next
  show "triple (session os c pm b g) (runAndWait os lg b) (\<lambda>_. session os c pm b g) (\<lambda>e _. child_stop e)"
  proof (rule triple_session)
    fix A P V
    assume s: "posix os" "procman_ready P V pm b g" "only_program A P g" "cfg_ok P V c pm"
    then have "process_ready P V b" by (simp add: procman_ready_def)
    note wait = ops.wait_law [OF this, of A os lg]
    show "triple (core_is A P V) (runAndWait os lg b) (\<lambda>_. session os c pm b g) (\<lambda>e _. child_stop e)"
      by (rule triple_post [OF wait], elim exE conjE, erule session_put) (rule s | assumption)+
  qed
next
  show "triple (session os c pm b g) (restartAll os lg pm) (\<lambda>_. session os c pm b g) (\<lambda>e _. child_stop e)"
  proof (rule triple_session)
    fix A P V
    assume s: "posix os" "procman_ready P V pm b g" "only_program A P g" "cfg_ok P V c pm"
    show "triple (core_is A P V) (restartAll os lg pm) (\<lambda>_. session os c pm b g) (\<lambda>e _. child_stop e)"
      by (rule triple_post [OF triple_restartAll [OF s(2)]])
         (use s in \<open>auto simp: restarted_def session_core intro: procman_ready_same same_procs_cfg_ok\<close>)
  qed
qed

section \<open>One round of listening\<close>

definition same_setup :: "watcher \<Rightarrow> watcher \<Rightarrow> bool" where
  "same_setup w w' \<longleftrightarrow> mBuilder w' = mBuilder w \<and> mINotify w' = mINotify w \<and> mFDs w' = mFDs w"

lemma same_watch_setup: "same_watch (w\<lparr>mBuffer := buf\<rparr>) w' \<Longrightarrow> same_setup w w'"
  by (auto simp: same_setup_def dest: same_watchD)

lemma same_setup_refl [simp]: "same_setup w w"
  by (simp add: same_setup_def)

lemma same_setup_trans: "same_setup w w' \<Longrightarrow> same_setup w' w'' \<Longrightarrow> same_setup w w''"
  by (simp add: same_setup_def)

text \<open>The bytes a round that finds the descriptor readable will read.\<close>

definition bytes_read :: "os \<Rightarrow> watcher \<Rightarrow> sys \<Rightarrow> byte list" where
  "bytes_read os w s = snd (snd (os_read os (hist s @ [ESelect (mINotify w) 1]) (mINotify w) EVENT_BUF_LEN))"

context reactive begin

lemma keep_event_loop:
  assumes "mBuilder w = Some b" "filters_fit c" "whole_events got bs" "mBuffer w = store_bytes bs buf"
  shows "triple J (event_loop EVENT_FUEL os lg c pm 0 got w) (\<lambda>w' s. J s \<and> same_watch w w')
    (\<lambda>e _. child_stop e \<or> e = Undefined \<and> overreads bs buf)"
  using assms(3) unfolding whole_events_def
proof (elim disjE exE conjE)
  assume "got \<le> 0"
  then show ?thesis by (simp add: EVENT_FUEL_def triple_ret)
next
  fix evs
  assume evs: "\<forall>ev \<in> set evs. whole ev" "bs = concat (map encode_event evs)" "got = int (length bs)"
      "length bs \<le> EVENT_BUF_LEN"
  have small: "\<forall>ev \<in> set evs. whole ev \<and> unat (ev_len ev) < 256 ^ 3"
    using evs event_small by blast
  have loop: "event_loop EVENT_FUEL os lg c pm 0 got w = on_events os lg c pm (drop (length bs) buf) evs w"
    unfolding evs(2,3)
    by (rule event_loop_read) (use evs assms(4) in \<open>simp_all add: store_bytes_def\<close>)
  have over: "overreads bs buf" if "evs \<noteq> []" "ev_len (last evs) = 0" "0 \<notin> set (drop (length bs) buf)"
    using that evs(1,2) by (auto simp: overreads_def)
  show ?thesis
    unfolding loop
    by (rule triple_conseq [OF keep_on_events [OF assms(1,2) small]]) (use over in auto)
qed

lemma keep_listen:
  assumes "mBuilder w = Some b" "filters_fit c" "inotify_whole os" "J s"
  shows "case listen os lg c pm w s of
      (Val w', t) \<Rightarrow> J t \<and> same_setup w w'
    | (Stop e, t) \<Rightarrow> child_stop e \<or> e = Undefined \<and> overreads (bytes_read os w s) (mBuffer w)"
proof -
  let ?E = "\<lambda>e (_ :: sys). child_stop e \<or> e = Undefined \<and> overreads (bytes_read os w s) (mBuffer w)"
  obtain r s1 where sel: "sys_select os (mINotify w) s = (Val r, s1)" "hist s1 = hist s @ [ESelect (mINotify w) r]"
    by (cases "os_select os (hist s) (mINotify w)") (auto simp: sys_select_def sys_call_def bnd_def ret_def Let_def)
  have J1: "J s1" by (rule calm_run [OF calm_select_read(1) assms(4) sel(1)])
  have err: "triple J (thn (LOG_ERROR os lg message) (ret w)) (\<lambda>w' t. J t \<and> same_setup w w') ?E" for message
    by (intro triple_thn [OF keep_LOG_ERROR] triple_ret) simp
  show ?thesis
  proof (cases "r = 1")
    case False
    have "triple J (if r < 0 then thn (LOG_ERROR os lg ''select'') (ret w) else ret w)
        (\<lambda>w' t. J t \<and> same_setup w w') ?E"
      by (intro triple_if err triple_ret) simp
    with False J1 show ?thesis by (simp add: listen_def seq_run(1) sel(1) triple_def)
  next
    case True
    obtain got e bs where rd: "os_read os (hist s1) (mINotify w) EVENT_BUF_LEN = (got, e, bs)"
      by (metis prod_cases3)
    then obtain s2 where read: "sys_read os (mINotify w) EVENT_BUF_LEN s1 = (Val (got, bs), s2)"
      by (simp add: sys_read_def sys_call_def bnd_def ret_def Let_def)
    have J2: "J s2" by (rule calm_run [OF calm_select_read(2) J1 read])
    have bytes: "bytes_read os w s = bs" using rd sel(2) True by (simp add: bytes_read_def)
    have evs: "whole_events got bs" using assms(3) rd unfolding inotify_whole_def by blast
    let ?w = "w\<lparr>mBuffer := store_bytes bs (mBuffer w)\<rparr>"
    have loop: "triple J (event_loop EVENT_FUEL os lg c pm 0 got ?w) (\<lambda>w' t. J t \<and> same_setup w w') ?E"
      unfolding bytes
      by (rule triple_post [OF keep_event_loop [OF _ assms(2) evs]])
         (use assms(1) same_watch_setup in auto)
    have warn: "triple J (if got \<le> 0 then LOG_ERROR os lg ''read'' else ret ()) (\<lambda>_. J) ?E"
      by (rule triple_if) (simp_all add: keep_LOG_ERROR triple_ret)
    have "triple J (thn (if got \<le> 0 then LOG_ERROR os lg ''read'' else ret ())
        (thn (LOG os lg DEBUG ''Event buffer size: %d'' [PInt got]) (event_loop EVENT_FUEL os lg c pm 0 got ?w)))
        (\<lambda>w' t. J t \<and> same_setup w w') ?E"
      by (rule triple_thn [OF warn triple_thn [OF keep_LOG loop]]) simp
    with True J2 show ?thesis
      by (simp add: listen_def seq_run(1) sel(1) read Let_def triple_def)
  qed
qed

end

section \<open>The trace of a round\<close>

text \<open>
  What a history says of other processes (\<open>doings\<close>) since some point is a sequence of reactions, from
  the pids the manager had then to those it has now.
\<close>

definition traced :: "procman \<Rightarrow> nat \<Rightarrow> nat \<Rightarrow> pids \<Rightarrow> history \<Rightarrow> sys \<Rightarrow> bool" where
  "traced pm b g ps h0 s \<longleftrightarrow> procman_ready (procs s) (argvs s) pm b g \<and>
     (\<exists>h. doings (hist s) = doings h0 @ doings h \<and> reactions ps h (pids_of (procs s) pm g))"

interpretation chronicle: reactive "traced pm b g ps h0" os lg pm b for pm b g ps h0 os lg
proof
  fix s t :: sys and h
  assume "traced pm b g ps h0 s" "procs t = procs s" "argvs t = argvs s" "hist t = hist s @ h"
    "list_all bystander h"
  then show "traced pm b g ps h0 t" by (simp add: traced_def doings_bystander)
next
  fix w :: watcher and str :: string and ev :: inotify_event
  assume w: "mBuilder w = Some b" "length str < 2 ^ 64" "length (ev_name ev) < 2 ^ 64"
  have run: "case on_filter os lg pm ev str w s of (Val w', t) \<Rightarrow> traced pm b g ps h0 t | (Stop e, t) \<Rightarrow> child_stop e"
    if s: "traced pm b g ps h0 s" for s
  proof -
    from s obtain h where ready: "procman_ready (procs s) (argvs s) pm b g"
      and h: "doings (hist s) = doings h0 @ doings h" "reactions ps h (pids_of (procs s) pm g)"
      by (auto simp: traced_def)
    have after: "traced pm b g ps h0 t"
      if "core t = (acts (hist s) @ h', P', argvs s)" "same_procs (procs s) P'"
        "reaction (pids_of (procs s) pm g) h' fired (pids_of P' pm g)" for t P' h' fired
    proof -
      have "doings (acts (hist t)) = doings (acts (hist s) @ h')" using that(1) by (simp add: core_def)
      then have "doings (hist t) = doings h0 @ doings (h @ h')" using h(1) by simp
      moreover have "procman_ready (procs t) (argvs t) pm b g"
        using that(1) procman_ready_same [OF ready that(2)] by (simp add: core_def)
      moreover have "reactions ps (h @ h') (pids_of (procs t) pm g)"
        using that(1) one_more [OF h(2) that(3)] by (simp add: core_def)
      ultimately show ?thesis unfolding traced_def by blast
    qed
    from triple_runD [OF triple_on_filter [OF ready w], of os lg] show ?thesis
      by (auto split: prod.splits res.splits intro: after)
  qed
  show "triple (traced pm b g ps h0) (on_filter os lg pm ev str w) (\<lambda>_. traced pm b g ps h0) (\<lambda>e _. child_stop e)"
    unfolding triple_def using run by blast
qed

section \<open>Debouncing\<close>

text \<open>What \<open>localtime\<close> and \<open>mktime\<close> document, as far as the code relies on it.\<close>

definition clock :: "os \<Rightarrow> bool" where
  "clock os \<longleftrightarrow> (\<forall>t. os_mktime os ((os_localtime os t)\<lparr>tm_sec := tm_sec (os_localtime os t) + 5\<rparr>) = t + 5)"

text \<open>States that differ from \<open>s0\<close> by messages and questions about the time only.\<close>

definition undisturbed :: "sys \<Rightarrow> sys \<Rightarrow> bool" where
  "undisturbed s0 s \<longleftrightarrow> core s = core s0 \<and> (\<exists>h. hist s = hist s0 @ h)"

lemma undisturbed_LOG:
  assumes "vformat format as \<noteq> None"
  shows "triple (undisturbed s0) (LOG os lg level format as) (\<lambda>_. undisturbed s0) E"
proof (rule tripleI)
  fix s x t assume s: "undisturbed s0 s" "LOG os lg level format as s = (Val x, t)"
  from LOG_core [OF assms, of os lg level s] s(2) have "core t = core s" by auto
  moreover obtain h where "hist t = hist s @ h" by (rule calmD [OF calm_LOG s(2)])
  ultimately show "undisturbed s0 t" using s(1) by (auto simp: undisturbed_def)
next
  fix s e t assume "LOG os lg level format as s = (Stop e, t)"
  with LOG_core [OF assms, of os lg level s] show "E e t" by auto
qed

lemma undisturbed_time:
  "triple (undisturbed s0) (sys_time os) (\<lambda>n s. undisturbed s0 s \<and> (\<exists>h. n = os_time os (hist s0 @ h))) E"
  by (rule tripleI) (auto simp: undisturbed_def sys_time_def sys_call_def Let_def core_def)

lemma on_filter_too_soon:
  assumes "clock os" "\<forall>h. os_time os (hist s0 @ h) < mTimer w + 5"
    and "length str < 2 ^ 64" "length (ev_name ev) < 2 ^ 64"
  shows "triple (undisturbed s0) (on_filter os lg pm ev str w) (\<lambda>w' s. undisturbed s0 s \<and> w' = w) (\<lambda>_ _. False)"
proof -
  have late: "\<not> os_mktime os ((os_localtime os (mTimer w))\<lparr>tm_sec := tm_sec (os_localtime os (mTimer w)) + 5\<rparr>) \<le> n"
    if "\<exists>h. n = os_time os (hist s0 @ h)" for n
    using that assms(1,2) by (auto simp: clock_def not_le)
  show ?thesis
    unfolding on_filter_def Let_def
    by (intro bnd_lift_strMatch assms(3,4) triple_if triple_thn [OF undisturbed_LOG] modified_text_ok
          triple_bnd [OF undisturbed_time] triple_pure)
       (auto simp: late intro: triple_ret)
qed

text \<open>
  C23. For five seconds after the timer was set, nothing an event says leads to any action: whatever
  the file and the filters, no process is started, stopped or waited for, the watcher is unchanged,
  and the reaction returns.
\<close>

theorem debounce:
  assumes "clock os" "\<forall>h. os_time os (hist s @ h) < mTimer w + 5"
    and "filters_fit c" "length (ev_name ev) < 2 ^ 64"
  shows "\<exists>t. on_event os lg c pm ev w s = (Val w, t) \<and> core t = core s"
proof -
  have step: "triple (\<lambda>s'. undisturbed s s' \<and> v = w) (on_filter os lg pm ev str v)
      (\<lambda>w' s'. undisturbed s s' \<and> w' = w) (\<lambda>_ _. False)" if "str \<in> set (filters (getWatchConfig c))" for str v
    using on_filter_too_soon [OF assms(1,2) _ assms(4)] assms(3) that
    by (intro triple_pure) (auto simp: filters_fit_def)
  have "triple (undisturbed s) (for_acc (on_filter os lg pm ev) (filters (getWatchConfig c)) w)
      (\<lambda>w' s'. undisturbed s s' \<and> w' = w) (\<lambda>_ _. False)"
    by (rule triple_pre [OF triple_for_acc [where I = "\<lambda>w' s'. undisturbed s s' \<and> w' = w"]])
       (rule step, simp_all)
  then have tr: "triple (undisturbed s) (on_event os lg c pm ev w) (\<lambda>w' s'. undisturbed s s' \<and> w' = w) (\<lambda>_ _. False)"
    unfolding on_event_def
    by (intro triple_thn [OF undisturbed_LOG] triple_if triple_ret) simp_all
  have start: "undisturbed s s" by (auto simp: undisturbed_def)
  obtain x t where x: "on_event os lg c pm ev w s = (x, t)" by (cases "on_event os lg c pm ev w s")
  show ?thesis
  proof (cases x)
    case (Val w')
    from triple_Val [OF tr start x [unfolded Val]] x Val show ?thesis by (auto simp: undisturbed_def)
  next
    case (Stop e)
    from triple_Stop [OF tr start x [unfolded Stop]] show ?thesis ..
  qed
qed

section \<open>Events that mean nothing\<close>

text \<open>
  C33. An event without a name, about something else than a modification, about a directory, or whose
  name no filter accepts is logged and has no other effect.
\<close>

theorem ignored_event:
  assumes "filters_fit c" "length (ev_name ev) < 2 ^ 64"
    and "ev_len ev = 0 \<or> ev_mask ev AND IN_MODIFY = 0 \<or> ev_mask ev AND IN_ISDIR \<noteq> 0 \<or>
      (\<forall>f \<in> set (filters (getWatchConfig c)). \<not> accepts f (ev_name ev))"
  shows "on_event os lg c pm ev w s =
    thn (LOG os lg DEBUG ''File %s -> 0x%x!'' [PStr (ev_name ev), PHex (ev_mask ev)]) (ret w) s"
proof -
  have "for_acc (on_filter os lg pm ev) fs w = ret w"
    if "\<forall>f \<in> set fs. length f < 2 ^ 64 \<and> \<not> accepts f (ev_name ev)" for fs
    using that assms(2)
    by (induction fs) (simp_all add: on_filter_def strMatch_accepts lift_res_def)
  with assms(1,3) show ?thesis by (auto simp: on_event_def filters_fit_def)
qed

lemma accepts_slash: "CHR ''/'' \<in> set f \<Longrightarrow> CHR ''/'' \<notin> set name \<Longrightarrow> \<not> accepts f name"
proof
  assume a: "CHR ''/'' \<in> set f" "CHR ''/'' \<notin> set name" "accepts f name"
  show False
  proof (cases "split_last f")
    case None
    with a show ?thesis by (auto simp: accepts_def dest: set_mono_prefix)
  next
    case (Some pq)
    then obtain p q where pq: "split_last f = Some (p, q)" by (cases pq) auto
    then have "f = p @ CHR ''*'' # q" using split_last_Some by blast
    with a(1) have "CHR ''/'' \<in> set p \<or> CHR ''/'' \<in> set q" by auto
    with a(2,3) pq show ?thesis by (auto simp: accepts_def dest: set_mono_prefix set_mono_suffix)
  qed
qed

text \<open>
  A filter with a directory part, like the \<open>include/*.hxx\<close> of the example configuration, never
  matches: inotify gives the name of the file within the watched directory.
\<close>

theorem path_filter_never_matches:
  assumes "CHR ''/'' \<in> set f" "CHR ''/'' \<notin> set (ev_name ev)"
    and "length f < 2 ^ 64" "length (ev_name ev) < 2 ^ 64"
  shows "on_filter os lg pm ev f w s = (Val w, s)"
  using accepts_slash [OF assms(1,2)]
  by (simp add: on_filter_def strMatch_accepts [OF assms(3,4)] lift_res_def, simp add: ret_def)

section \<open>What a modified file leads to\<close>



text \<open>
  C37. An event without a name, as for a watched file or a watch that was removed: the code logs
  \<open>event->name\<close> before it looks at \<open>len\<close> and reads on behind the event. If it is the only event of a
  round and no earlier read has left a zero byte behind it, as none has when it is the first event
  ever, the code reads bytes that were never written.
\<close>

theorem unnamed_event_overread:
  assumes "os_select os (hist s) (mINotify w) = (1, e1)"
    and "ev_len ev = 0" "ev_name ev = []" "0 \<notin> set (drop 16 (mBuffer w))"
    and "os_read os (hist s @ [ESelect (mINotify w) 1]) (mINotify w) EVENT_BUF_LEN = (16, e2, encode_event ev)"
  shows "fst (listen os lg c pm w s) = Stop Undefined"
proof -
  let ?w = "w\<lparr>mBuffer := store_bytes (encode_event ev) (mBuffer w)\<rparr>"
  have ev: "whole ev" "length (encode_event ev) = 16"
    using assms(2,3) by (simp_all add: whole_def encode_event_def)
  have "seen_as ev (drop 16 (mBuffer w)) = Inl Undefined"
    using assms(2,4) by (simp add: seen_as_def cstring_at_def)
  then have "event_loop EVENT_FUEL os lg c pm 0 16 ?w = halt Undefined"
    using event_loop_read [of "[ev]" ?w "drop 16 (mBuffer w)"] ev
    by (simp add: store_bytes_def EVENT_BUF_LEN_def EVENT_SIZE_def lift_res_def)
  note loop = this
  let ?s = "s\<lparr>hist := hist s @ [ESelect (mINotify w) 1, ERead (mINotify w) 16]\<rparr>"
  have sel: "sys_select os (mINotify w) s = (Val 1, s\<lparr>hist := hist s @ [ESelect (mINotify w) 1]\<rparr>)"
    using assms(1) by (simp add: sys_select_def sys_call_def bnd_def ret_def Let_def)
  have rd: "sys_read os (mINotify w) EVENT_BUF_LEN (s\<lparr>hist := hist s @ [ESelect (mINotify w) 1]\<rparr>) =
      (Val (16, encode_event ev), ?s)"
    using assms(5) by (simp add: sys_read_def sys_call_def bnd_def ret_def Let_def)
  obtain t where "LOG os lg DEBUG ''Event buffer size: %d'' [PInt 16] ?s = (Val (), t)"
    using LOG_core [of "''Event buffer size: %d''" "[PInt 16]"] by fastforce
  then show ?thesis
    by (simp add: listen_def seq_run(1) sel rd Let_def loop seq_run(2) halt_run)
qed


section \<open>The descriptors\<close>

text \<open>The inotify descriptors the system gave, and the descriptors closed, in the order of the calls.\<close>

fun opened_fd :: "event \<Rightarrow> int option" where
  "opened_fd (EInotify fd) = Some fd"
| "opened_fd _ = None"

fun closed_fd :: "event \<Rightarrow> int option" where
  "closed_fd (EClose fd) = Some fd"
| "closed_fd _ = None"

lemma leaves_file_calls:
  assumes "\<And>r. obs (EGetcwd r) = None" "\<And>f r. obs (ELstat f r) = None" "\<And>p r. obs (EDir p r) = None"
    and "\<And>fd p wd. obs (EAddWatch fd p wd) = None" "\<And>fd wd. obs (ERmWatch fd wd) = None"
    and "\<And>fd out. obs (EOut fd out) = None" "\<And>t. obs (ETime t) = None"
  shows "leaves obs (cwd os)" "leaves obs (listDir os path ft)" "leaves obs (sys_add_watch os fd path)"
    and "leaves obs (removeAllWatches os fd fds)" "leaves obs (perror os message)" "leaves obs (sys_time os)"
  using assms
  unfolding cwd_def sys_getcwd_def throw_CException_def listDir_def list_entry_def sys_lstat_def S_ISDIR_def
    sys_opendir_def sys_add_watch_def removeAllWatches_def sys_rm_watch_def perror_def sys_write_def sys_time_def
  by (auto intro!: leaves_intros split: option.split prod.split sum.split)

lemma leaves_recursiveWatch:
  assumes "\<And>path. leaves obs (listDir os path DIRECTORY)" "\<And>path. leaves obs (sys_add_watch os fd path)"
  shows "leaves obs (recursiveWatch n os fd dir fds)"
  by (induction n arbitrary: dir fds) (auto intro!: leaves_intros assms)

text \<open>What the constructor opens: each of its two parts asks for a descriptor, the second is kept.\<close>

lemma triple_inotify_init:
  "triple (\<lambda>s. seen opened_fd (hist s) = xs) (sys_inotify_init os)
    (\<lambda>fd s. seen opened_fd (hist s) = xs @ [fd]) E"
  by (rule tripleI) (auto simp: sys_inotify_init_def sys_call_def bnd_def ret_def Let_def split: prod.splits)

lemma triple_watchDirectory_opens:
  "triple (\<lambda>s. seen opened_fd (hist s) = xs) (watchDirectory depth os w)
    (\<lambda>w s. seen opened_fd (hist s) = xs @ [mINotify w]) (\<lambda>_ _. True)"
proof -
  have keep: "triple (\<lambda>s. seen opened_fd (hist s) = ys) m (\<lambda>_ s. seen opened_fd (hist s) = ys) (\<lambda>_ _. True)"
    if "leaves opened_fd m" for m :: "'b io" and ys
    by (rule triple_leaves [OF that])
  have perr: "leaves opened_fd (if b then perror os message else ret ())" for b message
    by (auto intro!: leaves_intros leaves_file_calls)
  show ?thesis
    unfolding watchDirectory_def Let_def
    by (rule triple_bnd [OF triple_inotify_init], rule triple_thn [OF keep [OF perr]],
        rule triple_bnd [OF keep], (rule leaves_file_calls; simp),
        rule triple_bnd [OF keep], (rule leaves_file_calls; simp),
        rule triple_if, rule triple_bnd [OF keep], (rule leaves_file_calls; simp),
        rule triple_bnd [OF keep], rule leaves_recursiveWatch)
       (auto intro!: triple_ret leaves_file_calls)
qed

lemma triple_new_Watcher_opens:
  "triple (\<lambda>s. seen opened_fd (hist s) = xs) (new_Watcher depth os dir pm recursive)
    (\<lambda>w s. \<exists>fd. seen opened_fd (hist s) = xs @ [fd, mINotify w]) (\<lambda>_ _. True)"
  unfolding new_Watcher_def Let_def
proof (rule triple_bnd [OF triple_leaves], rule leaves_file_calls, simp_all, rule triple_bnd [OF triple_inotify_init])
  fix now fd
  show "triple (\<lambda>s. seen opened_fd (hist s) = xs @ [fd])
      (watchDirectory depth os \<lparr>mDirectory = dir, mRecursive = recursive, mFDs = [], mBuffer = [], mINotify = fd,
         mTimer = now - 15, mBuilder = getBuildStep pm\<rparr>)
      (\<lambda>w s. \<exists>fd. seen opened_fd (hist s) = xs @ [fd, mINotify w]) (\<lambda>_ _. True)"
    by (rule triple_post [OF triple_watchDirectory_opens]) auto
qed

lemma leaves_new_Watcher_closed: "leaves closed_fd (new_Watcher depth os dir pm recursive)"
  unfolding new_Watcher_def watchDirectory_def Let_def sys_inotify_init_def
  by (auto intro!: leaves_intros leaves_file_calls leaves_recursiveWatch split: prod.split)

text \<open>
  C38. The watcher leaks a descriptor: whatever the system answers, the constructor gets two inotify
  descriptors and closes none, and the watcher remembers the second; the destructor closes that one
  and no other.
\<close>

theorem watcher_leaks_descriptor:
  assumes "new_Watcher depth os dir pm recursive s = (Val w, t)"
  shows "(\<exists>fd. seen opened_fd (hist t) = seen opened_fd (hist s) @ [fd, mINotify w]) \<and>
    seen closed_fd (hist t) = seen closed_fd (hist s) \<and>
    (\<forall>u v. delete_Watcher os lg pm w u = (Val (), v) \<longrightarrow>
       seen closed_fd (hist v) = seen closed_fd (hist u) @ [mINotify w])"
proof (intro conjI allI impI)
  show "\<exists>fd. seen opened_fd (hist t) = seen opened_fd (hist s) @ [fd, mINotify w]"
    by (rule triple_Val [OF triple_new_Watcher_opens refl assms])
  show "seen closed_fd (hist t) = seen closed_fd (hist s)"
    by (rule leavesD [OF leaves_new_Watcher_closed assms])
next
  fix u v assume d: "delete_Watcher os lg pm w u = (Val (), v)"
  have "triple (\<lambda>s. seen closed_fd (hist s) = ys) (delete_Watcher os lg pm w)
      (\<lambda>_ s. seen closed_fd (hist s) = ys @ [mINotify w]) (\<lambda>_ _. True)" for ys
    unfolding delete_Watcher_def
  proof (rule triple_thn [OF triple_leaves triple_thn [OF triple_leaves]])
    show "triple (\<lambda>s. seen closed_fd (hist s) = ys) (sys_close (mINotify w))
        (\<lambda>_ s. seen closed_fd (hist s) = ys @ [mINotify w]) (\<lambda>_ _. True)"
      by (rule tripleI) (auto simp: sys_close_def sys_call_def Let_def)
  qed (auto intro!: leaves_killAll leaves_file_calls)
  from triple_Val [OF this refl d] show "seen closed_fd (hist v) = seen closed_fd (hist u) @ [mINotify w]" .
qed

section \<open>An example\<close>

text \<open>A project with one filter, one test and a program, whose file main.cpp was modified.\<close>

definition demo_config :: config where
  "demo_config = \<lparr>mWatch = \<lparr>filters = [''*.cpp''], included = [], excluded = []\<rparr>,
     mCompile = \<lparr>enabled = True, cmd = Some 0\<rparr>, mTest = \<lparr>enabled = True, cmd = Some 1\<rparr>,
     mProgramConfig = \<lparr>enabled = True, cmd = Some 2\<rparr>\<rparr>"

definition demo_watcher :: "int \<Rightarrow> watcher" where
  "demo_watcher time = \<lparr>mDirectory = ''./'', mRecursive = True, mFDs = [1], mBuffer = [], mINotify = 3,
     mTimer = time, mBuilder = Some 0\<rparr>"

text \<open>A system that always has the same bytes ready to read.\<close>

definition ready_os :: "byte list \<Rightarrow> os" where
  "ready_os bs = (demo_os (\<lambda>p. 0))\<lparr>os_select := \<lambda>h fd. (1, 0), os_read := \<lambda>h fd n. (int (length bs), 0, bs)\<rparr>"

lemma clock_demo: "clock (demo_os st)"
  by (simp add: clock_def demo_os_def)

lemma ready_posix: "posix (ready_os bs)"
  using posix_demo [of "\<lambda>p. 0"] 
  by (simp add: posix_def posix_fork_def posix_wait_def posix_kill_def ready_os_def demo_os_def)

lemma ready_named: "inotify_named (ready_os (encode_event demo_event))"
proof -
  have "\<exists>evs. (\<forall>ev \<in> set evs. named ev) \<and> encode_event demo_event = concat (map encode_event evs)"
    by (rule exI [of _ "[demo_event]"]) (simp add: named_demo)
  then show ?thesis
    by (simp add: inotify_named_def ready_os_def demo_bytes EVENT_BUF_LEN_def EVENT_SIZE_def)
qed

lemma demo_fit: "filters_fit demo_config"
  by (simp add: filters_fit_def demo_config_def getWatchConfig_def)

lemma demo_session: "session (ready_os bs) demo_config demo_pm 0 2 demo_sys"
proof -
  have "cfg_ok (procs demo_sys) (argvs demo_sys) demo_config demo_pm"
    by (auto simp: cfg_ok_def cmd_list_def objects_def borrows_def single_star_def demo_sys_def demo_config_def
        demo_pm_def demo_proc_def slot_def)
  then show ?thesis
    by (simp add: session_def ready_posix demo_ready demo_only_program del: acts_append)
qed

theorem listen_events_witness:
  "listen (ready_os (encode_event demo_event)) StdoutLogger demo_config demo_pm (demo_watcher 0) demo_sys =
    thn (LOG (ready_os (encode_event demo_event)) StdoutLogger DEBUG ''Event buffer size: %d'' [PInt 32])
        (for_acc (on_event (ready_os (encode_event demo_event)) StdoutLogger demo_config demo_pm) [demo_event]
           ((demo_watcher 0)\<lparr>mBuffer := encode_event demo_event\<rparr>))
      (demo_sys\<lparr>hist := [ESelect 3 1, ERead 3 32]\<rparr>)"
proof -
  let ?os = "ready_os (encode_event demo_event)"
  have "os_select ?os (hist demo_sys) (mINotify (demo_watcher 0)) = (1, 0)"
    "\<forall>ev \<in> set [demo_event]. named ev" "[demo_event] \<noteq> []"
    "length (concat (map encode_event [demo_event])) \<le> EVENT_BUF_LEN"
    "os_read ?os (hist demo_sys @ [ESelect (mINotify (demo_watcher 0)) 1]) (mINotify (demo_watcher 0)) EVENT_BUF_LEN =
      (int (length (concat (map encode_event [demo_event]))), 0, concat (map encode_event [demo_event]))"
    by (simp_all add: ready_os_def named_demo demo_bytes EVENT_BUF_LEN_def EVENT_SIZE_def)
  from listen_events [OF this, of StdoutLogger demo_config demo_pm] show ?thesis
    by (simp add: demo_bytes demo_watcher_def demo_sys_def store_bytes_def del: for_acc.simps)
qed

theorem debounce_witness:
  "\<exists>t. on_event (demo_os (\<lambda>p. 0)\<lparr>os_time := \<lambda>h. 1000\<rparr>) StdoutLogger demo_config demo_pm demo_event
     (demo_watcher 998) demo_sys = (Val (demo_watcher 998), t) \<and> core t = core demo_sys"
proof (rule debounce [OF _ _ demo_fit])
  show "clock (demo_os (\<lambda>p. 0)\<lparr>os_time := \<lambda>h. 1000\<rparr>)" by (simp add: clock_def demo_os_def)
qed (simp_all add: demo_watcher_def demo_event_def)

theorem ignored_event_witness:
  "on_event (demo_os (\<lambda>p. 0)) StdoutLogger demo_config demo_pm (demo_event\<lparr>ev_name := ''main.o''\<rparr>) (demo_watcher 0) demo_sys =
    thn (LOG (demo_os (\<lambda>p. 0)) StdoutLogger DEBUG ''File %s -> 0x%x!'' [PStr ''main.o'', PHex IN_MODIFY])
      (ret (demo_watcher 0)) demo_sys"
proof -
  have "\<not> accepts ''*.cpp'' ''main.o''" by code_simp
  then show ?thesis
    using ignored_event [OF demo_fit, of "demo_event\<lparr>ev_name := ''main.o''\<rparr>" "demo_os (\<lambda>p. 0)" StdoutLogger
        demo_pm "demo_watcher 0" demo_sys]
    by (simp add: demo_config_def getWatchConfig_def demo_event_def)
qed

theorem path_filter_never_matches_witness:
  "on_filter (demo_os (\<lambda>p. 0)) StdoutLogger demo_pm (demo_event\<lparr>ev_name := ''a.hxx''\<rparr>) ''include/*.hxx''
     (demo_watcher 0) demo_sys = (Val (demo_watcher 0), demo_sys)"
  by (rule path_filter_never_matches) simp_all



theorem unnamed_event_overread_witness:
  "fst (listen (ready_os (encode_event (demo_event\<lparr>ev_len := 0, ev_name := []\<rparr>))) StdoutLogger demo_config demo_pm
     (demo_watcher 0) demo_sys) = Stop Undefined"
proof (rule unnamed_event_overread)
  let ?os = "ready_os (encode_event (demo_event\<lparr>ev_len := 0, ev_name := []\<rparr>))"
  show "os_select ?os (hist demo_sys) (mINotify (demo_watcher 0)) = (1, 0)" by (simp add: ready_os_def)
  show "os_read ?os (hist demo_sys @ [ESelect (mINotify (demo_watcher 0)) 1]) (mINotify (demo_watcher 0)) EVENT_BUF_LEN =
      (16, 0, encode_event (demo_event\<lparr>ev_len := 0, ev_name := []\<rparr>))"
    by (simp add: ready_os_def encode_event_def)
qed (simp_all add: demo_watcher_def)


lemma demo_new_Watcher:
  "case new_Watcher 1 (demo_os (\<lambda>p. 0)) ''./'' new_ProcessManager True sys0 of
     (Val w, t) \<Rightarrow> True | (Stop e, t) \<Rightarrow> False"
  by code_simp

theorem watcher_leaks_descriptor_witness:
  "\<exists>w t fd. new_Watcher 1 (demo_os (\<lambda>p. 0)) ''./'' new_ProcessManager True sys0 = (Val w, t) \<and>
     seen opened_fd (hist t) = [fd, mINotify w] \<and> seen closed_fd (hist t) = []"
proof -
  obtain w t where new: "new_Watcher 1 (demo_os (\<lambda>p. 0)) ''./'' new_ProcessManager True sys0 = (Val w, t)"
    using demo_new_Watcher by (auto split: prod.splits res.splits)
  from watcher_leaks_descriptor [OF new] new show ?thesis by (auto simp: sys0_def)
qed

end
