(* ===== verification/Targets.thy ===== *)
theory Targets
  imports Watcher
begin

text \<open>
  Whom the program signals and waits for: on any system and with any configuration, only pids that
  one of its own calls of \<open>fork\<close> gave it, and it sends signals only to pids above 1. The invariant behind
  it says that a process object records no other pids; it is carried through every operation of the
  program, whether the operation returns or stops. That an object keeps the pid of a child that has
  been collected is the other side: the signal goes to whoever has the pid then.
\<close>

section \<open>Well-aimed histories\<close>

text \<open>
  Read from the start with the pids \<open>F\<close> that forks have given so far: every signal goes to a pid above
  1 that a fork has given, every wait is for such a pid.
\<close>

fun well_aimed :: "int set \<Rightarrow> history \<Rightarrow> bool" where
  "well_aimed F [] \<longleftrightarrow> True"
| "well_aimed F (EFork r # h) \<longleftrightarrow> well_aimed (insert r F) h"
| "well_aimed F (EKill k sig r # h) \<longleftrightarrow> 1 < k \<and> k \<in> F \<and> well_aimed F h"
| "well_aimed F (EWait k nohang r st # h) \<longleftrightarrow> k \<in> F \<and> well_aimed F h"
| "well_aimed F (e # h) \<longleftrightarrow> well_aimed F h"

definition forked :: "history \<Rightarrow> int set" where
  "forked h = {r. EFork r \<in> set h}"

lemma forked_append [simp]: "forked (h @ h') = forked h \<union> forked h'"
  by (auto simp: forked_def)

lemma well_aimed_append: "well_aimed F (h @ h') \<longleftrightarrow> well_aimed F h \<and> well_aimed (F \<union> forked h) h'"
proof (induction F h rule: well_aimed.induct)
  case (2 F r h)
  have "insert r F \<union> forked h = F \<union> forked (EFork r # h)" by (auto simp: forked_def)
  with 2 show ?case by simp
qed (auto simp: forked_def)

lemma well_aimed_bystander: "list_all bystander h \<Longrightarrow> well_aimed F h"
proof (induction h)
  case (Cons e h)
  then show ?case by (cases e) simp_all
qed simp

text \<open>The same, said of one signal or wait in the history.\<close>

lemma well_aimed_split:
  "well_aimed {} (h @ EKill k sig r # h') \<Longrightarrow> 1 < k \<and> EFork k \<in> set h"
  "well_aimed {} (h @ EWait k nohang w st # h') \<Longrightarrow> EFork k \<in> set h"
  by (auto simp: well_aimed_append forked_def)

section \<open>The invariant\<close>

text \<open>
  The history is well aimed, and an object records the pid 0 or one that a fork has given; those at
  the addresses \<open>L\<close> the latter. The pids \<open>F\<close> are known to have been given.
\<close>

definition owns :: "int set \<Rightarrow> nat set \<Rightarrow> sys \<Rightarrow> bool" where
  "owns F L s \<longleftrightarrow> well_aimed {} (hist s) \<and> F \<subseteq> forked (hist s) \<and>
     (\<forall>p pr. slot (procs s) p = Some pr \<longrightarrow> mProc pr \<in> forked (hist s) \<or> mProc pr = 0 \<and> p \<notin> L)"

lemma owns_mono: "owns F L s \<Longrightarrow> F' \<subseteq> F \<Longrightarrow> L' \<subseteq> L \<Longrightarrow> owns F' L' s"
  unfolding owns_def by blast

lemma owns_longer:
  assumes "owns F L s" "procs t = procs s" "hist t = hist s @ h" "well_aimed (forked (hist s)) h"
  shows "owns F L t"
  using assms by (auto simp: owns_def well_aimed_append)

interpretation aimed: calm_closed "owns F L" for F L
  by unfold_locales (blast intro: owns_longer well_aimed_bystander)

lemma keeps_calm: "calm m \<Longrightarrow> keeps (owns F L) m"
  unfolding keeps_def by (rule tripleI) (auto intro: aimed.calm_run)

lemma keeps_call:
  "(\<And>r h. F \<subseteq> forked h \<Longrightarrow> well_aimed (forked h) [ev r]) \<Longrightarrow> keeps (owns F L) (sys_call f ev er)"
  unfolding keeps_def
  by (rule tripleI) (auto simp: sys_call_def Let_def owns_def well_aimed_append)

lemma keeps_wait [keeps_intros]: "p \<in> F \<Longrightarrow> keeps (owns F L) (sys_waitpid os p nohang)"
  unfolding sys_waitpid_def by (intro keeps_bnd keeps_call) (auto intro: keeps_intros split: prod.split)

lemma keeps_signal [keeps_intros]: "1 < p \<Longrightarrow> p \<in> F \<Longrightarrow> keeps (owns F L) (sys_kill os p sig)"
  unfolding sys_kill_def by (intro keeps_bnd keeps_call) (auto intro: keeps_intros split: prod.split)

lemma owns_fewer:
  "owns F L s \<Longrightarrow> hist t = hist s \<Longrightarrow>
   (\<And>p pr. slot (procs t) p = Some pr \<Longrightarrow> slot (procs s) p = Some pr) \<Longrightarrow> owns F L t"
  unfolding owns_def by metis

lemma keeps_heap [keeps_intros]:
  "keeps (owns F L) (get_proc p)" "keeps (owns F L) (get_argv a)" "keeps (owns F L) (new_argv v)"
  "keeps (owns F L) (free_argv a)" "keeps (owns F L) (free_proc p)"
  unfolding keeps_def
  by (rule tripleI; erule owns_fewer;
      auto simp: slot_update get_proc_def get_argv_def new_argv_def free_argv_def free_proc_def
        bnd_def thn_def gets_def modify_def deref_def ret_def halt_def split: option.splits if_splits)+

lemma keeps_new_Process [keeps_intros]: "keeps (owns F {}) (new_Process a b)"
  unfolding keeps_def
  by (rule tripleI) (auto simp: owns_def new_Process_def new_proc_run slot_def nth_append split: if_splits)

lemma keeps_exec [keeps_intros]: "keeps (owns F L) (sys_exec os path file v)"
  unfolding keeps_def sys_exec_def
  by (rule tripleI) (auto simp: bnd_def gets_def halt_def modify_def split: option.splits elim!: owns_longer)

text \<open>A fork gives a new pid; an object read from the heap has one or none; recording one.\<close>

lemma owns_fork: "triple (owns F L) (sys_fork os) (\<lambda>r. owns (insert r F) L) (\<lambda>_. owns F L)"
  by (rule tripleI)
     (auto simp: sys_fork_def sys_call_def bnd_def ret_def Let_def owns_def well_aimed_append forked_def split: prod.splits, blast+)

lemma owns_get:
  "triple (owns F L) (get_proc p) (\<lambda>pr s. owns F L s \<and> (mProc pr = 0 \<and> p \<notin> L \<or> owns (insert (mProc pr) F) L s)) (\<lambda>_. owns F L)"
  by (rule tripleI)
     (auto simp: owns_def get_proc_def bnd_def gets_def deref_def ret_def halt_def split: option.splits)

lemma owns_put:
  assumes "r \<in> F"
  shows "triple (owns F L) (put_proc p (pr\<lparr>mProc := r\<rparr>)) (\<lambda>_. owns F (insert p L)) (\<lambda>_. owns F L)"
proof (rule tripleI)
  fix s x t assume s: "owns F L s" and "put_proc p (pr\<lparr>mProc := r\<rparr>) s = (Val x, t)"
  then have t: "t = s\<lparr>procs := (procs s)[p := Some (pr\<lparr>mProc := r\<rparr>)]\<rparr>" by (simp add: put_proc_run)
  have "mProc pr' \<in> forked (hist s) \<or> mProc pr' = 0 \<and> q \<notin> insert p L" if q: "slot (procs t) q = Some pr'" for q pr'
  proof (cases "q = p")
    case True
    with q slot_length [OF q] show ?thesis using assms s by (auto simp: t slot_update owns_def)
  next
    case False
    with q s show ?thesis by (auto simp: t slot_update owns_def)
  qed
  with s show "owns F (insert p L) t" by (auto simp: owns_def t)
qed (simp add: put_proc_run)

lemmas keeps_calls = keeps_calm [OF calm_LOG] keeps_calm [OF calm_LOG_ERROR] keeps_calm [OF calm_time]

section \<open>The operations of a process\<close>

lemma keeps_weaken:
  "keeps (owns F' L') m \<Longrightarrow> F \<subseteq> F' \<Longrightarrow> L \<subseteq> L' \<Longrightarrow> F0 \<subseteq> F' \<Longrightarrow> L0 \<subseteq> L' \<Longrightarrow>
   triple (owns F' L') m (\<lambda>_. owns F L) (\<lambda>_. owns F0 L0)"
  unfolding keeps_def by (erule triple_conseq) (auto elim: owns_mono)

lemma keeps_reports [keeps_intros]:
  "keeps (owns F L) (report_wait os lg pid)"
  "keeps (owns F L) (command_name v)"
  "keeps (owns F L) (report_failed os lg p)"
  "keeps (owns F L) (sys_usleep n)"
  unfolding report_wait_def command_name_def report_failed_def sys_usleep_def
  by (auto intro!: keeps_intros keeps_calls keeps_call)

lemma keeps_run_child: "keeps (owns F L) (run_child os lg p)"
  unfolding run_child_def by (intro keeps_intros keeps_calls)

lemma keeps_run_parent: "r \<in> F \<Longrightarrow> keeps (owns F L) (run_parent os lg p r)"
  unfolding run_parent_def by (auto intro!: keeps_intros keeps_calls split: prod.split)

text \<open>After a run the object records the pid of its fork.\<close>

lemma owns_run: "triple (owns F L) (run os lg p) (\<lambda>_. owns F (insert p L)) (\<lambda>_. owns F L)"
proof -
  have rest: "keeps (owns (insert r F) (insert p L))
      (if r = -1 then thn (LOG os lg ERROR ''Failed to launch fork!'' []) (thn (LOG_ERROR os lg ''fork'') (ret False))
       else if r = 0 then run_child os lg p else run_parent os lg p r)" for r
    by (intro keeps_intros keeps_calls keeps_run_child keeps_run_parent) simp
  have get: "triple (owns (insert r F) L) (get_proc p) (\<lambda>_. owns (insert r F) L) (\<lambda>_. owns F L)" for r
    by (rule keeps_weaken) (auto intro: keeps_intros)
  have put: "triple (owns (insert r F) L) (put_proc p (pr\<lparr>mProc := r\<rparr>)) (\<lambda>_. owns (insert r F) (insert p L)) (\<lambda>_. owns F L)"
    for r pr
    by (rule triple_conseq [OF owns_put [of r "insert r F" L]]) (simp_all, erule owns_mono, auto)
  show ?thesis
    unfolding run_def
    by (rule triple_bnd [OF owns_fork], rule triple_bnd [OF get], rule triple_thn [OF put],
        rule keeps_weaken [OF rest]) auto
qed

text \<open>What goes on with a pid read from the heap.\<close>

lemma keeps_get_pid:
  assumes "\<And>pr. keeps (owns (insert (mProc pr) F) L) (k pr)"
    and "\<And>pr. mProc pr = 0 \<Longrightarrow> p \<notin> L \<Longrightarrow> keeps (owns F L) (k pr)"
  shows "keeps (owns F L) (bnd (get_proc p) k)"
  unfolding keeps_def
proof (rule triple_bnd [OF owns_get])
  fix pr :: process
  let ?I = "\<lambda>s. owns F L s \<and> (mProc pr = 0 \<and> p \<notin> L \<or> owns (insert (mProc pr) F) L s)"
  show "triple ?I (k pr) (\<lambda>_. owns F L) (\<lambda>_. owns F L)"
  proof (cases "mProc pr = 0 \<and> p \<notin> L")
    case True
    with assms(2) [of pr] show ?thesis unfolding keeps_def by (auto elim: triple_pre)
  next
    case False
    have "triple (owns (insert (mProc pr) F) L) (k pr) (\<lambda>_. owns F L) (\<lambda>_. owns F L)"
      by (rule keeps_weaken [OF assms(1)]) auto
    then show ?thesis by (rule triple_pre) (use False in auto)
  qed
qed

lemma keeps_run [keeps_intros]: "keeps (owns F L) (run os lg p)"
  unfolding keeps_def by (rule triple_post [OF owns_run], erule owns_mono) auto

lemma keeps_runAndWait [keeps_intros]: "keeps (owns F L) (runAndWait os lg p)"
proof -
  have "keeps (owns F (insert p L)) (bnd (get_proc p) (\<lambda>pr. bnd (sys_waitpid os (mProc pr) False) (\<lambda>(pid, status).
      thn (report_wait os lg pid)
     (if 0 < pid \<and> status \<noteq> 0 then thn (report_failed os lg p) (ret False) else ret True))))"
    by (rule keeps_get_pid) (auto intro!: keeps_intros split: prod.split)
  then have rest: "keeps (owns F (insert p L)) (if \<not> started then ret False else bnd (get_proc p) (\<lambda>pr.
      bnd (sys_waitpid os (mProc pr) False) (\<lambda>(pid, status). thn (report_wait os lg pid)
     (if 0 < pid \<and> status \<noteq> 0 then thn (report_failed os lg p) (ret False) else ret True))))" for started
    by (cases started) (simp_all add: keeps_simple)
  show ?thesis
    unfolding keeps_def runAndWait_def
    by (rule triple_bnd [OF owns_run], rule keeps_weaken [OF rest]) auto
qed

lemma keeps_terminate: "1 < m \<Longrightarrow> m \<in> F \<Longrightarrow> keeps (owns F L) (terminate os m)"
  unfolding terminate_def by (intro keeps_intros)

lemma keeps_kill [keeps_intros]: "keeps (owns F L) (kill os lg p)"
  unfolding kill_def
  by (rule keeps_get_pid) (auto intro!: keeps_intros keeps_calls keeps_terminate split: prod.split)

lemma keeps_delete_Process [keeps_intros]: "keeps (owns F L) (delete_Process os lg p)"
  unfolding delete_Process_def by (intro keeps_intros)

section \<open>The manager, the watcher and the configuration\<close>

lemma keeps_restartAll [keeps_intros]: "keeps (owns F L) (restartAll os lg pm)"
  unfolding restartAll_def haltConstructionProcs_def runBuild_def runProcesses_def runOne_def haltProgram_def startProgram_def
  by (intro keeps_intros keeps_calls)

lemma keeps_killAll [keeps_intros]: "keeps (owns F L) (killAll os lg pm)"
  unfolding killAll_def haltConstructionProcs_def by (intro keeps_intros)

lemma keeps_delete_ProcessManager [keeps_intros]: "keeps (owns F L) (delete_ProcessManager os lg pm)"
  unfolding delete_ProcessManager_def delete_maybe_def by (auto intro!: keeps_intros split: option.split)

lemma keeps_on_event [keeps_intros]: "keeps (owns F L) (on_event os lg c pm ev w)"
  unfolding on_event_def on_filter_def rebuild_def restartProgram_def restartProcesses_def Let_def
  by (intro keeps_intros keeps_calls)

lemma keeps_event_loop [keeps_intros]: "keeps (owns F L) (event_loop n os lg c pm i got w)"
  by (induction n arbitrary: i w) (simp_all add: keeps_intros)

lemma keeps_listen: "keeps (owns F L) (listen os lg c pm w)"
  unfolding listen_def Let_def
  by (auto intro!: keeps_intros keeps_calls keeps_calm [OF calm_select_read(1)] keeps_calm [OF calm_select_read(2)])

lemma keeps_delete_Watcher: "keeps (owns F L) (delete_Watcher os lg pm w)"
proof -
  have "calm (removeAllWatches os fd fds)" "calm (sys_close fd)" for fd fds by (intro calm_intros)+
  then show ?thesis unfolding delete_Watcher_def by (intro keeps_intros keeps_calm)
qed

lemma keeps_delete_Config: "keeps (owns F L) (delete_Config c)"
  unfolding delete_Config_def free_command_def by (auto intro!: keeps_intros split: option.split)

lemma keeps_parse:
  "keeps (owns F L) (lift_exn r)" "keeps (owns F L) (as_string y n)" "keeps (owns F L) (as_bool y n)"
  "keeps (owns F L) (assert_that b)" "keeps (owns F L) (complain msg)"
  by (auto simp: lift_exn_def as_string_def as_bool_def assert_that_def complain_def sys_write_def
      intro!: keeps_intros keeps_call split: sum.split)

lemma keeps_sections:
  "keeps (owns F L) (parseCommandSection os lg y n cc)"
  "keeps (owns F L) (parseWatcher os lg y n wc)"
  "keeps (owns F {}) (section_process cc)"
  unfolding parseCommandSection_def command_key_def parseWatcher_def watch_key_def add_filter_def one_or_many_def
    add_include_def add_exclude_def section_process_def Let_def
  by (auto intro!: keeps_intros keeps_calls keeps_parse split: option.split)

lemma keeps_new_Config: "keeps (owns F {}) (new_Config os lg y pm)"
  unfolding new_Config_def findConfig_def parseConfig_def section_key_def section_defs setProgram_def setBuilder_def Let_def
  by (auto intro!: keeps_intros keeps_call keeps_parse keeps_sections split: option.split prod.split)

section \<open>Pids that are no longer the program's\<close>

lemma kill_collected:
  assumes "slot (procs s) p = Some pr" "1 < mProc pr" "mProc pr \<notin> kids (hist s)" "posix os"
    and "fst (os_kill os (hist s) (mProc pr) 0) = 0"
  shows "\<exists>t st. kill os lg p s = (Val True, t) \<and>
    hist t = hist s @ [EKill (mProc pr) 0 0, EKill (mProc pr) SIGTERM 0, EWait (mProc pr) False (-1) st]"
proof -
  let ?m = "mProc pr"
  obtain s1 where s1: "sys_kill os ?m 0 s = (Val 0, s1)" "hist s1 = hist s @ [EKill ?m 0 0]"
    using sys_kill_run [of os ?m 0 s] assms(5) by auto
  moreover have "fst (os_kill os (hist s1) ?m SIGTERM) = 0"
    using assms(2,4,5) s1(2) by (simp add: posix_def posix_kill_def)
  then obtain s2 where s2: "sys_kill os ?m SIGTERM s1 = (Val 0, s2)" "hist s2 = hist s1 @ [EKill ?m SIGTERM 0]"
    using sys_kill_run [of os ?m SIGTERM s1] by auto
  ultimately have ended: "terminate os ?m s = (Val False, s2)" by (simp add: terminate_def seq_run ret_run)
  obtain st where w: "os_waitpid os (hist s2) ?m False = (-1, st, ECHILD)"
  proof -
    obtain r st e where w: "os_waitpid os (hist s2) ?m False = (r, st, e)" by (metis prod_cases3)
    moreover have "?m \<notin> kids (hist s2)" using assms(3) s1(2) s2(2) by (simp add: kids_snoc del: append_assoc)
    ultimately have "r = -1" "e = ECHILD" using assms(2,4) unfolding posix_def posix_wait_def by (metis less_trans zero_less_one)+
    with w that show thesis by simp
  qed
  let ?s = "s2\<lparr>hist := hist s2 @ [EWait ?m False (-1) st], errno := ECHILD\<rparr>"
  have wait: "sys_waitpid os ?m False s2 = (Val (-1, 0), ?s)"
    using w by (simp add: sys_waitpid_def sys_call_def bnd_def ret_def Let_def)
  have quiet: "report_wait os lg (-1) ?s = (Val (), ?s)"
    by (simp add: report_wait_def seq_run gets_run ret_run)
  have "kill os lg p s = (Val True, ?s)"
    using assms(2) by (simp add: kill_def seq_run get_proc_run [OF assms(1)] ended wait quiet ret_run)
  then show ?thesis using s1(2) s2(2) by simp
qed

text \<open>
  C27. In a session every pid recorded besides the program's is stale: its child has been collected, and
  the system may have given the number away. \<open>kill\<close>, which begins every restart with the tests and is
  called for every object at the end, then terminates whoever has it, and reports success.
\<close>

theorem stale_pid_signalled:
  assumes "session os c pm b g s" "slot (procs s) p = Some pr"
    and "1 < mProc pr" "mProc pr \<noteq> pid_of (procs s) g"
    and "fst (os_kill os (hist s) (mProc pr) 0) = 0"
  shows "mProc pr \<notin> kids (hist s) \<and> (\<exists>t st. kill os lg p s = (Val True, t) \<and>
    hist t = hist s @ [EKill (mProc pr) 0 0, EKill (mProc pr) SIGTERM 0, EWait (mProc pr) False (-1) st])"
proof -
  have gone: "mProc pr \<notin> kids (hist s)" and "posix os"
    using assms(1,4) by (auto simp: session_def only_program_def)
  with kill_collected [OF assms(2,3) gone _ assms(5)] show ?thesis by simp
qed

text \<open>A test that was run with the pid 101, which another process has now.\<close>

theorem stale_pid_signalled_witness:
  "\<exists>t st. kill ((ready_os [])\<lparr>os_kill := \<lambda>h p sig. (0, 0)\<rparr>) StdoutLogger 1
      (demo_sys\<lparr>hist := [EFork 101, EWait 101 False 101 0],
         procs := [Some (demo_proc 0), Some ((demo_proc 1)\<lparr>mProc := 101\<rparr>), Some (demo_proc 2)]\<rparr>) = (Val True, t) \<and>
     hist t = [EFork 101, EWait 101 False 101 0, EKill 101 0 0, EKill 101 SIGTERM 0, EWait 101 False (-1) st]"
proof -
  let ?os = "(ready_os [])\<lparr>os_kill := \<lambda>h p sig. (0, 0)\<rparr>"
  let ?s = "demo_sys\<lparr>hist := [EFork 101, EWait 101 False 101 0],
      procs := [Some (demo_proc 0), Some ((demo_proc 1)\<lparr>mProc := 101\<rparr>), Some (demo_proc 2)]\<rparr>"
  have same: "same_procs (procs demo_sys) (procs ?s)"
    using same_procs_update [of "procs demo_sys" 1 "demo_proc 1" 101] by (simp add: demo_sys_def slot_def)
  have "session (ready_os []) demo_config demo_pm 0 2 demo_sys" by (rule demo_session)
  then have "cfg_ok (procs ?s) (argvs ?s) demo_config demo_pm" "procman_ready (procs ?s) (argvs ?s) demo_pm 0 2"
    using same_procs_cfg_ok [OF same] procman_ready_same [OF _ same] by (simp_all add: session_def)
  moreover have "posix ?os"
    using ready_posix [of "[]"] by (simp add: posix_def posix_fork_def posix_wait_def posix_kill_def)
  moreover have "kids [EFork 101, EWait 101 False 101 0] = {}" by (simp add: kids_def)
  ultimately have s: "session ?os demo_config demo_pm 0 2 ?s" by (simp add: session_def only_program_def)
  have "slot (procs ?s) 1 = Some ((demo_proc 1)\<lparr>mProc := 101\<rparr>)" "mProc ((demo_proc 1)\<lparr>mProc := 101\<rparr>) = 101"
      "pid_of (procs ?s) 2 = 0" "os_kill ?os (hist ?s) 101 0 = (0, 0)"
    by (simp_all add: slot_def pid_of_def demo_proc_def)
  with stale_pid_signalled [OF s this(1), of StdoutLogger] show ?thesis by simp
qed

end
