(* ===== verification/Document.thy ===== *)
theory Document
  imports Config
begin

text \<open>
  What a configuration file means, without heap, vectors and objects: \<open>document_of\<close> reads the document
  as values, and the code of src/src/config.cpp refines it. It returns exactly when the document has a
  meaning, with the configuration and the processes this meaning asks for, and otherwise ends with the
  error the meaning names.
\<close>

section \<open>The meaning of a document\<close>

record section_spec =
  spec_on :: bool
  spec_words :: "string list option"

record doc_spec =
  doc_watch :: WatchConfig
  doc_compile :: section_spec
  doc_test :: section_spec
  doc_program :: section_spec
  doc_builder :: "string list option"
  doc_tests :: "string list list"
  doc_started :: "string list option"

primrec efold :: "('a \<Rightarrow> 'b \<Rightarrow> stop + 'b) \<Rightarrow> 'a list \<Rightarrow> 'b \<Rightarrow> stop + 'b" where
  "efold f [] b = Inr b"
| "efold f (x # xs) b = ebnd (f x b) (efold f xs)"

lemma efold_Nil: "efold f [] = Inr"
  by (rule ext) simp

lemma ebnd_Inr: "ebnd r Inr = r"
  by (cases r) simp_all

definition thrown :: "exn + 'a \<Rightarrow> stop + 'a" where
  "thrown r = (case r of Inl e \<Rightarrow> Inl (Throw e) | Inr x \<Rightarrow> Inr x)"

abbreviation config_error :: "string \<Rightarrow> stop + 'a" where
  "config_error message \<equiv> Inl (Throw (Runtime_error message))"

definition text_of :: "'n yaml \<Rightarrow> 'n \<Rightarrow> stop + string" where
  "text_of y n = thrown (y_string y n)"

text \<open>The entries of a map, in order; a section that is empty or no map has none.\<close>

definition entries :: "'n yaml \<Rightarrow> 'n \<Rightarrow> ('n \<times> 'n \<times> 'n) list" where
  "entries y n = (if 1 \<le> y_size y n \<and> y_type y n = Map then y_iter y n else [])"

definition words_of :: "string \<Rightarrow> string list" where
  "words_of line = (if line = [] then [] else map cstr (toks False [] line))"

definition command_entry :: "'n yaml \<Rightarrow> 'n \<times> 'n \<times> 'n \<Rightarrow> section_spec \<Rightarrow> stop + section_spec" where
  "command_entry y it sp =
     ebnd (text_of y (fst (snd it))) (\<lambda>key.
     if lowercase_r key = ''command'' \<and> y_type y (snd (snd it)) = Scalar then
       ebnd (text_of y (snd (snd it))) (\<lambda>line. Inr (sp\<lparr>spec_words := Some (words_of line)\<rparr>))
     else if lowercase_r key = ''enabled'' then
       ebnd (thrown (y_bool y (snd (snd it)))) (\<lambda>b. Inr (sp\<lparr>spec_on := b\<rparr>))
     else Inr sp)"

definition command_part :: "'n yaml \<Rightarrow> 'n \<Rightarrow> section_spec \<Rightarrow> stop + section_spec" where
  "command_part y n = efold (command_entry y) (entries y n)"

definition filter_entry :: "'n yaml \<Rightarrow> 'n \<Rightarrow> WatchConfig \<Rightarrow> stop + WatchConfig" where
  "filter_entry y n w =
     ebnd (text_of y n) (\<lambda>f.
     if 1 < count_list f (CHR ''*'') then config_error ''Could not open file''
     else Inr (w\<lparr>filters := filters w @ [f]\<rparr>))"

text \<open>The values of a key that takes a sequence or a scalar.\<close>

definition many_of :: "'n yaml \<Rightarrow> 'n \<Rightarrow> 'n list" where
  "many_of y n = (if y_type y n = Sequence then map fst (y_iter y n) else if y_type y n = Scalar then [n] else [])"

definition watch_entry :: "'n yaml \<Rightarrow> 'n \<times> 'n \<times> 'n \<Rightarrow> WatchConfig \<Rightarrow> stop + WatchConfig" where
  "watch_entry y it w =
     ebnd (text_of y (fst (snd it))) (\<lambda>key.
     if lowercase_r key = ''filter'' then efold (filter_entry y) (map fst (y_iter y (snd (snd it)))) w
     else if lowercase_r key = ''include'' then
       efold (\<lambda>n w. ebnd (text_of y n) (\<lambda>f. Inr (w\<lparr>included := included w @ [f]\<rparr>))) (many_of y (snd (snd it))) w
     else if lowercase_r key = ''exclude'' then
       efold (\<lambda>n w. ebnd (text_of y n) (\<lambda>f. Inr (w\<lparr>excluded := excluded w @ [f]\<rparr>))) (many_of y (snd (snd it))) w
     else ebnd (text_of y (snd (snd it))) (\<lambda>_. Inr w))"

definition watch_part :: "'n yaml \<Rightarrow> 'n \<Rightarrow> WatchConfig \<Rightarrow> stop + WatchConfig" where
  "watch_part y n = efold (watch_entry y) (entries y n)"

text \<open>The process a section asks for.\<close>

definition launched :: "section_spec \<Rightarrow> string list option" where
  "launched sp = (if spec_on sp then spec_words sp else None)"

definition section_entry :: "'n yaml \<Rightarrow> 'n \<times> 'n \<times> 'n \<Rightarrow> doc_spec \<Rightarrow> stop + doc_spec" where
  "section_entry y it d =
     (if y_type y (snd (snd it)) \<noteq> Map then Inl Assert_failed
      else ebnd (text_of y (fst (snd it))) (\<lambda>key.
        if lowercase_r key = ''watch'' then
          ebnd (watch_part y (snd (snd it)) (doc_watch d)) (\<lambda>w. Inr (d\<lparr>doc_watch := w\<rparr>))
        else if lowercase_r key = ''program'' then
          ebnd (command_part y (snd (snd it)) (doc_program d)) (\<lambda>sp.
          if doc_started d \<noteq> None then config_error ''Program already set!''
          else Inr (d\<lparr>doc_program := sp, doc_started := launched sp\<rparr>))
        else if lowercase_r key = ''test'' then
          ebnd (command_part y (snd (snd it)) (doc_test d)) (\<lambda>sp.
            Inr (d\<lparr>doc_test := sp, doc_tests := doc_tests d @ opt_list (launched sp)\<rparr>))
        else if lowercase_r key = ''compile'' then
          ebnd (command_part y (snd (snd it)) (doc_compile d)) (\<lambda>sp.
          if doc_builder d \<noteq> None then config_error ''BuildStage already set!''
          else Inr (d\<lparr>doc_compile := sp, doc_builder := launched sp\<rparr>))
        else config_error ''Found a config error!''))"

definition no_section :: section_spec where
  "no_section = \<lparr>spec_on = True, spec_words = None\<rparr>"

definition empty_doc :: doc_spec where
  "empty_doc = \<lparr>doc_watch = \<lparr>filters = [], included = [], excluded = []\<rparr>,
     doc_compile = no_section, doc_test = no_section, doc_program = no_section,
     doc_builder = None, doc_tests = [], doc_started = None\<rparr>"

definition document_of :: "'n yaml \<Rightarrow> string \<Rightarrow> stop + doc_spec" where
  "document_of y content =
     ebnd (thrown (y_load y content)) (\<lambda>n.
     if y_valid y n \<and> y_type y n = Map \<and> y_valid y (y_lookup y n ''watch'') \<and> y_valid y (y_lookup y n ''program'')
     then efold (section_entry y) (y_iter y n) empty_doc
     else Inl Assert_failed)"

section \<open>Refinement of a result\<close>

text \<open>
  \<open>reads S m r Q\<close>: from a state in \<open>S\<close>, the computation returns exactly when the result \<open>r\<close> is a value,
  and then \<open>Q\<close> relates the two values in the state reached; otherwise it stops with the error of \<open>r\<close>.
\<close>

definition reads :: "(sys \<Rightarrow> bool) \<Rightarrow> 'a io \<Rightarrow> stop + 'b \<Rightarrow> ('a \<Rightarrow> 'b \<Rightarrow> sys \<Rightarrow> bool) \<Rightarrow> bool" where
  "reads S m r Q \<longleftrightarrow> triple S m (\<lambda>x s. \<exists>v. r = Inr v \<and> Q x v s) (\<lambda>e _. r = Inl e)"

named_theorems reads_intros \<open>rules for the refinement of results\<close>

lemma reads_ret [reads_intros]: "(\<And>s. S s \<Longrightarrow> Q x v s) \<Longrightarrow> reads S (ret x) (Inr v) Q"
  by (simp add: reads_def triple_ret)

lemma reads_halt [reads_intros]: "reads S (halt e) (Inl e) Q"
  by (simp add: reads_def triple_halt)

lemma reads_bnd:
  assumes m: "reads S m r R" and k: "\<And>x v. r = Inr v \<Longrightarrow> reads (R x v) (k x) (rk v) Q"
  shows "reads S (bnd m k) (ebnd r rk) Q"
  unfolding reads_def
proof (rule triple_bnd)
  show "triple S m (\<lambda>x s. \<exists>v. r = Inr v \<and> R x v s) (\<lambda>e _. ebnd r rk = Inl e)"
    by (rule triple_conseq [OF m [unfolded reads_def]]) auto
  show "triple (\<lambda>s. \<exists>v. r = Inr v \<and> R x v s) (k x) (\<lambda>x s. \<exists>v. ebnd r rk = Inr v \<and> Q x v s)
      (\<lambda>e _. ebnd r rk = Inl e)" for x
  proof (cases r)
    case (Inr v)
    with k [OF Inr, of x] show ?thesis by (simp add: reads_def)
  qed (simp add: triple_def)
qed

lemma reads_pre: "reads S m r Q \<Longrightarrow> (\<And>s. S' s \<Longrightarrow> S s) \<Longrightarrow> reads S' m r Q"
  unfolding reads_def by (rule triple_pre)

lemma reads_post: "reads S m r Q \<Longrightarrow> (\<And>x v s. r = Inr v \<Longrightarrow> Q x v s \<Longrightarrow> Q' x v s) \<Longrightarrow> reads S m r Q'"
  unfolding reads_def by (erule triple_post) blast

lemma reads_ex: "(\<And>x. reads (S x) m r Q) \<Longrightarrow> reads (\<lambda>s. \<exists>x. S x s) m r Q"
  unfolding reads_def by (rule triple_ex)

lemma reads_if [reads_intros]:
  "(b \<Longrightarrow> reads S m r Q) \<Longrightarrow> (\<not> b \<Longrightarrow> reads S n t Q) \<Longrightarrow> reads S (if b then m else n) (if b then r else t) Q"
  by simp

lemma reads_for:
  assumes "\<And>x b v. x \<in> set xs \<Longrightarrow> reads (I b v) (f x b) (rf (g x) v) I"
  shows "reads (I b v) (for_acc f xs b) (efold rf (map g xs) v) I"
  using assms
proof (induction xs arbitrary: b v)
  case Nil
  show ?case by (simp add: reads_ret)
next
  case (Cons x xs)
  have "reads (I b v) (bnd (f x b) (for_acc f xs)) (ebnd (rf (g x) v) (efold rf (map g xs))) I"
    by (rule reads_bnd [OF Cons.prems Cons.IH]) (simp_all add: Cons.prems)
  then show ?case by simp
qed

lemma reads_bnd_exn:
  "(\<And>x. r = Inr x \<Longrightarrow> reads S (k x) (rk x) Q) \<Longrightarrow> reads S (bnd (lift_exn r) k) (ebnd (thrown r) rk) Q"
  by (cases r) (simp_all add: lift_exn_def thrown_def reads_halt)

lemma reads_as_string [reads_intros]:
  "(\<And>x. y_string y n = Inr x \<Longrightarrow> reads S (k x) (rk x) Q) \<Longrightarrow> reads S (bnd (as_string y n) k) (ebnd (text_of y n) rk) Q"
  unfolding as_string_def text_of_def by (rule reads_bnd_exn)

lemma reads_as_bool [reads_intros]:
  "(\<And>x. y_bool y n = Inr x \<Longrightarrow> reads S (k x) (rk x) Q) \<Longrightarrow> reads S (bnd (as_bool y n) k) (ebnd (thrown (y_bool y n)) rk) Q"
  unfolding as_bool_def by (rule reads_bnd_exn)

text \<open>A text that was converted before is converted again.\<close>

lemma as_string_again: "y_string y n = Inr x \<Longrightarrow> bnd (as_string y n) k = k x"
  by (simp add: as_string_def lift_exn_def)

lemma reads_assert [reads_intros]:
  "(b \<Longrightarrow> reads S k r Q) \<Longrightarrow> (\<not> b \<Longrightarrow> r = Inl Assert_failed) \<Longrightarrow> reads S (thn (assert_that b) k) r Q"
  by (cases b) (simp_all add: assert_that_def thn_def reads_halt)

lemma reads_LOG [reads_intros]:
  assumes "vformat format as \<noteq> None" "reads (heap_is P V K) k r Q"
  shows "reads (heap_is P V K) (thn (LOG os lg level format as) k) r Q"
  unfolding reads_def by (rule heap_thn_LOG [OF assms(1) assms(2) [unfolded reads_def]])

lemma reads_complain [reads_intros]:
  "reads (heap_is P V K) k r Q \<Longrightarrow> reads (heap_is P V K) (thn (if b then complain message else ret ()) k) r Q"
  unfolding reads_def by (intro heap_thn_if heap_thn_complain)

section \<open>The watch section\<close>

lemma asterisk_count_list: "asterisk_count f = count_list f (CHR ''*'')"
  by (induction f) auto

text \<open>Reading leaves the heap alone and gives the same value.\<close>

abbreviation same_value :: "process option list \<Rightarrow> string list option list \<Rightarrow> int set \<Rightarrow> 'a \<Rightarrow> 'a \<Rightarrow> sys \<Rightarrow> bool" where
  "same_value P V K x v s \<equiv> heap_is P V K s \<and> x = v"

lemma reads_same: "(x = v \<Longrightarrow> reads (heap_is P V K) m r Q) \<Longrightarrow> reads (same_value P V K x v) m r Q"
  unfolding reads_def by (rule triple_pure)

lemma reads_for_same:
  assumes "\<And>x w. reads (heap_is P V K) (f x w) (rf (g x) w) (same_value P V K)"
  shows "reads (heap_is P V K) (for_acc f xs w) (efold rf (map g xs) w) (same_value P V K)"
  by (rule reads_pre [OF reads_for [where I = "same_value P V K"]]) (auto intro: reads_same assms)

lemma reads_add_filter:
  "reads (heap_is P V K) (add_filter os lg y it w) (filter_entry y (fst it) w) (same_value P V K)"
  unfolding add_filter_def filter_entry_def asterisk_count_list by (intro reads_intros) simp_all

lemma reads_one_or_many:
  assumes "\<And>n w. reads (heap_is P V K) (add n w) (radd n w) (same_value P V K)"
  shows "reads (heap_is P V K) (one_or_many y value add w) (efold radd (many_of y value) w) (same_value P V K)"
proof -
  have one: "reads (heap_is P V K) (add n w) (efold radd [n] w) (same_value P V K)" for n w
    using assms [of n w] by (simp add: efold_Nil ebnd_Inr)
  have "reads (heap_is P V K) (for_acc (\<lambda>it. add (fst it)) xs w) (efold radd (map fst xs) w) (same_value P V K)" for xs
    by (rule reads_for_same) (rule assms)
  then show ?thesis
    unfolding one_or_many_def many_of_def
    by (intro reads_complain) (use one in \<open>auto intro: reads_ret\<close>)
qed

lemma reads_add_include:
  "reads (heap_is P V K) (add_include os lg y n w) (ebnd (text_of y n) (\<lambda>f. Inr (w\<lparr>included := included w @ [f]\<rparr>)))
    (same_value P V K)"
  unfolding add_include_def by (intro reads_intros) (simp_all add: as_string_again reads_ret)

lemma reads_add_exclude:
  "reads (heap_is P V K) (add_exclude os lg y n w) (ebnd (text_of y n) (\<lambda>f. Inr (w\<lparr>excluded := excluded w @ [f]\<rparr>)))
    (same_value P V K)"
  unfolding add_exclude_def by (intro reads_intros) (simp_all add: as_string_again reads_ret)

lemma reads_watch_key:
  "reads (heap_is P V K) (watch_key os lg y it w) (watch_entry y it w) (same_value P V K)"
proof -
  have "reads (heap_is P V K) (for_acc (add_filter os lg y) (y_iter y n) w)
      (efold (filter_entry y) (map fst (y_iter y n)) w) (same_value P V K)" for n
    by (rule reads_for_same) (rule reads_add_filter)
  then show ?thesis
    unfolding watch_key_def watch_entry_def Let_def lowercase_eq
    by (intro reads_intros reads_one_or_many reads_add_include reads_add_exclude) simp_all
qed

lemma reads_parseWatcher:
  "reads (heap_is P V K) (parseWatcher os lg y n w) (watch_part y n w) (same_value P V K)"
proof -
  have "reads (heap_is P V K) (for_acc (watch_key os lg y) its w) (efold (watch_entry y) (map (\<lambda>it. it) its) w)
      (same_value P V K)" for its
    by (rule reads_for_same) (rule reads_watch_key)
  then show ?thesis by (simp add: parseWatcher_def watch_part_def entries_def reads_ret)
qed

section \<open>A command section\<close>

definition shows_section :: "string list option list \<Rightarrow> CommandConfig \<Rightarrow> section_spec \<Rightarrow> bool" where
  "shows_section V cc sp \<longleftrightarrow> enabled cc = spec_on sp \<and>
     rel_option (\<lambda>a ws. slot V a = Some ws) (cmd cc) (spec_words sp)"

lemma rel_option_grow: "rel_option R x v \<Longrightarrow> (\<And>a b. R a b \<Longrightarrow> R' a b) \<Longrightarrow> rel_option R' x v"
  by (auto intro: option.rel_mono_strong)

lemma shows_section_grow: "shows_section V cc sp \<Longrightarrow> shows_section (V @ W) cc sp"
  unfolding shows_section_def by (auto intro: slot_append elim: rel_option_grow)

text \<open>The heap may have got new vectors; in it the section is as specified.\<close>

definition section_state :: "process option list \<Rightarrow> string list option list \<Rightarrow> int set \<Rightarrow>
    CommandConfig \<Rightarrow> section_spec \<Rightarrow> sys \<Rightarrow> bool" where
  "section_state P V K cc sp s \<longleftrightarrow> (\<exists>W. heap_is P (V @ W) K s \<and> shows_section (V @ W) cc sp)"

lemma section_state_here: "heap_is P V K s \<Longrightarrow> shows_section V cc sp \<Longrightarrow> section_state P V K cc sp s"
  unfolding section_state_def by (intro exI [of _ "[]"]) simp

lemma section_state_later: "section_state P (V @ W) K cc sp s \<Longrightarrow> section_state P V K cc sp s"
  unfolding section_state_def by (metis append_assoc)

lemma section_state_new:
  "heap_is P (V @ [Some ws]) K s \<Longrightarrow> shows_section V cc sp \<Longrightarrow>
   section_state P V K (cc\<lparr>cmd := Some (length V)\<rparr>) (sp\<lparr>spec_words := Some ws\<rparr>) s"
  unfolding section_state_def shows_section_def by (intro exI [of _ "[Some ws]"]) simp

lemma reads_new_argv:
  "reads (heap_is P (V @ [Some v]) K) (k (length V)) r Q \<Longrightarrow> reads (heap_is P V K) (bnd (new_argv v) k) r Q"
  unfolding reads_def by (rule heap_bnd_new_argv)

lemma parseCommand_words_of: "parseCommand line = Inr (words_of line)"
  by (simp add: parseCommand_eq words_of_def)

lemma reads_command_key:
  assumes "shows_section V cc sp"
  shows "reads (heap_is P V K) (command_key os lg y it cc) (command_entry y it sp) (section_state P V K)"
proof -
  have kept: "reads (heap_is P V K) (ret cc) (Inr sp) (section_state P V K)"
    by (intro reads_ret section_state_here assms)
  have switched: "reads (heap_is P V K) (ret (cc\<lparr>enabled := b\<rparr>)) (Inr (sp\<lparr>spec_on := b\<rparr>)) (section_state P V K)" for b
    by (intro reads_ret section_state_here) (use assms in \<open>simp_all add: shows_section_def\<close>)
  have new: "reads (heap_is P V K) (bnd (new_argv ws) (\<lambda>a. ret (cc\<lparr>cmd := Some a\<rparr>)))
      (Inr (sp\<lparr>spec_words := Some ws\<rparr>)) (section_state P V K)" for ws
    by (intro reads_new_argv reads_ret section_state_new assms)
  have command: "reads (heap_is P V K)
      (bnd (as_string y n) (\<lambda>text. thn (LOG os lg DEBUG ''Proc: %s'' [PStr text])
        (bnd (as_string y n) (\<lambda>text. bnd (lift_res (parseCommand text)) (\<lambda>v. bnd (new_argv v) (\<lambda>a. ret (cc\<lparr>cmd := Some a\<rparr>)))))))
      (ebnd (text_of y n) (\<lambda>line. Inr (sp\<lparr>spec_words := Some (words_of line)\<rparr>))) (section_state P V K)" for n
    by (intro reads_as_string reads_LOG) (simp_all add: as_string_again parseCommand_words_of lift_res_def new)
  show ?thesis
    unfolding command_key_def command_entry_def Let_def lowercase_eq
  proof (rule reads_as_string)
    fix key
    show "reads (heap_is P V K)
      (if lowercase_r key = ''command'' then
         (if y_type y (snd (snd it)) = Scalar then
            bnd (as_string y (snd (snd it))) (\<lambda>text. thn (LOG os lg DEBUG ''Proc: %s'' [PStr text])
              (bnd (as_string y (snd (snd it))) (\<lambda>text. bnd (lift_res (parseCommand text)) (\<lambda>v.
                 bnd (new_argv v) (\<lambda>a. ret (cc\<lparr>cmd := Some a\<rparr>))))))
          else ret cc)
       else if lowercase_r key = ''enabled'' then bnd (as_bool y (snd (snd it))) (\<lambda>b. ret (cc\<lparr>enabled := b\<rparr>))
       else ret cc)
      (if lowercase_r key = ''command'' \<and> y_type y (snd (snd it)) = Scalar then
         ebnd (text_of y (snd (snd it))) (\<lambda>line. Inr (sp\<lparr>spec_words := Some (words_of line)\<rparr>))
       else if lowercase_r key = ''enabled'' then
         ebnd (thrown (y_bool y (snd (snd it)))) (\<lambda>b. Inr (sp\<lparr>spec_on := b\<rparr>))
       else Inr sp) (section_state P V K)"
      by (auto intro: command kept reads_as_bool switched)
  qed
qed

lemma reads_section_state:
  assumes "\<And>W. shows_section (V @ W) cc sp \<Longrightarrow> reads (heap_is P (V @ W) K) m r Q"
  shows "reads (section_state P V K cc sp) m r Q"
  unfolding section_state_def [abs_def]
  by (rule reads_ex) (use assms in \<open>auto simp: reads_def intro!: triple_pure\<close>)

lemma reads_parseCommandSection:
  assumes "shows_section V cc sp"
  shows "reads (heap_is P V K) (parseCommandSection os lg y n cc) (command_part y n sp) (section_state P V K)"
proof -
  have "reads (section_state P V K b v) (command_key os lg y it b) (command_entry y it v) (section_state P V K)" for it b v
    by (rule reads_section_state, rule reads_post [OF reads_command_key]) (auto intro: section_state_later)
  then have "reads (section_state P V K cc sp) (for_acc (command_key os lg y) its cc)
      (efold (command_entry y) (map (\<lambda>it. it) its) sp) (section_state P V K)" for its
    by (intro reads_for)
  then have "reads (heap_is P V K) (for_acc (command_key os lg y) its cc) (efold (command_entry y) its sp) (section_state P V K)" for its
    by (auto intro: reads_pre section_state_here [OF _ assms])
  then show ?thesis
    by (simp add: parseCommandSection_def command_part_def entries_def reads_ret section_state_here [OF _ assms])
qed

section \<open>The sections and the manager\<close>

text \<open>The process a manager lists, and the arguments of the document it runs.\<close>

definition runs :: "process option list \<Rightarrow> string list option list \<Rightarrow> nat \<Rightarrow> string list \<Rightarrow> bool" where
  "runs P V p ws \<longleftrightarrow> (\<exists>a. slot P p = Some (section_object a) \<and> slot V a = Some ws)"

definition shows_document :: "process option list \<Rightarrow> string list option list \<Rightarrow> config \<Rightarrow> procman \<Rightarrow> doc_spec \<Rightarrow> bool" where
  "shows_document P V c pm d \<longleftrightarrow> mWatch c = doc_watch d \<and>
     shows_section V (mCompile c) (doc_compile d) \<and> shows_section V (mTest c) (doc_test d) \<and>
     shows_section V (mProgramConfig c) (doc_program d) \<and>
     rel_option (runs P V) (mBuildStep pm) (doc_builder d) \<and>
     list_all2 (runs P V) (mProcesses pm) (doc_tests d) \<and>
     rel_option (runs P V) (mProgram pm) (doc_started d)"

lemma runs_grow: "runs P V p ws \<Longrightarrow> runs (P @ P') (V @ V') p ws"
  unfolding runs_def by (auto intro: slot_append)

lemma runs_new: "slot V a = Some ws \<Longrightarrow> runs (P @ [Some (section_object a)]) V (length P) ws"
  by (simp add: runs_def)

lemma shows_document_grow: "shows_document P V c pm d \<Longrightarrow> shows_document (P @ P') (V @ V') c pm d"
  unfolding shows_document_def
  by (auto intro: shows_section_grow runs_grow elim: rel_option_grow list_all2_mono)

definition doc_state :: "int set \<Rightarrow> config \<times> procman \<Rightarrow> doc_spec \<Rightarrow> sys \<Rightarrow> bool" where
  "doc_state K cp d s \<longleftrightarrow> (\<exists>P V. heap_is P V K s \<and> shows_document P V (fst cp) (snd cp) d)"

lemma doc_stateI: "heap_is P V K s \<Longrightarrow> shows_document P V c pm d \<Longrightarrow> doc_state K (c, pm) d s"
  by (auto simp: doc_state_def)

lemma reads_section_process:
  assumes "shows_section V cc sp"
    and "launched sp = None \<Longrightarrow> reads (heap_is P V K) (k None) r Q"
    and "\<And>a ws. launched sp = Some ws \<Longrightarrow> slot V a = Some ws \<Longrightarrow>
      reads (heap_is (P @ [Some (section_object a)]) V K) (k (Some (length P))) r Q"
  shows "reads (heap_is P V K) (bnd (section_process cc) k) r Q"
proof (cases "cmd cc")
  case None
  with assms(1,2) show ?thesis by (simp add: section_process_def shows_section_def launched_def)
next
  case (Some a)
  with assms(1) obtain ws where ws: "spec_words sp = Some ws" "slot V a = Some ws" "enabled cc = spec_on sp"
    by (auto simp: shows_section_def rel_option_iff split: option.splits)
  show ?thesis
  proof (cases "spec_on sp")
    case True
    have "triple (heap_is P V K) (bnd (new_Process a True) (\<lambda>p. k (Some p))) (\<lambda>x s. \<exists>v. r = Inr v \<and> Q x v s) (\<lambda>e _. r = Inl e)"
      by (rule heap_bnd_new_proc) (use assms(3) ws True in \<open>simp add: launched_def reads_def\<close>)
    with Some True ws show ?thesis by (simp add: section_process_def bnd_assoc reads_def)
  qed (use Some assms(2) ws in \<open>simp add: section_process_def launched_def\<close>)
qed

text \<open>
  A command section, with \<open>k\<close> giving its process to the manager: the document gets the section \<open>sp\<close> and
  what it launches.
\<close>

lemma reads_command_section:
  assumes sec: "shows_section V cc0 sp0"
    and none: "\<And>W cc sp. shows_section (V @ W) cc sp \<Longrightarrow> launched sp = None \<Longrightarrow>
      reads (heap_is P (V @ W) K) (k cc None) (r sp) Q"
    and some: "\<And>W cc sp a ws. shows_section (V @ W) cc sp \<Longrightarrow> launched sp = Some ws \<Longrightarrow> slot (V @ W) a = Some ws \<Longrightarrow>
      reads (heap_is (P @ [Some (section_object a)]) (V @ W) K) (k cc (Some (length P))) (r sp) Q"
  shows "reads (heap_is P V K) (bnd (parseCommandSection os lg y n cc0) (\<lambda>cc. bnd (section_process cc) (k cc)))
    (ebnd (command_part y n sp0) r) Q"
  by (rule reads_bnd [OF reads_parseCommandSection [OF sec]], rule reads_section_state,
      rule reads_section_process) (auto intro: none some)

text \<open>A section of a kind that is there already.\<close>

lemma reads_section_twice:
  "shows_section V cc sp \<Longrightarrow>
   reads (heap_is P V K) (bnd (parseCommandSection os lg y n cc) (\<lambda>cc. halt e)) (ebnd (command_part y n sp) (\<lambda>sp. Inl e)) Q"
  by (rule reads_bnd [OF reads_parseCommandSection]) (auto intro: reads_halt)

lemma reads_program_section:
  assumes d: "shows_document P V c pm d"
  shows "reads (heap_is P V K) (program_section os lg y n c pm)
    (ebnd (command_part y n (doc_program d)) (\<lambda>sp.
       if doc_started d \<noteq> None then config_error ''Program already set!''
       else Inr (d\<lparr>doc_program := sp, doc_started := launched sp\<rparr>))) (doc_state K)"
proof (cases "mProgram pm")
  case None
  with d have no: "doc_started d = None" by (simp add: shows_document_def)
  have some: "doc_state K (c\<lparr>mProgramConfig := cc\<rparr>, pm\<lparr>mProgram := Some (length P)\<rparr>)
      (d\<lparr>doc_program := sp, doc_started := Some ws\<rparr>) s"
    if "heap_is (P @ [Some (section_object a)]) (V @ W) K s" "shows_section (V @ W) cc sp" "slot (V @ W) a = Some ws"
    for s W cc sp a ws
    using shows_document_grow [OF d, of "[Some (section_object a)]" W] that
    by (intro doc_stateI [OF that(1)]) (simp add: shows_document_def runs_new)
  have same: "doc_state K (c\<lparr>mProgramConfig := cc\<rparr>, pm) (d\<lparr>doc_program := sp, doc_started := None\<rparr>) s"
    if "heap_is P (V @ W) K s" "shows_section (V @ W) cc sp" for s W cc sp
    using shows_document_grow [OF d, of "[]" W] that no None
    by (intro doc_stateI [OF that(1)]) (simp add: shows_document_def)
  show ?thesis
    unfolding program_section_def getProgram_def None no
    by (simp, rule reads_command_section)
       (use d in \<open>auto simp: shows_document_def setProgram_def None intro!: reads_ret same some\<close>)
next
  case (Some q)
  with d have "doc_started d \<noteq> None" by (auto simp: shows_document_def option_rel_Some1)
  with Some d show ?thesis by (simp add: program_section_def getProgram_def reads_section_twice shows_document_def)
qed

lemma reads_compile_section:
  assumes d: "shows_document P V c pm d"
  shows "reads (heap_is P V K) (compile_section os lg y n c pm)
    (ebnd (command_part y n (doc_compile d)) (\<lambda>sp.
       if doc_builder d \<noteq> None then config_error ''BuildStage already set!''
       else Inr (d\<lparr>doc_compile := sp, doc_builder := launched sp\<rparr>))) (doc_state K)"
proof (cases "mBuildStep pm")
  case None
  with d have no: "doc_builder d = None" by (simp add: shows_document_def)
  have some: "doc_state K (c\<lparr>mCompile := cc\<rparr>, pm\<lparr>mBuildStep := Some (length P)\<rparr>)
      (d\<lparr>doc_compile := sp, doc_builder := Some ws\<rparr>) s"
    if "heap_is (P @ [Some (section_object a)]) (V @ W) K s" "shows_section (V @ W) cc sp" "slot (V @ W) a = Some ws"
    for s W cc sp a ws
    using shows_document_grow [OF d, of "[Some (section_object a)]" W] that
    by (intro doc_stateI [OF that(1)]) (simp add: shows_document_def runs_new)
  have same: "doc_state K (c\<lparr>mCompile := cc\<rparr>, pm) (d\<lparr>doc_compile := sp, doc_builder := None\<rparr>) s"
    if "heap_is P (V @ W) K s" "shows_section (V @ W) cc sp" for s W cc sp
    using shows_document_grow [OF d, of "[]" W] that no None
    by (intro doc_stateI [OF that(1)]) (simp add: shows_document_def)
  show ?thesis
    unfolding compile_section_def getBuildStep_def None no
    by (simp, rule reads_command_section)
       (use d in \<open>auto simp: shows_document_def setBuilder_def None intro!: reads_ret same some\<close>)
next
  case (Some q)
  with d have "doc_builder d \<noteq> None" by (auto simp: shows_document_def option_rel_Some1)
  with Some d show ?thesis by (simp add: compile_section_def getBuildStep_def reads_section_twice shows_document_def)
qed

lemma reads_test_section:
  assumes d: "shows_document P V c pm d"
  shows "reads (heap_is P V K) (test_section os lg y n c pm)
    (ebnd (command_part y n (doc_test d)) (\<lambda>sp.
       Inr (d\<lparr>doc_test := sp, doc_tests := doc_tests d @ opt_list (launched sp)\<rparr>))) (doc_state K)"
proof -
  have some: "doc_state K (c\<lparr>mTest := cc\<rparr>, addProcess (length P) pm)
      (d\<lparr>doc_test := sp, doc_tests := doc_tests d @ [ws]\<rparr>) s"
    if "heap_is (P @ [Some (section_object a)]) (V @ W) K s" "shows_section (V @ W) cc sp" "slot (V @ W) a = Some ws"
    for s W cc sp a ws
    using shows_document_grow [OF d, of "[Some (section_object a)]" W] that
    by (intro doc_stateI [OF that(1)]) (simp add: shows_document_def runs_new addProcess_def list_all2_appendI)
  have same: "doc_state K (c\<lparr>mTest := cc\<rparr>, pm) (d\<lparr>doc_test := sp\<rparr>) s"
    if "heap_is P (V @ W) K s" "shows_section (V @ W) cc sp" for s W cc sp
    using shows_document_grow [OF d, of "[]" W] that
    by (intro doc_stateI [OF that(1)]) (simp add: shows_document_def)
  show ?thesis
    unfolding test_section_def
    by (rule reads_command_section)
       (use d in \<open>auto simp: shows_document_def intro!: reads_ret same some\<close>)
qed

lemma reads_watch_section:
  assumes d: "shows_document P V c pm d"
  shows "reads (heap_is P V K) (watch_section os lg y n c pm)
    (ebnd (watch_part y n (doc_watch d)) (\<lambda>w. Inr (d\<lparr>doc_watch := w\<rparr>))) (doc_state K)"
proof -
  have "mWatch c = doc_watch d" using d by (simp add: shows_document_def)
  moreover have "doc_state K (c\<lparr>mWatch := w\<rparr>, pm) (d\<lparr>doc_watch := w\<rparr>) s" if "heap_is P V K s" for w s
    using d by (intro doc_stateI [OF that]) (simp add: shows_document_def)
  ultimately show ?thesis
    unfolding watch_section_def by (auto intro!: reads_bnd [OF reads_parseWatcher] reads_same reads_ret)
qed

lemma reads_section_key:
  assumes d: "shows_document P V c pm d"
  shows "reads (heap_is P V K) (section_key os lg y it (c, pm)) (section_entry y it d) (doc_state K)"
proof -
  have error: "reads (heap_is P V K) (thn (complain message) (halt e)) (Inl e) (doc_state K)" for message e
    using reads_complain [OF reads_halt, of P V K True message e "doc_state K"] by simp
  show ?thesis
    unfolding section_key_def section_entry_def Let_def prod.case
    by (rule reads_assert)
       (auto intro!: reads_as_string error reads_watch_section reads_program_section reads_test_section
          reads_compile_section d simp del: not_None_eq)
qed

lemma reads_parseConfig:
  assumes "shows_document P V c pm empty_doc"
  shows "reads (heap_is P V K) (parseConfig os lg y content (c, pm)) (document_of y content) (doc_state K)"
proof -
  have step: "reads (doc_state K cp d) (section_key os lg y it cp) (section_entry y it d) (doc_state K)" for cp d it
    unfolding doc_state_def [of K cp d, abs_def]
    by (intro reads_ex) (metis (mono_tags) reads_section_key reads_def triple_pure prod.collapse)
  have "reads (doc_state K (c, pm) empty_doc) (for_acc (section_key os lg y) its (c, pm))
      (efold (section_entry y) (map (\<lambda>it. it) its) empty_doc) (doc_state K)" for its
    by (rule reads_for) (rule step)
  then have sections: "reads (heap_is P V K) (for_acc (section_key os lg y) its (c, pm))
      (efold (section_entry y) its empty_doc) (doc_state K)" for its
    by (auto intro: reads_pre doc_stateI [OF _ assms])
  show ?thesis
    unfolding parseConfig_def document_of_def
    by (intro reads_bnd_exn reads_assert) (auto intro: sections)
qed

lemma shows_empty: "shows_document P V empty_Config new_ProcessManager empty_doc"
  by (simp add: shows_document_def empty_Config_def empty_doc_def new_ProcessManager_def new_CommandConfig_def
      no_section_def shows_section_def)

lemma config_reads:
  assumes "new_Config_stream os lg y new_ProcessManager content s = (r, t)"
  shows "case r of
      Val cp \<Rightarrow> \<exists>d. document_of y content = Inr d \<and> shows_document (procs t) (argvs t) (fst cp) (snd cp) d
    | Stop e \<Rightarrow> document_of y content = Inl e"
proof -
  have start: "heap_is (procs s) (argvs s) (kids (hist s)) s" by (simp add: heap_is_def)
  note tr = reads_parseConfig [OF shows_empty, unfolded reads_def]
  from assms have run: "parseConfig os lg y content (empty_Config, new_ProcessManager) s = (r, t)"
    by (simp add: new_Config_stream_def)
  show ?thesis
  proof (cases r)
    case (Val cp)
    from triple_Val [OF tr start run [unfolded Val]] Val show ?thesis by (auto simp: doc_state_def heap_is_def)
  next
    case (Stop e)
    from triple_Stop [OF tr start run [unfolded Stop]] Stop show ?thesis by simp
  qed
qed

text \<open>The file in the current directory, as the system has it after a history.\<close>

definition file_meaning :: "os \<Rightarrow> 'n yaml \<Rightarrow> history \<Rightarrow> stop + doc_spec" where
  "file_meaning os y h =
     (case os_file os h CONFIG_NAME of
        None \<Rightarrow> config_error ''Could not open file''
      | Some content \<Rightarrow> document_of y content)"

lemma new_Config_reads:
  assumes "new_Config os lg y new_ProcessManager s = (r, t)"
  shows "case r of
      Val cp \<Rightarrow> \<exists>d. file_meaning os y (hist s) = Inr d \<and> shows_document (procs t) (argvs t) (fst cp) (snd cp) d
    | Stop e \<Rightarrow> file_meaning os y (hist s) = Inl e"
proof (cases "os_file os (hist s) CONFIG_NAME")
  case None
  with assms have "r = Stop (Throw (Runtime_error ''Could not open file''))"
    by (auto simp: new_Config_def findConfig_def seq_run sys_call_def Let_def halt_run)
  with None show ?thesis by (simp add: file_meaning_def)
next
  case (Some content)
  with assms obtain u where "new_Config_stream os lg y new_ProcessManager content u = (r, t)"
    by (auto simp: new_Config_def new_Config_stream_def findConfig_def seq_run sys_call_def Let_def ret_run)
  from config_reads [OF this] Some show ?thesis by (cases r) (auto simp: file_meaning_def)
qed

text \<open>
  C15. Reading the configuration, on any system, with any YAML library and from any state of the heap,
  is reading the meaning of the file: it stops with the error the meaning has, or returns a
  configuration whose sections hold what the document says, the commands as argument vectors, and a
  manager that has exactly the processes the document asks for, in its order.
\<close>

theorem config_meaning:
  "case new_Config os lg y new_ProcessManager s of
     (Val (c, pm), t) \<Rightarrow> \<exists>d. file_meaning os y (hist s) = Inr d \<and> shows_document (procs t) (argvs t) c pm d
   | (Stop e, t) \<Rightarrow> file_meaning os y (hist s) = Inl e"
  using new_Config_reads [of os lg y s]
  by (auto split: prod.split res.split)

section \<open>Documents that make a complete program\<close>

text \<open>
  A document is complete if it asks for a build step and a program, none of its command lines is empty,
  and its filters fit the address space.
\<close>

definition complete_doc :: "doc_spec \<Rightarrow> bool" where
  "complete_doc d \<longleftrightarrow> doc_builder d \<noteq> None \<and> doc_started d \<noteq> None \<and>
     [] \<notin> set (doc_tests d @ opt_list (doc_builder d) @ opt_list (doc_started d)) \<and>
     (\<forall>f \<in> set (filters (doc_watch d)). length f < 2 ^ 64)"

lemma runs_ready: "runs P V p ws \<Longrightarrow> ws \<noteq> [] \<Longrightarrow> process_ready P V p"
  by (auto simp: runs_def process_ready_def)

lemma complete_doc_ready:
  assumes "shows_document P V c pm d" "complete_doc d"
  shows "\<exists>b g. mBuildStep pm = Some b \<and> mProgram pm = Some g \<and> (\<forall>p \<in> set (objects pm). process_ready P V p)"
proof -
  from assms obtain b g bs gs where s: "mBuildStep pm = Some b" "mProgram pm = Some g"
      "runs P V b bs" "runs P V g gs" "bs \<noteq> []" "gs \<noteq> []"
      "list_all2 (runs P V) (mProcesses pm) (doc_tests d)" "[] \<notin> set (doc_tests d)"
    by (auto simp: shows_document_def complete_doc_def option_rel_Some2)
  then have "process_ready P V p" if "p \<in> set (mProcesses pm)" for p
    using that by (auto simp: list_all2_conv_all_nth in_set_conv_nth) (metis nth_mem runs_ready)
  with s show ?thesis by (auto simp: objects_def intro: runs_ready)
qed

text \<open>The document of the test suite.\<close>

definition test_spec :: doc_spec where
  "test_spec = \<lparr>doc_watch = test_watch,
     doc_compile = \<lparr>spec_on = True, spec_words = Some [''make'']\<rparr>,
     doc_test = \<lparr>spec_on = False, spec_words = Some [''make'', ''test'']\<rparr>,
     doc_program = \<lparr>spec_on = True, spec_words = Some [''./bin/program'', ''--help'']\<rparr>,
     doc_builder = Some [''make''], doc_tests = [], doc_started = Some [''./bin/program'', ''--help'']\<rparr>"

lemma document_test: "document_of (yaml_of (test_doc ''watch'')) content = Inr test_spec"
  by code_simp

lemma complete_test: "complete_doc test_spec"
  by (simp add: complete_doc_def test_spec_def test_watch_def)

end
