(* ===== verification/Driver.thy ===== *)
theory Driver
  imports Targets Document
begin

text \<open>
  The program (src/src/main.cpp, src/src/signals.cpp): start-up, the loop that listens until SIGINT,
  and the destructors at the end of \<open>main\<close>. The main loop is a step relation in which the signal may
  arrive between any two rounds.
\<close>

section \<open>Signals\<close>

text \<open>
  The global flag \<open>gRunning\<close> with the machine. A signal that arrives while a system call is waiting
  also makes that call fail; that is an answer of the system, and the systems considered are
  arbitrary in it.
\<close>

record program =
  gRunning :: bool
  machine :: sys

definition program_is_running :: "program \<Rightarrow> bool" where
  "program_is_running p = gRunning p"

definition stop_program :: "program \<Rightarrow> program" where
  "stop_program p = p\<lparr>gRunning := False\<rparr>"

definition sigint_text :: string where
  "sigint_text = esc ''0;31'' @ ''=> Caught deadly SIGINT, termination immenent!'' @ esc ''0'' @ [CHR 0x0A]"

definition signal_catch_int :: "program \<Rightarrow> program" where
  "signal_catch_int p =
     (let p = stop_program p
      in p\<lparr>machine := snd (sys_write Stderr sigint_text (machine p))\<rparr>)"

section \<open>The parts of \<open>main\<close>\<close>

definition start_up :: "nat \<Rightarrow> os \<Rightarrow> 'n yaml \<Rightarrow> (config \<times> procman \<times> watcher) io" where
  "start_up depth os y =
     bnd (new_Config os StdoutLogger y new_ProcessManager) (\<lambda>(c, pm).
     bnd (new_Watcher depth os ''./'' pm True) (\<lambda>w.
       ret (c, pm, w)))"

text \<open>The local objects are destroyed in the reverse order of their construction.\<close>

definition shut_down :: "os \<Rightarrow> config \<Rightarrow> procman \<Rightarrow> watcher \<Rightarrow> unit io" where
  "shut_down os c pm w =
     thn (delete_Watcher os StdoutLogger pm w)
    (thn (delete_Config c)
         (delete_ProcessManager os StdoutLogger pm))"

datatype phase =
    Starting
  | Looping config procman watcher
  | Finished int
  | Dead stop

text \<open>
  The steps: start-up, a round of the loop, the end of the loop, each with the case that the run
  stops in it, and the signal.
\<close>

inductive main_step :: "nat \<Rightarrow> os \<Rightarrow> 'n yaml \<Rightarrow> phase \<times> program \<Rightarrow> phase \<times> program \<Rightarrow> bool"
  for depth os y where
  started: "start_up depth os y (machine p) = (Val (c, pm, w), t) \<Longrightarrow>
    main_step depth os y (Starting, p) (Looping c pm w, p\<lparr>machine := t\<rparr>)"
| start_stopped: "start_up depth os y (machine p) = (Stop e, t) \<Longrightarrow>
    main_step depth os y (Starting, p) (Dead e, p\<lparr>machine := t\<rparr>)"
| round: "program_is_running p \<Longrightarrow> listen os StdoutLogger c pm w (machine p) = (Val w', t) \<Longrightarrow>
    main_step depth os y (Looping c pm w, p) (Looping c pm w', p\<lparr>machine := t\<rparr>)"
| round_stopped: "program_is_running p \<Longrightarrow> listen os StdoutLogger c pm w (machine p) = (Stop e, t) \<Longrightarrow>
    main_step depth os y (Looping c pm w, p) (Dead e, p\<lparr>machine := t\<rparr>)"
| finish: "\<not> program_is_running p \<Longrightarrow> shut_down os c pm w (machine p) = (Val (), t) \<Longrightarrow>
    main_step depth os y (Looping c pm w, p) (Finished 0, p\<lparr>machine := t\<rparr>)"
| finish_stopped: "\<not> program_is_running p \<Longrightarrow> shut_down os c pm w (machine p) = (Stop e, t) \<Longrightarrow>
    main_step depth os y (Looping c pm w, p) (Dead e, p\<lparr>machine := t\<rparr>)"
| interrupt_start: "main_step depth os y (Starting, p) (Starting, signal_catch_int p)"
| interrupt_loop: "main_step depth os y (Looping c pm w, p) (Looping c pm w, signal_catch_int p)"

inductive_cases looping_step: "main_step depth os y (Looping c pm w, p) st"
inductive_cases starting_step: "main_step depth os y (Starting, p) st"
inductive_cases finished_step: "main_step depth os y st (Finished n, p)"
inductive_cases dead_step: "main_step depth os y st (Dead e, p)"
inductive_simps main_step_simps [simp]:
  "main_step depth os y (Finished n, p) st"
  "main_step depth os y (Dead e, p) st"

definition main_init :: "phase \<times> program" where
  "main_init = (Starting, \<lparr>gRunning = True, machine = sys0\<rparr>)"

inductive reachable :: "nat \<Rightarrow> os \<Rightarrow> 'n yaml \<Rightarrow> phase \<times> program \<Rightarrow> bool"
  for depth os y where
  reach_init: "reachable depth os y main_init"
| reach_step: "reachable depth os y st \<Longrightarrow> main_step depth os y st st' \<Longrightarrow> reachable depth os y st'"

section \<open>Start-up\<close>

lemma calm_watchDirectory [calm_intros]: "calm (watchDirectory depth os w)"
  unfolding watchDirectory_def Let_def by (intro calm_intros)

lemma calm_new_Watcher [calm_intros]: "calm (new_Watcher depth os dir pm recursive)"
  unfolding new_Watcher_def Let_def by (intro calm_intros)

lemma calm_findConfig [calm_intros]: "calm (findConfig os)"
  unfolding findConfig_def by (auto intro!: calm_intros split: option.split)

lemma watchDirectory_builder:
  "triple (\<lambda>_. True) (watchDirectory depth os w) (\<lambda>w' _. mBuilder w' = mBuilder w) (\<lambda>_ _. True)"
  unfolding watchDirectory_def Let_def
  by (intro triple_bnd [OF triple_any] triple_thn [OF triple_any] triple_if triple_ret) simp_all

lemma new_Watcher_builder:
  "triple (\<lambda>_. True) (new_Watcher depth os dir pm r) (\<lambda>w _. mBuilder w = mBuildStep pm) (\<lambda>_ _. True)"
  unfolding new_Watcher_def Let_def
  by (intro triple_bnd [OF triple_any] triple_post [OF watchDirectory_builder]) (simp add: getBuildStep_def)

lemma cfg_ok_empty: "cfg_ok P V empty_Config new_ProcessManager"
  by (simp add: cfg_ok_def cmd_list_def objects_def new_ProcessManager_def empty_Config_def
      new_CommandConfig_def single_star_def)

text \<open>What start-up leaves: the configuration is well formed, no child was started.\<close>

lemma start_up_Val:
  assumes "start_up depth os y s = (Val (c, pm, w), t)"
  shows "cfg_ok (procs t) (argvs t) c pm \<and> kids (hist t) = kids (hist s) \<and> mBuilder w = mBuildStep pm"
proof -
  obtain r u where new: "new_Config os StdoutLogger y new_ProcessManager s = (r, u)"
    by (cases "new_Config os StdoutLogger y new_ProcessManager s")
  with assms have r: "r = Val (c, pm)" and watch: "new_Watcher depth os ''./'' pm True u = (Val w, t)"
    by (auto simp: start_up_def bnd_def ret_def split: res.splits prod.splits)
  obtain q v where find: "findConfig os s = (q, v)" by (cases "findConfig os s")
  with new r obtain doc where q: "q = Val doc"
      and parse: "parseConfig os StdoutLogger y doc (empty_Config, new_ProcessManager) v = (Val (c, pm), u)"
    by (auto simp: new_Config_def bnd_def split: res.splits)
  have "cfg_state (kids (hist v)) (empty_Config, new_ProcessManager) v"
    using cfg_ok_empty by (auto simp: cfg_state_def heap_is_def)
  from triple_Val [OF triple_parseConfig this parse]
  have u: "cfg_ok (procs u) (argvs u) c pm" "kids (hist u) = kids (hist v)"
    by (auto simp: cfg_state_def heap_is_def)
  from calm_kids [OF calm_findConfig find] calm_kids [OF calm_new_Watcher watch]
  have "kids (hist t) = kids (hist s)" using u(2) by simp
  moreover have "procs t = procs u" "argvs t = argvs u"
    by (rule calmD [OF calm_new_Watcher watch], simp)+
  ultimately show ?thesis
    using u(1) triple_Val [OF new_Watcher_builder TrueI watch] by simp
qed

section \<open>Shutting down\<close>

lemma delete_ProcessManager_each:
  "delete_ProcessManager os lg pm = for_each (delete_Process os lg) (objects pm)"
  by (cases "mBuildStep pm"; cases "mProgram pm")
     (simp_all add: delete_ProcessManager_def delete_maybe_def objects_def for_each_append thn_assoc)

lemma delete_Config_each: "delete_Config c = for_each free_argv (cmd_list c)"
  by (cases "cmd (mCompile c)"; cases "cmd (mTest c)"; cases "cmd (mProgramConfig c)")
     (simp_all add: delete_Config_def free_command_def cmd_list_def thn_assoc)

text \<open>
  Freeing a list of different live vectors, and deleting a list of different live objects that do
  not own theirs: the vectors may be gone by then.
\<close>

lemma triple_free_each:
  assumes "distinct as" "\<forall>a \<in> set as. slot V a \<noteq> None"
  shows "triple (core_is A P V) (for_each free_argv as)
    (\<lambda>_ s. \<exists>V'. core s = (A, P, V') \<and> (\<forall>a. slot V' a = (if a \<in> set as then None else slot V a))) E"
  using assms
proof (induction "as" arbitrary: V)
  case Nil
  show ?case by (simp, intro triple_core_ret exI [of _ V]) simp
next
  case (Cons a as)
  obtain v where v: "slot V a = Some v" using Cons.prems(2) by auto
  have "triple (core_is A P (V[a := None])) (for_each free_argv as)
    (\<lambda>_ s. \<exists>V'. core s = (A, P, V') \<and> (\<forall>b. slot V' b = (if b \<in> set as then None else slot (V[a := None]) b))) E"
    using Cons.prems by (intro Cons.IH) (auto simp: slot_update)
  then show ?case
    unfolding for_each.simps
    by (intro thn_free_argv [OF v]) (erule triple_post, use slot_length [OF v] in \<open>auto simp: slot_update\<close>)
qed

lemma triple_delete_each:
  assumes "distinct ps" "\<forall>p \<in> set ps. \<exists>pr. slot P p = Some pr \<and> \<not> mGeneratedCommand pr" "posix os" "kids A = {}"
  shows "triple (core_is A P V) (for_each (delete_Process os lg) ps)
    (\<lambda>_ s. \<exists>A' P'. core s = (A', P', V) \<and> kids A' = {} \<and>
       (\<forall>p. slot P' p = (if p \<in> set ps then None else slot P p))) E"
  using assms(1,2,4)
proof (induction ps arbitrary: A P)
  case Nil
  then show ?case by (simp, intro triple_core_ret exI [of _ A] exI [of _ P]) simp
next
  case (Cons p ps)
  let ?Q = "\<lambda>qs P. \<lambda>_ s. \<exists>A' P'. core s = (A', P', V) \<and> kids A' = {} \<and>
       (\<forall>q. slot P' q = (if q \<in> set qs then None else slot P q))"
  obtain pr where pr: "slot P p = Some pr" "\<not> mGeneratedCommand pr" using Cons.prems(2) by auto
  have rest: "triple (core_is (A @ h) (P[p := None]) V) (for_each (delete_Process os lg) ps) (?Q (p # ps) P) E"
    if "kill_kids A (mProc pr) h ok" for h ok
  proof (rule triple_post [OF Cons.IH])
    show "kids (A @ h) = {}" using that Cons.prems(3) by (auto simp: kill_kids_def)
  qed (use Cons.prems slot_length [OF pr(1)] in \<open>auto simp: slot_update\<close>)
  have del: "triple (core_is A P V) (delete_Process os lg p) (\<lambda>_ s. \<exists>h ok. core s = (A @ h, P[p := None], V) \<and>
       (kill_trace (mProc pr) h ok \<and> (posix os \<longrightarrow> kill_kids A (mProc pr) h ok))) E"
    using triple_delete_Process [OF pr(1), of V A os lg E] pr(2) by simp
  show ?case
    unfolding for_each.simps thn_def
    by (rule triple_bnd [OF del], intro triple_ex triple_pure) (rule rest, use assms(3) in blast)
qed

text \<open>
  The end of \<open>main\<close> from a session: it returns; there is no child, every process object and every
  vector the configuration owns has been freed once.
\<close>

definition all_freed :: "config \<Rightarrow> procman \<Rightarrow> sys \<Rightarrow> bool" where
  "all_freed c pm s \<longleftrightarrow> kids (hist s) = {} \<and> (\<forall>p \<in> set (objects pm). slot (procs s) p = None) \<and>
     (\<forall>a \<in> set (cmd_list c). slot (argvs s) a = None)"

lemma triple_delete_Watcher:
  assumes "posix os" "procman_ready P V pm b g" "only_program A P g"
  shows "triple (core_is A P V) (delete_Watcher os lg pm w)
    (\<lambda>_ s. \<exists>A'. core s = (A', P, V) \<and> kids A' = {}) E"
proof -
  have rm: "sys_rm_watch os fd wd s \<noteq> (Stop e, t)" for fd wd s e t
    by (simp add: sys_rm_watch_def sys_call_def thn_def bnd_def ret_def Let_def)
  have removed: "removeAllWatches os fd fds s \<noteq> (Stop e, t)" for fd fds s e t
    unfolding removeAllWatches_def
    by (induction fds arbitrary: s) (auto simp: ret_def thn_def bnd_def rm split: prod.splits res.splits)
  have calm: "calm (thn (removeAllWatches os (mINotify w) (mFDs w)) (sys_close (mINotify w)))"
    by (intro calm_intros)
  have ret: "thn (removeAllWatches os (mINotify w) (mFDs w)) (sys_close (mINotify w)) s \<noteq> (Stop e, t)" for s e t
    using removed by (auto simp: thn_def bnd_def sys_close_def sys_call_def Let_def split: prod.splits res.splits)
  have "triple (core_is (A @ h) P V) (thn (removeAllWatches os (mINotify w) (mFDs w)) (sys_close (mINotify w)))
      (\<lambda>_ s. \<exists>A'. core s = (A', P, V) \<and> kids A' = {}) E" if "kids (A @ h) = {}" for h
  proof (rule triple_post [OF triple_calm [OF calm]])
    fix t assume "\<exists>h'. core t = ((A @ h) @ h', P, V) \<and> list_all bystander h'"
    then obtain h' where "core t = ((A @ h) @ h', P, V)" "list_all bystander h'" by blast
    with kids_bystander [of h' "A @ h"] that show "\<exists>A'. core t = (A', P, V) \<and> kids A' = {}" by metis
  qed (use ret in blast)
  moreover have "kids (A @ h) = {}" if "(\<forall>k \<in> kids A. 1 < k) \<longrightarrow>
      kids (A @ h) = kids A - set (map (pid_of P) (b # mProcesses pm @ [g]))" for h
    using that assms(3) by (auto simp: only_program_def)
  ultimately show ?thesis
    unfolding delete_Watcher_def thn_def [of "killAll os lg pm"]
    by (intro triple_bnd [OF triple_killAll [OF assms(2)]] triple_ex triple_pure) (use assms(1) in blast)
qed

lemma shut_down_session:
  assumes "session os c pm b g s"
  shows "\<exists>t. shut_down os c pm w s = (Val (), t) \<and> all_freed c pm t"
proof -
  let ?P = "procs s" and ?V = "argvs s" and ?A = "acts (hist s)"
  have s: "posix os" "procman_ready ?P ?V pm b g" "only_program ?A ?P g" "cfg_ok ?P ?V c pm"
    using assms by (simp_all add: session_def)
  have objs: "\<forall>p \<in> set (objects pm). \<exists>pr. slot ?P p = Some pr \<and> \<not> mGeneratedCommand pr"
    using s(4) by (auto simp: cfg_ok_def borrows_def)
  have last: "triple (core_is A ?P V') (delete_ProcessManager os StdoutLogger pm) (\<lambda>_. all_freed c pm) (\<lambda>_ _. False)"
    if "kids A = {}" "\<forall>a. slot V' a = (if a \<in> set (cmd_list c) then None else slot ?V a)" for A V'
    unfolding delete_ProcessManager_each
  proof (rule triple_post [OF triple_delete_each [OF _ objs s(1) that(1)]])
    show "distinct (objects pm)" using s(4) by (simp add: cfg_ok_def)
    fix x t
    assume "\<exists>A' P'. core t = (A', P', V') \<and> kids A' = {} \<and>
       (\<forall>p. slot P' p = (if p \<in> set (objects pm) then None else slot ?P p))"
    with that(2) show "all_freed c pm t" by (auto simp: all_freed_def core_def)
  qed
  have "triple (core_is A ?P ?V) (thn (delete_Config c) (delete_ProcessManager os StdoutLogger pm))
      (\<lambda>_. all_freed c pm) (\<lambda>_ _. False)" if "kids A = {}" for A
    unfolding delete_Config_each thn_def
    by (rule triple_bnd [OF triple_free_each], use s(4) in \<open>simp add: cfg_ok_def\<close>,
        use s(4) in \<open>simp add: cfg_ok_def\<close>, intro triple_ex triple_pure) (rule last [OF that])
  then have tr: "triple (core_is ?A ?P ?V) (shut_down os c pm w) (\<lambda>_. all_freed c pm) (\<lambda>_ _. False)"
    unfolding shut_down_def thn_def [of "delete_Watcher os StdoutLogger pm w"]
    by (intro triple_bnd [OF triple_delete_Watcher [OF s(1-3)]] triple_ex triple_pure)
  have c: "core s = (?A, ?P, ?V)" by (simp add: core_def)
  obtain x t where x: "shut_down os c pm w s = (x, t)" by (cases "shut_down os c pm w s")
  show ?thesis
    by (cases x) (use triple_Val [OF tr c] triple_Stop [OF tr c] x in auto)
qed

section \<open>The invariant of the main loop\<close>

text \<open>
  The configuration is complete if every document that can be read is: it asks for a build step and a
  program, no command line is empty, and the filters fit the address space. What happens without a
  build step is shown in the theory Watcher.
\<close>

definition complete_config :: "'n yaml \<Rightarrow> bool" where
  "complete_config y \<longleftrightarrow> (\<forall>content d. document_of y content = Inr d \<longrightarrow> complete_doc d)"

lemma start_up_ready:
  assumes "complete_config y" "start_up depth os y s = (Val (c, pm, w), t)"
  shows "filters_fit c \<and> (\<exists>b g. mBuilder w = Some b \<and> procman_ready (procs t) (argvs t) pm b g)"
proof -
  note st = start_up_Val [OF assms(2)]
  obtain u where new: "new_Config os StdoutLogger y new_ProcessManager s = (Val (c, pm), u)"
      and watch: "new_Watcher depth os ''./'' pm True u = (Val w, t)"
    using assms(2) by (auto simp: start_up_def bnd_def ret_def split: res.splits prod.splits)
  have heap: "procs t = procs u" "argvs t = argvs u"
    by (rule calmD [OF calm_new_Watcher watch], simp)+
  from new_Config_reads [OF new] assms(1) obtain d
    where d: "shows_document (procs t) (argvs t) c pm d" "complete_doc d"
    by (auto simp: complete_config_def heap file_meaning_def split: option.splits)
  then have "filters_fit c" by (simp add: shows_document_def complete_doc_def filters_fit_def getWatchConfig_def)
  moreover have "distinct (objects pm)" using st by (simp add: cfg_ok_def)
  ultimately show ?thesis
    using complete_doc_ready [OF d] st by (auto simp: procman_ready_def objects_def)
qed

text \<open>At first nothing has been done, and no object records a pid.\<close>

fun doing :: "event \<Rightarrow> event option" where
  "doing e = (if bystander e then None else Some e)"

lemma seen_doing: "seen doing h = doings h"
  by (induction h) (simp_all add: doings_def)

lemma keeps_start_up: "keeps (owns F {}) (start_up depth os y)"
  unfolding start_up_def
  by (auto intro!: keeps_intros keeps_new_Config keeps_calm [OF calm_new_Watcher] split: prod.split)

lemma start_up_fresh:
  assumes "procs s = []" "list_all bystander (hist s)" "start_up depth os y s = (Val (c, pm, w), t)"
  shows "doings (hist t) = []" "pid_of (procs t) p = 0"
proof -
  obtain u where new: "new_Config os StdoutLogger y new_ProcessManager s = (Val (c, pm), u)"
      and watch: "new_Watcher depth os ''./'' pm True u = (Val w, t)"
    using assms(3) by (auto simp: start_up_def bnd_def ret_def split: res.splits prod.splits)
  have "doings (hist u) = doings (hist s)"
    using leavesD [OF leaves_new_Config new, of doing] by (simp add: seen_doing)
  moreover have "doings (hist t) = doings (hist u)"
    by (rule calmD [OF calm_new_Watcher watch]) (simp add: doings_bystander)
  ultimately show none: "doings (hist t) = []" using doings_bystander [OF assms(2)] by simp
  have "owns {} {} s" using assms(1,2) by (simp add: owns_def well_aimed_bystander slot_def)
  from keepsD [OF keeps_start_up this assms(3)] have own: "owns {} {} t" .
  have "EFork r \<notin> set (hist t)" for r
  proof
    assume "EFork r \<in> set (hist t)"
    then have "EFork r \<in> set (doings (hist t))" by (simp add: doings_def)
    with none show False by simp
  qed
  with own show "pid_of (procs t) p = 0" by (auto simp: owns_def forked_def pid_of_def split: option.split)
qed

lemma start_up_session:
  assumes "complete_config y" "posix os" "procs s = []" "argvs s = []" "list_all bystander (hist s)"
    and "start_up depth os y s = (Val (c, pm, w), t)"
  shows "filters_fit c \<and> (\<exists>b g. mBuilder w = Some b \<and> session os c pm b g t)"
proof -
  have "kids (hist t) = {}" using start_up_Val [OF assms(6)] kids_bystander [OF assms(5), of "[]"] by simp
  then have "only_program (acts (hist t)) (procs t) g" for g by (simp add: only_program_def)
  with start_up_ready [OF assms(1,6)] start_up_Val [OF assms(6)] assms(2) show ?thesis
    by (auto simp: session_def)
qed

text \<open>
  A property \<open>I\<close> of the machine during the loop, for the configuration, the manager, its build step and
  its program: start-up leads to it, and it is kept by the reaction to a filter and by all bystanders.
  \<open>main_inv\<close> is the invariant of the whole program that it makes.
\<close>

definition loop_property :: "nat \<Rightarrow> os \<Rightarrow> 'n yaml \<Rightarrow> (config \<Rightarrow> procman \<Rightarrow> nat \<Rightarrow> nat \<Rightarrow> sys \<Rightarrow> bool) \<Rightarrow> bool" where
  "loop_property depth os y I \<longleftrightarrow>
     (\<forall>s c pm w t. procs s = [] \<longrightarrow> argvs s = [] \<longrightarrow> list_all bystander (hist s) \<longrightarrow>
        start_up depth os y s = (Val (c, pm, w), t) \<longrightarrow>
        filters_fit c \<and> (\<exists>b g. mBuilder w = Some b \<and> I c pm b g t)) \<and>
     (\<forall>c pm b g. reactive (I c pm b g) os StdoutLogger pm b)"

fun main_inv :: "(config \<Rightarrow> procman \<Rightarrow> nat \<Rightarrow> nat \<Rightarrow> sys \<Rightarrow> bool) \<Rightarrow> phase \<times> program \<Rightarrow> bool" where
  "main_inv I (Starting, p) \<longleftrightarrow>
     procs (machine p) = [] \<and> argvs (machine p) = [] \<and> list_all bystander (hist (machine p))"
| "main_inv I (Looping c pm w, p) \<longleftrightarrow>
     filters_fit c \<and> (\<exists>b g. mBuilder w = Some b \<and> I c pm b g (machine p))"
| "main_inv I (Finished n, p) \<longleftrightarrow> True"
| "main_inv I (Dead e, p) \<longleftrightarrow> True"

lemma interrupt_machine:
  "machine (signal_catch_int p) = (machine p)\<lparr>hist := hist (machine p) @ [EOut Stderr sigint_text]\<rparr>"
  "gRunning (signal_catch_int p) = False"
  by (simp_all add: signal_catch_int_def Let_def stop_program_def sys_write_run)

lemma step_inv:
  assumes "main_step depth os y st st'" "main_inv I st" "loop_property depth os y I" "inotify_whole os"
  shows "main_inv I st'"
  using assms(1,2)
proof cases
  case (started p c pm w t)
  with assms(2,3) show ?thesis unfolding loop_property_def by (auto simp del: ex_simps)
next
  case (round p c pm w w' t)
  with assms(2) obtain b g where b: "filters_fit c" "mBuilder w = Some b" "I c pm b g (machine p)" by auto
  have "reactive (I c pm b g) os StdoutLogger pm b" using assms(3) by (simp add: loop_property_def)
  from reactive.keep_listen [OF this b(2,1) assms(4) b(3)] b round(2,4) show ?thesis by (auto simp: same_setup_def)
next
  case (interrupt_start p)
  with assms(2) show ?thesis by (simp add: interrupt_machine)
next
  case (interrupt_loop c pm w p)
  with assms(2) obtain b g where b: "filters_fit c" "mBuilder w = Some b" "I c pm b g (machine p)" by auto
  have "calm_closed (I c pm b g)" using assms(3) by (simp add: loop_property_def reactive_def)
  from calm_closed.calm_law [OF this b(3), where h = "[EOut Stderr sigint_text]"]
  have "I c pm b g (machine (signal_catch_int p))" by (simp add: interrupt_machine)
  with b(1,2) interrupt_loop show ?thesis by auto
qed simp_all

lemma reachable_inv:
  assumes "reachable depth os y st" "loop_property depth os y I" "inotify_whole os"
  shows "main_inv I st"
  using assms(1)
proof induction
  case reach_init
  show ?case by (simp add: main_init_def sys0_def)
next
  case (reach_step st st')
  with step_inv assms(2,3) show ?case by blast
qed

text \<open>How the end of the program is reached.\<close>

lemma reachable_last:
  "reachable depth os y st \<Longrightarrow> st = main_init \<or> (\<exists>st'. reachable depth os y st' \<and> main_step depth os y st' st)"
  by (erule reachable.cases) auto

lemma reachable_finished:
  assumes "reachable depth os y (Finished n, p)"
  obtains c pm w q t where "reachable depth os y (Looping c pm w, q)" "\<not> program_is_running q"
    "shut_down os c pm w (machine q) = (Val (), t)" "n = 0" "p = q\<lparr>machine := t\<rparr>"
proof -
  from reachable_last [OF assms] obtain st where st: "reachable depth os y st" "main_step depth os y st (Finished n, p)"
    by (auto simp: main_init_def)
  show ?thesis by (rule finished_step [OF st(2)]) (rule that, use st(1) in simp_all)
qed

lemma reachable_dead:
  assumes "reachable depth os y (Dead e, p)"
  obtains s t where "start_up depth os y s = (Stop e, t)"
  | c pm w q t where "reachable depth os y (Looping c pm w, q)"
      "listen os StdoutLogger c pm w (machine q) = (Stop e, t) \<or> shut_down os c pm w (machine q) = (Stop e, t)"
proof -
  from reachable_last [OF assms] obtain st where st: "reachable depth os y st" "main_step depth os y st (Dead e, p)"
    by (auto simp: main_init_def)
  show ?thesis
    by (rule dead_step [OF st(2)]) (metis that st(1))+
qed

text \<open>The session is such a property.\<close>

lemma session_loop:
  assumes "complete_config y" "posix os"
  shows "loop_property depth os y (session os)"
  unfolding loop_property_def
  using start_up_session [OF assms] live.reactive_axioms by (simp del: ex_simps)

lemmas reachable_sessions = reachable_inv [OF _ session_loop]

text \<open>So is the trace, from a manager that has started nothing.\<close>

definition fresh_pids :: "procman \<Rightarrow> pids" where
  "fresh_pids pm = (replicate (length (mProcesses pm)) 0, 0)"

lemma traced_loop:
  assumes "complete_config y"
  shows "loop_property depth os y (\<lambda>c pm b g. traced pm b g (fresh_pids pm) [])"
proof -
  have "filters_fit c \<and> (\<exists>b g. mBuilder w = Some b \<and> traced pm b g (fresh_pids pm) [] t)"
    if s: "procs s = []" "argvs s = []" "list_all bystander (hist s)" "start_up depth os y s = (Val (c, pm, w), t)"
    for s c pm w t
  proof -
    have "pid_of (procs t) = (\<lambda>_. 0)" by (rule ext) (rule start_up_fresh(2) [OF s(1,3,4)])
    then have "pids_of (procs t) pm g = fresh_pids pm" for g
      by (simp add: pids_of_def fresh_pids_def map_replicate_const)
    moreover have "reactions ps [] ps \<and> doings (hist t) = doings [] @ doings []" for ps
      using start_up_fresh(1) [OF s(1,3,4)] by (simp add: no_reaction doings_def)
    ultimately show ?thesis using start_up_ready [OF assms s(4)] unfolding traced_def by metis
  qed
  then show ?thesis unfolding loop_property_def using chronicle.reactive_axioms by blast
qed

section \<open>What the program promises\<close>





text \<open>
  The program exits with status 0 only after SIGINT, and leaves no child behind.
\<close>

theorem finished_clean:
  assumes "reachable depth os y (Finished n, p)"
    and "complete_config y" "posix os" "inotify_whole os"
  shows "n = 0 \<and> \<not> program_is_running p \<and> kids (hist (machine p)) = {}"
proof -
  from reachable_finished [OF assms(1)] obtain c pm w q t where
    q: "reachable depth os y (Looping c pm w, q)" "\<not> program_is_running q"
      "shut_down os c pm w (machine q) = (Val (), t)" "n = 0" "p = q\<lparr>machine := t\<rparr>" .
  from reachable_sessions [OF q(1) assms(2-4)] obtain b g where "session os c pm b g (machine q)" by auto
  from shut_down_session [OF this, of w] q show ?thesis by (auto simp: all_freed_def program_is_running_def)
qed

text \<open>The history stays well aimed in every step, of whatever kind.\<close>

lemma keeps_shut_down: "keeps (owns F L) (shut_down os c pm w)"
  unfolding shut_down_def
  by (intro keeps_intros keeps_delete_Watcher keeps_delete_Config)

lemma owns_step: "main_step depth os y st st' \<Longrightarrow> owns {} {} (machine (snd st)) \<Longrightarrow> owns {} {} (machine (snd st'))"
  by (erule main_step.cases)
     (auto intro: keepsD [OF keeps_start_up] keepsD [OF keeps_listen] keepsD [OF keeps_shut_down]
        owns_longer simp: interrupt_machine)


section \<open>What start-up watches\<close>

lemma triple_conj:
  assumes "triple P m Q E" "triple P' m Q' E'"
  shows "triple (\<lambda>s. P s \<and> P' s) m (\<lambda>x s. Q x s \<and> Q' x s) (\<lambda>e s. E e s \<and> E' e s)"
  by (rule tripleI) (auto dest: triple_Val [OF assms(1)] triple_Val [OF assms(2)]
      triple_Stop [OF assms(1)] triple_Stop [OF assms(2)])

text \<open>The watches set so far: all paths watched, and the descriptors got for them in order.\<close>

definition watching :: "string set \<Rightarrow> int list \<Rightarrow> sys \<Rightarrow> bool" where
  "watching W fds s \<longleftrightarrow> watched (hist s) = W \<and> map snd (watches (hist s)) = fds"

lemma watching_steady:
  assumes "\<And>s. \<exists>x t. m s = (Val x, t) \<and> watches (hist t) = watches (hist s) \<and> R x"
  shows "triple (watching W fds) m (\<lambda>x s. watching W fds s \<and> R x) E"
proof (rule tripleI)
  fix s x t assume "watching W fds s" "m s = (Val x, t)"
  with assms [of s] show "watching W fds t \<and> R x" by (auto simp: watching_def watched_def)
next
  fix s e t assume "m s = (Stop e, t)"
  with assms [of s] show "E e t" by auto
qed

lemma watching_add:
  "triple (watching W fds) (sys_add_watch os fd path) (\<lambda>wd. watching (insert path W) (fds @ [wd])) E"
  by (rule tripleI) (auto simp: watching_def watched_def sys_add_watch_def sys_call_def Let_def)

lemma watching_walk:
  assumes "static_fs os fs ls" "tame fs ls ht d" "ht d < n"
  shows "triple (watching W (pre @ fds)) (recursiveWatch n os fd d fds)
    (\<lambda>fds'. watching (W \<union> {q. below fs ls d q}) (pre @ fds')) (\<lambda>_ _. False)"
  using triple_conj [OF triple_recursiveWatch_tame [OF assms, of W fd fds] triple_recursiveWatch [of pre fds n os fd d]]
  by (simp add: watching_def [abs_def])

lemma steady_calls:
  "\<exists>x t. sys_time os s = (Val x, t) \<and> watches (hist t) = watches (hist s) \<and> True"
  "\<exists>x t. sys_inotify_init os s = (Val x, t) \<and> watches (hist t) = watches (hist s) \<and> True"
  "\<exists>x t. perror os message s = (Val x, t) \<and> watches (hist t) = watches (hist s) \<and> True"
  "\<forall>h. os_getcwd os h = Inr d \<Longrightarrow>
     \<exists>x t. cwd os s = (Val x, t) \<and> watches (hist t) = watches (hist s) \<and> x = d"
  by (auto simp: sys_time_def sys_inotify_init_def perror_def cwd_def sys_getcwd_def sys_write_def sys_call_def
      Let_def seq_run gets_run ret_run split: prod.split)

lemma watching_watchDirectory:
  assumes "static_fs os fs ls" "\<forall>h. os_getcwd os h = Inr d" "tame fs ls ht d" "ht d < depth"
    and w: "mRecursive w" "mFDs w = []"
  shows "triple (watching W pre) (watchDirectory depth os w)
    (\<lambda>w. watching (insert d (W \<union> Collect (below fs ls d))) (pre @ mFDs w)) (\<lambda>_ _. False)"
proof -
  have d: "cstr d = d" using assms(3) by (intro cstr_id) (simp add: tame_def tame_dir_def)
  have call: "triple (watching W fds) m (\<lambda>_. watching W fds) (\<lambda>_ _. False)"
    if "\<And>s. \<exists>x t. m s = (Val x, t) \<and> watches (hist t) = watches (hist s) \<and> True" for W fds and m :: "'b io"
    using watching_steady [OF that] by simp
  have err: "triple (watching W fds) (if b then perror os message else ret ()) (\<lambda>_. watching W fds) (\<lambda>_ _. False)"
    for W fds b message
    by (rule triple_if) (auto intro: call [OF steady_calls(3)] triple_ret)
  have in_dir: "triple (watching W fds) (bnd (cwd os) k) Q (\<lambda>_ _. False)"
    if "triple (watching W fds) (k d) Q (\<lambda>_ _. False)" for W fds and k :: "string \<Rightarrow> watcher io" and Q
    by (rule triple_bnd [OF watching_steady [OF steady_calls(4) [OF assms(2)]]], rule triple_pure) (use that in simp)
  have add: "triple (watching W pre) (sys_add_watch os fd (cstr d)) (\<lambda>wd. watching (insert d W) (pre @ [wd])) (\<lambda>_ _. False)" for fd
    using watching_add [of W pre os fd d] d by simp
  have walk: "triple (watching (insert d W) (pre @ [wd])) (bnd (recursiveWatch depth os fd d [wd]) (\<lambda>fds. ret (w fds)))
      (\<lambda>w. watching (insert d (W \<union> Collect (below fs ls d))) (pre @ mFDs w)) (\<lambda>_ _. False)"
    if "\<And>fds. mFDs (w fds) = fds" for wd fd w
    by (rule triple_bnd [OF watching_walk [OF assms(1,3,4)]], rule triple_ret) (simp add: that)
  show ?thesis
    unfolding watchDirectory_def Let_def
    by (simp add: w, intro triple_bnd [OF call [OF steady_calls(2)]] triple_thn [OF err] in_dir
          triple_bnd [OF add] walk) simp
qed

lemma watching_new_Watcher:
  assumes "static_fs os fs ls" "\<forall>h. os_getcwd os h = Inr d" "tame fs ls ht d" "ht d < depth"
  shows "triple (watching W pre) (new_Watcher depth os dir pm True)
    (\<lambda>w. watching (insert d (W \<union> Collect (below fs ls d))) (pre @ mFDs w)) (\<lambda>_ _. False)"
proof -
  have call: "triple (watching W pre) m (\<lambda>_. watching W pre) (\<lambda>_ _. False)"
    if "\<And>s. \<exists>x t. m s = (Val x, t) \<and> watches (hist t) = watches (hist s) \<and> True" for m :: "int io"
    using watching_steady [OF that] by simp
  show ?thesis
    unfolding new_Watcher_def Let_def
    by (intro triple_bnd [OF call [OF steady_calls(1)]] triple_bnd [OF call [OF steady_calls(2)]]
          watching_watchDirectory [OF assms]) simp_all
qed

lemma unwatched_new_Config: "unwatched (new_Config os lg y pm)"
  by (rule leaves_new_Config) simp_all

lemma new_Config_polite:
  assumes "new_Config os lg y new_ProcessManager s = (Stop e, t)"
  shows "polite e"
proof -
  obtain q v where find: "findConfig os s = (q, v)" by (cases "findConfig os s")
  show ?thesis
  proof (cases q)
    case (Val doc)
    with assms find have parse: "parseConfig os lg y doc (empty_Config, new_ProcessManager) v = (Stop e, t)"
      by (simp add: new_Config_def bnd_Val)
    have "cfg_state (kids (hist v)) (empty_Config, new_ProcessManager) v"
      using cfg_ok_empty by (auto simp: cfg_state_def heap_is_def)
    from triple_Stop [OF triple_parseConfig this parse] show ?thesis .
  next
    case (Stop e')
    with assms find show ?thesis
      by (auto simp: new_Config_def findConfig_def seq_run sys_call_def Let_def halt_run ret_run split: option.splits)
  qed
qed

lemma start_up_result:
  assumes "static_fs os fs ls" "\<forall>h. os_getcwd os h = Inr dir" "tame fs ls ht dir" "ht dir < depth"
  shows "case start_up depth os y s of
      (Val (c, pm, w), t) \<Rightarrow>
         (\<exists>d. file_meaning os y (hist s) = Inr d \<and> shows_document (procs t) (argvs t) c pm d) \<and>
         kids (hist t) = kids (hist s) \<and>
         watched (hist t) = insert dir (watched (hist s) \<union> {q. below fs ls dir q}) \<and>
         map snd (watches (hist t)) = map snd (watches (hist s)) @ mFDs w
    | (Stop e, t) \<Rightarrow> file_meaning os y (hist s) = Inl e"
proof -
  obtain r u where new: "new_Config os StdoutLogger y new_ProcessManager s = (r, u)"
    by (cases "new_Config os StdoutLogger y new_ProcessManager s")
  show ?thesis
  proof (cases r)
    case (Stop e)
    with new have "start_up depth os y s = (Stop e, u)" by (simp add: start_up_def bnd_Stop)
    with new_Config_reads [OF new] Stop show ?thesis by simp
  next
    case (Val cp)
    obtain c pm where cp: "cp = (c, pm)" by (cases cp)
    obtain x t where watch: "new_Watcher depth os ''./'' pm True u = (x, t)"
      by (cases "new_Watcher depth os ''./'' pm True u")
    have start: "watching (watched (hist s)) (map snd (watches (hist s))) u"
      using unwatched_new_Config [of os StdoutLogger y new_ProcessManager] new
      unfolding leaves_def watching_def watched_def by (metis snd_conv)
    note tr = watching_new_Watcher [OF assms]
    show ?thesis
    proof (cases x)
      case (Stop e)
      from triple_Stop [OF tr start watch [unfolded Stop]] show ?thesis ..
    next
      case x: (Val w)
      have run: "start_up depth os y s = (Val (c, pm, w), t)"
        using new Val cp watch x by (simp add: start_up_def bnd_Val ret_run)
      have "procs t = procs u" "argvs t = argvs u" by (rule calmD [OF calm_new_Watcher watch], simp)+
      with new_Config_reads [OF new] Val cp start_up_Val [OF run] triple_Val [OF tr start watch [unfolded x]] run
      show ?thesis by (auto simp: watching_def)
    qed
  qed
qed


section \<open>How the program can die\<close>


end
