(* ===== verification/Prototype.thy ===== *)
theory Prototype
  imports Driver
begin

unbundle bit_operations_syntax

text \<open>
  The prototype (src/oldwatcher.c), the single-file program Renzoku grew out of and that is kept
  beside it: one directory, hard-wired commands, a hard-wired suffix. A second edition of it is still in
  src/src/process.cpp and src/src/watcher.cpp, under \<open>NOBUILD\<close> and \<open>DEBUG\<close>, which no build
  defines. What the two differ in (the messages, the program, the suffixes, what a failed fork returns)
  is the record \<open>edition\<close>.

  Its loop looks at \<open>gRunning\<close> in two places. The signal may arrive at any time, and it matters only
  to the next look, so the handler runs, if at all, before a look: \<open>sig k\<close> says whether it does
  before the look number \<open>k\<close>.
\<close>

section \<open>Strings\<close>

text \<open>
  \<open>strncmp(a, b, n) == 0\<close>, and the test of a suffix; a null pointer is \<open>None\<close>.
\<close>

definition strncmp_eq :: "string \<Rightarrow> string \<Rightarrow> nat \<Rightarrow> bool" where
  "strncmp_eq a b n \<longleftrightarrow> take n (cstr a) = take n (cstr b)"

definition ends_with :: "string option \<Rightarrow> string option \<Rightarrow> int" where
  "ends_with str sfx =
     (case (str, sfx) of
        (Some a, Some b) \<Rightarrow>
          (let lenstr = length (cstr a); lensuffix = length (cstr b)
           in if lensuffix > lenstr then 0
              else if strncmp_eq (drop (lenstr - lensuffix) a) b lensuffix then 1 else 0)
      | _ \<Rightarrow> 0)"

section \<open>Editions\<close>

datatype notice =
    Exited_with int int
  | No_program
  | In_child int
  | Child_pid int
  | No_rebuild
  | Build_error
  | Working_dir string
  | Modified string
  | Caught

fun plain_text :: "notice \<Rightarrow> string" where
  "plain_text (Exited_with pid st) =
     ''=> Process ['' @ show_int pid @ ''] exited with '' @ show_int st @ [CHR 0x0A]"
| "plain_text No_program = ''Failed to run program!'' @ [CHR 0x0A]"
| "plain_text (In_child pid) = ''['' @ show_int pid @ ''] -> In child process!'' @ [CHR 0x0A]"
| "plain_text (Child_pid pid) = ''-> The child has a pid of '' @ show_int pid @ [CHR 0x0A]"
| "plain_text No_rebuild = ''Failed to rebuild!'' @ [CHR 0x0A]"
| "plain_text Build_error = ''=> An error has occured during the build'' @ [CHR 0x0A]"
| "plain_text (Working_dir d) = ''Current working dir: '' @ d @ [CHR 0x0A]"
| "plain_text (Modified name) = '' => File '' @ name @ '' was modified!'' @ [CHR 0x0A]"
| "plain_text Caught = ''=> Caught deadly SIGINT, termination immenent!'' @ [CHR 0x0A]"

definition coloured :: "string \<Rightarrow> string \<Rightarrow> string" where
  "coloured c line = esc c @ line @ esc ''0'' @ [CHR 0x0A]"

fun colour_text :: "notice \<Rightarrow> string" where
  "colour_text (Exited_with pid st) =
     coloured ''0;31'' (''=> Process ['' @ show_int pid @ ''] exited with '' @ show_int st)"
| "colour_text No_program = coloured ''0;31'' ''=> Failed to run program!''"
| "colour_text (In_child pid) = coloured ''1;30'' (''['' @ show_int pid @ ''] -> In child process!'')"
| "colour_text (Child_pid pid) = coloured ''1;30'' (''-> The child has a pid of '' @ show_int pid)"
| "colour_text No_rebuild = ''='' @ coloured ''0;31'' ''> Failed to rebuild!''"
| "colour_text Build_error = coloured ''0;31'' ''=> An error has occured during the build''"
| "colour_text (Working_dir d) = coloured ''0;32'' (''=>Current working dir: '' @ d)"
| "colour_text (Modified name) = coloured ''0;32'' (''=> File '' @ name @ '' was modified!'')"
| "colour_text Caught = coloured ''0;31'' ''=> Caught deadly SIGINT, termination immenent!''"

text \<open>
  \<open>ed_search\<close>, \<open>ed_file\<close> and \<open>ed_args\<close> are the call of \<open>exec\<close> that starts the program; \<open>ed_unforked\<close>
  is what \<open>runprog\<close> returns after a failed \<open>fork\<close>, \<open>None\<close> for a \<open>return\<close> without a value.
\<close>

record edition =
  ed_text :: "notice \<Rightarrow> string"
  ed_search :: bool
  ed_file :: string
  ed_args :: "string list"
  ed_unforked :: "int option"
  ed_suffixes :: "string list"

definition oldwatcher :: edition where
  "oldwatcher = \<lparr>ed_text = plain_text, ed_search = True, ed_file = ''./a.out'',
     ed_args = [''./a.out'', ''--renzoku''], ed_unforked = None, ed_suffixes = [''.sh'']\<rparr>"

definition disabled_copy :: edition where
  "disabled_copy = \<lparr>ed_text = colour_text, ed_search = False, ed_file = ''led'', ed_args = [''./led''],
     ed_unforked = Some 0, ed_suffixes = [''.c'', ''.cpp'']\<rparr>"

section \<open>Processes\<close>

definition printf :: "string \<Rightarrow> unit io" where
  "printf out = sys_write Stdout out"

definition fprintf_stderr :: "string \<Rightarrow> unit io" where
  "fprintf_stderr out = sys_write Stderr out"

definition killprog :: "edition \<Rightarrow> os \<Rightarrow> int \<Rightarrow> int io" where
  "killprog ed os pid =
     (if pid \<le> 1 then ret 1
      else
        bnd (sys_kill os pid SIGTERM) (\<lambda>r.
        if r \<noteq> 0 then thn (perror os ''kill'') (ret 0)
        else
          bnd (sys_waitpid os pid False) (\<lambda>(pid, status).
          thn (if pid < 0 then perror os ''waitpid'' else ret ())
         (thn (if status \<noteq> 0
               then printf (ed_text ed (Exited_with pid status))
               else ret ())
              (ret 1)))))"

text \<open>
  Starting the program. After a failed \<open>fork\<close> one edition returns without a value; a child
  whose \<open>execvp\<close> fails returns 0 to its caller, as a second copy of the watcher.
\<close>

definition runprog :: "edition \<Rightarrow> os \<Rightarrow> int option io" where
  "runprog ed os =
     bnd (sys_fork os) (\<lambda>pid.
     if pid = -1 then
       thn (fprintf_stderr (ed_text ed No_program))
      (thn (perror os ''fork'') (ret (ed_unforked ed)))
     else if pid = 0 then
       thn (bnd (gets hist) (\<lambda>h. printf (ed_text ed (In_child (os_getpid os h)))))
      (thn (sys_exec os (ed_search ed) (ed_file ed) (ed_args ed))
      (thn (perror os ''ERROR: Failed to run rebuild command'') (ret (Some pid))))
     else thn (printf (ed_text ed (Child_pid pid))) (ret (Some pid)))"

definition old_rebuild :: "edition \<Rightarrow> os \<Rightarrow> int io" where
  "old_rebuild ed os =
     bnd (sys_fork os) (\<lambda>pid.
     if pid = -1 then
       thn (fprintf_stderr (ed_text ed No_rebuild))
      (thn (perror os ''fork'') (ret 1))
     else if pid = 0 then
       thn (bnd (gets hist) (\<lambda>h. printf (ed_text ed (In_child (os_getpid os h)))))
      (thn (sys_exec os True ''make'' [''make''])
      (thn (perror os ''ERROR: Failed to run rebuild command'') (halt (Exited 1))))
     else
       thn (printf (ed_text ed (Child_pid pid)))
      (bnd (sys_waitpid os pid False) (\<lambda>(pid, status).
       thn (if pid < 0 then perror os ''waitpid'' else ret ())
      (if status \<noteq> 0
       then thn (fprintf_stderr (ed_text ed Build_error)) (ret 1)
       else ret 0))))"

section \<open>The watcher\<close>

text \<open>The state of the program with the number of looks at \<open>gRunning\<close> made so far.\<close>

record watched_program = program +
  looks :: nat

type_synonym 'a old = "(watched_program, 'a) comp"

definition on_machine :: "'a io \<Rightarrow> 'a old" where
  "on_machine m = (\<lambda>p. case m (machine p) of (r, s) \<Rightarrow> (r, p\<lparr>machine := s\<rparr>))"

definition catch_int :: "edition \<Rightarrow> unit old" where
  "catch_int ed =
     thn (modify (\<lambda>p. p\<lparr>gRunning := False\<rparr>))
         (on_machine (fprintf_stderr (ed_text ed Caught)))"

definition look :: "edition \<Rightarrow> (nat \<Rightarrow> bool) \<Rightarrow> bool old" where
  "look ed sig =
     bnd (gets looks) (\<lambda>k.
     thn (if sig k then catch_int ed else ret ())
    (thn (modify (\<lambda>p. p\<lparr>looks := looks p + 1\<rparr>))
         (gets gRunning)))"

text \<open>The local variables that live through the loop: \<open>timer\<close> and \<open>progpid\<close>.\<close>

record old_locals =
  timer :: int
  progpid :: int

text \<open>A call of \<open>runprog\<close> whose result is used.\<close>

definition new_program :: "edition \<Rightarrow> os \<Rightarrow> int io" where
  "new_program ed os = bnd (runprog ed os) deref"

definition old_modified :: "edition \<Rightarrow> os \<Rightarrow> (nat \<Rightarrow> bool) \<Rightarrow> string \<Rightarrow> old_locals \<Rightarrow> old_locals old" where
  "old_modified ed os sig name st =
     thn (on_machine (printf (ed_text ed (Modified name))))
    (let timediff = os_localtime os (timer st);
         timediff = timediff\<lparr>tm_sec := tm_sec timediff + 5\<rparr> in
     bnd (on_machine (sys_time os)) (\<lambda>now.
     if os_mktime os timediff \<le> now then
       bnd (look ed sig) (\<lambda>running.
       if running then
         bnd (on_machine (old_rebuild ed os)) (\<lambda>failed.
         if failed = 0 then
           bnd (on_machine (sys_time os)) (\<lambda>now.
           let st = st\<lparr>timer := now\<rparr> in
           bnd (on_machine (killprog ed os (progpid st))) (\<lambda>killed.
           if killed \<noteq> 0 then bnd (on_machine (new_program ed os)) (\<lambda>pid. ret (st\<lparr>progpid := pid\<rparr>))
           else ret st))
         else ret st)
       else ret st)
     else ret st))"

text \<open>The event at an index; its name is read only if it has one.\<close>

definition old_event :: "edition \<Rightarrow> os \<Rightarrow> (nat \<Rightarrow> bool) \<Rightarrow> byte list \<Rightarrow> int \<Rightarrow> old_locals \<Rightarrow> old_locals old" where
  "old_event ed os sig buffer i st =
     bnd (lift_res (u32_at buffer (i + 12))) (\<lambda>len.
     if len \<noteq> 0 then
       bnd (lift_res (u32_at buffer (i + 4))) (\<lambda>mask.
       if mask AND IN_MODIFY \<noteq> 0 then
         (if \<not> mask AND IN_ISDIR \<noteq> 0 then
            bnd (lift_res (cstring_at buffer (i + 16))) (\<lambda>name.
            if \<exists>sfx \<in> set (ed_suffixes ed). ends_with (Some name) (Some sfx) \<noteq> 0 then old_modified ed os sig name st
            else ret st)
          else ret st)
       else ret st)
     else ret st)"

primrec old_loop :: "nat \<Rightarrow> edition \<Rightarrow> os \<Rightarrow> (nat \<Rightarrow> bool) \<Rightarrow> byte list \<Rightarrow> int \<Rightarrow> int \<Rightarrow> old_locals \<Rightarrow> old_locals old" where
  "old_loop 0 ed os sig buffer i got st = halt Out_of_fuel"
| "old_loop (Suc n) ed os sig buffer i got st =
     (if i < got then
        bnd (old_event ed os sig buffer i st) (\<lambda>st.
        bnd (lift_res (u32_at buffer (i + 12))) (\<lambda>len.
          old_loop n ed os sig buffer (next_index i len) got st))
      else ret st)"

text \<open>One round of the outer loop.\<close>

definition old_round :: "edition \<Rightarrow> os \<Rightarrow> (nat \<Rightarrow> bool) \<Rightarrow> int \<Rightarrow> byte list \<Rightarrow> old_locals \<Rightarrow> (byte list \<times> old_locals) old" where
  "old_round ed os sig fd buffer st =
     bnd (on_machine (sys_read os fd EVENT_BUF_LEN)) (\<lambda>(got, bytes).
     let buffer = store_bytes bytes buffer in
     thn (if got \<le> 0 then on_machine (perror os ''read'') else ret ())
    (bnd (old_loop EVENT_FUEL ed os sig buffer 0 got st) (\<lambda>st. ret (buffer, st))))"

text \<open>The rounds while the flag is set, as many as the bound allows.\<close>

primrec old_rounds :: "nat \<Rightarrow> edition \<Rightarrow> os \<Rightarrow> (nat \<Rightarrow> bool) \<Rightarrow> int \<Rightarrow> byte list \<Rightarrow> old_locals \<Rightarrow> old_locals old" where
  "old_rounds 0 ed os sig fd buffer st = halt Out_of_fuel"
| "old_rounds (Suc n) ed os sig fd buffer st =
     bnd (look ed sig) (\<lambda>running.
     if running then
       bnd (old_round ed os sig fd buffer st) (\<lambda>(buffer, st). old_rounds n ed os sig fd buffer st)
     else ret st)"

text \<open>
  Setting up: the program is started first; the path buffer is indeterminate if \<open>getcwd\<close> fails.
\<close>

definition old_watch_cwd :: "edition \<Rightarrow> os \<Rightarrow> (int \<times> int) io" where
  "old_watch_cwd ed os =
     bnd (sys_getcwd os) (\<lambda>cwd.
     thn (case cwd of
            Some d \<Rightarrow> printf (ed_text ed (Working_dir d))
          | None \<Rightarrow> perror os ''getcwd'')
    (bnd (sys_inotify_init os) (\<lambda>fd.
     thn (if fd < 0 then perror os ''inotify_init'' else ret ())
    (bnd (deref cwd) (\<lambda>d.
     bnd (sys_add_watch os fd d) (\<lambda>wd. ret (fd, wd)))))))"

definition old_setup :: "edition \<Rightarrow> os \<Rightarrow> (int \<times> int \<times> old_locals) io" where
  "old_setup ed os =
     bnd (sys_time os) (\<lambda>now.
     bnd (new_program ed os) (\<lambda>pid.
     bnd (old_watch_cwd ed os) (\<lambda>(fd, wd).
       ret (fd, wd, \<lparr>timer = now - 15, progpid = pid\<rparr>))))"

definition old_clean_up :: "edition \<Rightarrow> os \<Rightarrow> int \<Rightarrow> int \<Rightarrow> old_locals \<Rightarrow> unit io" where
  "old_clean_up ed os fd wd st =
     bnd (killprog ed os (progpid st)) (\<lambda>_.
     thn (sys_rm_watch os fd wd)
         (sys_close fd))"

definition old_watcher :: "nat \<Rightarrow> edition \<Rightarrow> os \<Rightarrow> (nat \<Rightarrow> bool) \<Rightarrow> unit old" where
  "old_watcher rounds ed os sig =
     bnd (on_machine (old_setup ed os)) (\<lambda>(fd, wd, st).
     bnd (old_rounds rounds ed os sig fd [] st) (\<lambda>st.
       on_machine (old_clean_up ed os fd wd st)))"

definition old_main :: "nat \<Rightarrow> edition \<Rightarrow> os \<Rightarrow> (nat \<Rightarrow> bool) \<Rightarrow> int old" where
  "old_main rounds ed os sig = thn (old_watcher rounds ed os sig) (ret 0)"

section \<open>The second edition\<close>

text \<open>The functions under \<open>NOBUILD\<close> in process.cpp and under \<open>DEBUG\<close> in watcher.cpp.\<close>

definition killprog_copy :: "os \<Rightarrow> int \<Rightarrow> int io" where
  "killprog_copy = killprog disabled_copy"

definition runprog_copy :: "os \<Rightarrow> int option io" where
  "runprog_copy = runprog disabled_copy"

definition rebuild_copy :: "os \<Rightarrow> int io" where
  "rebuild_copy = old_rebuild disabled_copy"

definition catch_int_copy :: "unit old" where
  "catch_int_copy = catch_int disabled_copy"

definition ends_with_copy :: "string option \<Rightarrow> string option \<Rightarrow> int" where
  "ends_with_copy = ends_with"

definition watcher_copy :: "nat \<Rightarrow> os \<Rightarrow> (nat \<Rightarrow> bool) \<Rightarrow> unit old" where
  "watcher_copy rounds = old_watcher rounds disabled_copy"

definition main_copy :: "nat \<Rightarrow> os \<Rightarrow> (nat \<Rightarrow> bool) \<Rightarrow> int old" where
  "main_copy rounds = old_main rounds disabled_copy"

section \<open>The children of the prototype\<close>

text \<open>
  What the proofs need of the state is the set of children; most calls leave it alone and return.
\<close>

abbreviation kids_are :: "int set \<Rightarrow> sys \<Rightarrow> bool" where
  "kids_are K \<equiv> (\<lambda>s. kids (hist s) = K)"

definition harmless :: "'a io \<Rightarrow> bool" where
  "harmless m \<longleftrightarrow> (\<forall>s. \<exists>x t. m s = (Val x, t) \<and> kids (hist t) = kids (hist s))"

lemma harmless_ret: "harmless (ret x)" "harmless (gets f)"
  by (simp_all add: harmless_def ret_def gets_def)

lemma harmless_sys_call: "(\<And>r K. kid_step (ev r) K = K) \<Longrightarrow> harmless (sys_call f ev er)"
  by (simp add: harmless_def sys_call_def Let_def kids_snoc)

lemma harmless_bnd: "harmless m \<Longrightarrow> (\<And>x. harmless (k x)) \<Longrightarrow> harmless (bnd m k)"
  unfolding harmless_def by (metis bnd_Val)

lemma harmless_if: "harmless m \<Longrightarrow> harmless k \<Longrightarrow> harmless (if b then m else k)"
  by simp

lemma harmless_calls:
  "harmless (sys_write file out)"
  "harmless (printf out)"
  "harmless (fprintf_stderr out)"
  "harmless (perror os message)"
  "harmless (sys_time os)"
  "harmless (sys_getcwd os)"
  "harmless (sys_inotify_init os)"
  "harmless (sys_add_watch os fd path)"
  "harmless (sys_rm_watch os fd wd)"
  "harmless (sys_close fd)"
  "harmless (sys_read os fd n)"
  "harmless (sys_kill os pid signal)"
  unfolding printf_def fprintf_stderr_def perror_def sys_write_def sys_time_def sys_getcwd_def sys_inotify_init_def
    sys_add_watch_def sys_rm_watch_def sys_close_def sys_read_def sys_kill_def thn_def
  by (auto intro!: harmless_bnd harmless_sys_call harmless_ret split: prod.split)

lemma harmless_in_child: "harmless (bnd (gets hist) (\<lambda>h. printf (ed_text ed (In_child (os_getpid os h)))))"
  by (intro harmless_bnd harmless_ret harmless_calls)

lemma bnd_harmless:
  assumes "harmless m" "\<And>x. triple (kids_are K) (k x) Q E"
  shows "triple (kids_are K) (bnd m k) Q E"
  unfolding triple_def
proof (intro allI impI)
  fix s :: sys assume s: "kids (hist s) = K"
  with assms(1) obtain x t where "m s = (Val x, t)" "kids (hist t) = K" unfolding harmless_def by metis
  with assms(2) [of x] show "case bnd m k s of (Val x, t) \<Rightarrow> Q x t | (Stop e, t) \<Rightarrow> E e t"
    by (simp add: triple_def run_simps)
qed

lemma thn_harmless:
  "harmless m \<Longrightarrow> triple (kids_are K) k Q E \<Longrightarrow> triple (kids_are K) (thn m k) Q E"
  unfolding thn_def by (rule bnd_harmless)

lemma bnd_fork_kids:
  assumes "posix os"
    and "\<exists>h. fst (os_fork os h) = - 1 \<Longrightarrow> triple (kids_are K) (k (- 1)) Q E"
    and "triple (kids_are K) (k 0) Q E"
    and "\<And>pid. 1 < pid \<Longrightarrow> pid \<notin> K \<Longrightarrow> triple (kids_are (insert pid K)) (k pid) Q E"
  shows "triple (kids_are K) (bnd (sys_fork os) k) Q E"
  unfolding triple_def
proof (intro allI impI)
  fix s :: sys assume s: "kids (hist s) = K"
  obtain pid t where pid: "sys_fork os s = (Val pid, t)" "hist t = hist s @ [EFork pid]"
      "pid = fst (os_fork os (hist s))"
    by (cases "os_fork os (hist s)") (auto simp: sys_fork_def sys_call_def bnd_def ret_def Let_def)
  from assms(1) pid(3) s have "pid \<in> {-1, 0} \<or> 1 < pid \<and> pid \<notin> K"
    unfolding posix_def posix_fork_def by metis
  moreover have "kids (hist t) = (if 0 < pid then insert pid K else K)"
    using pid(2) s by (simp add: kids_snoc)
  moreover have "pid = -1 \<Longrightarrow> \<exists>h. fst (os_fork os h) = - 1" using pid(3) by metis
  ultimately have "case k pid t of (Val x, t) \<Rightarrow> Q x t | (Stop e, t) \<Rightarrow> E e t"
    using assms(2-4) unfolding triple_def by (elim disjE insertE) auto
  with pid(1) show "case bnd (sys_fork os) k s of (Val x, t) \<Rightarrow> Q x t | (Stop e, t) \<Rightarrow> E e t"
    by (simp add: run_simps)
qed

lemma bnd_wait_kids:
  assumes "posix os" "0 < pid"
    and "\<And>st. pid \<in> K \<Longrightarrow> triple (kids_are (K - {pid})) (k (pid, st)) Q E"
    and "pid \<notin> K \<Longrightarrow> triple (kids_are K) (k (- 1, 0)) Q E"
  shows "triple (kids_are K) (bnd (sys_waitpid os pid False) k) Q E"
  unfolding triple_def
proof (intro allI impI)
  fix s :: sys assume s: "kids (hist s) = K"
  obtain r st e where r: "os_waitpid os (hist s) pid False = (r, st, e)" by (metis prod_cases3)
  then obtain t where t: "sys_waitpid os pid False s = (Val (r, if 0 < r then st else 0), t)"
      "hist t = hist s @ [EWait pid False r st]"
    by (auto simp: sys_waitpid_def sys_call_def bnd_def ret_def Let_def)
  have "if pid \<in> K then r = pid else r = -1"
  proof -
    from assms(1) have "posix_wait os" by (simp add: posix_def)
    with assms(2) r have "if pid \<in> kids (hist s) then r = pid \<or> False \<and> r = 0 else r = -1 \<and> e = ECHILD"
      unfolding posix_wait_def by blast
    with s show ?thesis by (auto split: if_splits)
  qed
  moreover have "kids (hist t) = (if 0 < r then K - {r} else K)" using t(2) s by (simp add: kids_snoc)
  ultimately have "case k (r, if 0 < r then st else 0) t of (Val x, t) \<Rightarrow> Q x t | (Stop e, t) \<Rightarrow> E e t"
    using assms(2) assms(3) [of st] assms(4) unfolding triple_def by (auto split: if_splits)
  with t(1) show "case bnd (sys_waitpid os pid False) k s of (Val x, t) \<Rightarrow> Q x t | (Stop e, t) \<Rightarrow> E e t"
    by (simp add: run_simps)
qed

text \<open>
  A signal to a child that has not been collected can be delivered, also if the child has ended
  (kill(2)); \<open>posix_kill\<close> says it for those who may send the null signal.
\<close>

definition kids_killable :: "os \<Rightarrow> bool" where
  "kids_killable os \<longleftrightarrow> (\<forall>h p. p \<in> kids h \<longrightarrow> fst (os_kill os h p SIGTERM) = 0)"

text \<open>The only child is the program; pids of children are above 1.\<close>

definition its_program :: "int \<Rightarrow> int set \<Rightarrow> bool" where
  "its_program pid K \<longleftrightarrow> K \<subseteq> {pid} \<and> (pid \<le> 1 \<longrightarrow> K = {})"

lemma triple_killprog:
  assumes "posix os" "kids_killable os" "its_program pid K"
  shows "triple (kids_are K) (killprog ed os pid) (\<lambda>_. kids_are {}) E"
proof (cases "pid \<le> 1")
  case True
  with assms(3) show ?thesis by (simp add: killprog_def its_program_def triple_ret)
next
  case False
  have reap: "triple (kids_are K) (bnd (sys_waitpid os pid False) (\<lambda>(pid, status).
      thn (if pid < 0 then perror os ''waitpid'' else ret ())
     (thn (if status \<noteq> 0
           then printf (ed_text ed (Exited_with pid status))
           else ret ())
          (ret 1)))) (\<lambda>_. kids_are {}) E"
    using False assms(3)
    by (intro bnd_wait_kids [OF assms(1)])
       (auto intro!: thn_harmless harmless_if harmless_calls harmless_ret triple_ret simp: its_program_def)
  show ?thesis
    unfolding triple_def
  proof (intro allI impI)
    fix s :: sys assume s: "kids (hist s) = K"
    obtain t where t: "sys_kill os pid SIGTERM s = (Val (fst (os_kill os (hist s) pid SIGTERM)), t)"
        "hist t = hist s @ [EKill pid SIGTERM (fst (os_kill os (hist s) pid SIGTERM))]"
      using sys_kill_run [of os pid SIGTERM s] by auto
    then have k: "kids (hist t) = K" using s by (simp add: kids_snoc)
    show "case killprog ed os pid s of (Val x, t) \<Rightarrow> kids (hist t) = {} | (Stop e, t) \<Rightarrow> E e t"
    proof (cases "fst (os_kill os (hist s) pid SIGTERM) = 0")
      case True
      with False t(1) reap [unfolded triple_def, rule_format, of t, OF k] show ?thesis
        by (simp add: killprog_def run_simps)
    next
      case not_sent: False
      with assms(2,3) s have "K = {}" by (auto simp: kids_killable_def its_program_def)
      obtain u where "perror os ''kill'' t = (Val (), u)" "kids (hist u) = kids (hist t)"
        using harmless_calls(4) [of os "''kill''"] by (auto simp: harmless_def)
      with False not_sent t(1) k \<open>K = {}\<close> show ?thesis
        by (simp add: killprog_def run_simps)
    qed
  qed
qed

lemma triple_exec_kids:
  assumes "\<And>s. E (Replaced b file v) s"
    and "triple (kids_are K) k Q E"
  shows "triple (kids_are K) (thn (sys_exec os b file v) k) Q E"
  unfolding triple_def
proof (intro allI impI)
  fix s :: sys assume s: "kids (hist s) = K"
  show "case thn (sys_exec os b file v) k s of (Val x, t) \<Rightarrow> Q x t | (Stop e, t) \<Rightarrow> E e t"
  proof (cases "os_exec os (hist s) b file v")
    case None
    then have "sys_exec os b file v s = (Stop (Replaced b file v), s)"
      by (simp add: sys_exec_def bnd_def gets_def halt_def)
    with assms(1) show ?thesis by (simp add: run_simps)
  next
    case (Some e)
    then have "sys_exec os b file v s = (Val (), s\<lparr>hist := hist s @ [EExec b file v], errno := e\<rparr>)"
      by (simp add: sys_exec_def bnd_def gets_def modify_def)
    with assms(2) s show ?thesis by (simp add: run_simps triple_def kids_snoc)
  qed
qed

text \<open>
  The prototype uses a value it was not given where the program cannot be forked, or the name of
  the current directory is not to be had.
\<close>

definition old_failure :: "edition \<Rightarrow> os \<Rightarrow> stop \<Rightarrow> bool" where
  "old_failure ed os e \<longleftrightarrow> child_stop e \<or>
     e = Undefined \<and> (ed_unforked ed = None \<and> (\<exists>h. fst (os_fork os h) = - 1) \<or> (\<exists>h err. os_getcwd os h = Inl err))"

text \<open>What is returned after a failed fork is not the pid of a process.\<close>

definition no_pid :: "edition \<Rightarrow> bool" where
  "no_pid ed \<longleftrightarrow> (\<forall>pid. ed_unforked ed = Some pid \<longrightarrow> pid \<le> 1)"

lemma triple_new_program:
  assumes "posix os" "no_pid ed"
  shows "triple (kids_are {}) (new_program ed os)
    (\<lambda>pid s. its_program pid (kids (hist s))) (\<lambda>e _. old_failure ed os e)"
proof -
  have "triple (kids_are {}) (runprog ed os)
      (\<lambda>r s. case r of None \<Rightarrow> ed_unforked ed = None \<and> (\<exists>h. fst (os_fork os h) = - 1)
         | Some pid \<Rightarrow> its_program pid (kids (hist s)))
      (\<lambda>e _. old_failure ed os e)"
    unfolding runprog_def
    by (intro bnd_fork_kids [OF assms(1)])
       (use assms(2) in \<open>auto intro!: thn_harmless harmless_calls harmless_in_child triple_exec_kids triple_ret
          simp: its_program_def old_failure_def no_pid_def split: option.split\<close>)
  then show ?thesis
    unfolding new_program_def
    by (rule triple_bnd)
       (auto simp: triple_def deref_def ret_def halt_def old_failure_def split: option.splits)
qed

lemma triple_old_rebuild:
  assumes "posix os"
  shows "triple (kids_are K) (old_rebuild ed os) (\<lambda>_. kids_are K) (\<lambda>e _. child_stop e)"
  unfolding old_rebuild_def
  by (intro bnd_fork_kids [OF assms])
     (auto intro!: thn_harmless harmless_calls harmless_in_child harmless_if harmless_ret triple_exec_kids
        bnd_wait_kids [OF assms] triple_ret triple_halt)

section \<open>The suffix\<close>

lemma cstr_drop: "k \<le> length (cstr a) \<Longrightarrow> cstr (drop k a) = drop k (cstr a)"
proof (induction a arbitrary: k)
  case (Cons c a)
  then show ?case by (cases k) (auto simp: cstr_def split: if_splits)
qed (simp add: cstr_def)

lemma ends_with_Some:
  "ends_with (Some a) (Some b) = (if suffix (cstr b) (cstr a) then 1 else 0)"
proof (cases "length (cstr b) \<le> length (cstr a)")
  case True
  then have "suffix (cstr b) (cstr a) \<longleftrightarrow> drop (length (cstr a) - length (cstr b)) (cstr a) = cstr b"
    by (metis append_eq_conv_conj append_take_drop_id diff_le_self length_drop suffix_def
        append_eq_append_conv diff_diff_cancel)
  with True show ?thesis
    by (simp add: ends_with_def strncmp_eq_def cstr_drop Let_def)
next
  case False
  then show ?thesis by (auto simp: ends_with_def Let_def dest: suffix_length_le)
qed

text \<open>
  The test of the file name, with its lengths and its pointer arithmetic, is the suffix relation on C
  strings; a null pointer has no suffix and is none.
\<close>

theorem ends_with_suffix:
  "ends_with str sfx = (case (str, sfx) of
     (Some a, Some b) \<Rightarrow> if suffix (cstr b) (cstr a) then 1 else 0
   | _ \<Rightarrow> 0)"
  by (cases str; cases sfx) (simp_all add: ends_with_Some, simp_all add: ends_with_def)

text \<open>
  C40. A child that cannot become the program goes on as a second watcher: if the fork answered 0 and
  \<open>execvp\<close> fails, \<open>runprog\<close> returns 0 in the child, and killing "its program" when the next file is
  modified does nothing and succeeds, so that the copy will start programs of its own.
\<close>

theorem runprog_falls_through:
  assumes "fst (os_fork os (hist s)) = 0"
    and "\<forall>h. os_exec os h (ed_search ed) (ed_file ed) (ed_args ed) \<noteq> None"
  shows "\<exists>t. runprog ed os s = (Val (Some 0), t) \<and> killprog ed os 0 t = (Val 1, t)"
proof -
  obtain e where fork: "os_fork os (hist s) = (0, e)" using assms(1) by (cases "os_fork os (hist s)") auto
  obtain x t where pre: "bnd (gets hist) (\<lambda>h. printf (ed_text ed (In_child (os_getpid os h)))) (s\<lparr>hist := hist s @ [EFork 0]\<rparr>) = (Val x, t)"
    using harmless_in_child unfolding harmless_def by blast
  obtain n where exec: "os_exec os (hist t) (ed_search ed) (ed_file ed) (ed_args ed) = Some n"
    using assms(2) by auto
  obtain y u where err: "perror os ''ERROR: Failed to run rebuild command''
      (t\<lparr>hist := hist t @ [EExec (ed_search ed) (ed_file ed) (ed_args ed)], errno := n\<rparr>) = (Val y, u)"
    using harmless_calls(4) unfolding harmless_def by blast
  have "sys_exec os (ed_search ed) (ed_file ed) (ed_args ed) t =
      (Val (), t\<lparr>hist := hist t @ [EExec (ed_search ed) (ed_file ed) (ed_args ed)], errno := n\<rparr>)"
    using exec by (simp add: sys_exec_def bnd_def gets_def modify_def)
  moreover have "sys_fork os s = (Val 0, s\<lparr>hist := hist s @ [EFork 0]\<rparr>)"
    using fork by (simp add: sys_fork_def sys_call_def bnd_def ret_def Let_def)
  ultimately have "runprog ed os s = (Val (Some 0), u)"
    unfolding runprog_def using pre err by (simp add: run_simps)
  then show ?thesis by (simp add: killprog_def ret_def)
qed

section \<open>The loop over the events\<close>

definition old_handle :: "edition \<Rightarrow> os \<Rightarrow> (nat \<Rightarrow> bool) \<Rightarrow> inotify_event \<Rightarrow> old_locals \<Rightarrow> old_locals old" where
  "old_handle ed os sig ev st =
     (if ev_len ev \<noteq> 0 \<and> ev_mask ev AND IN_MODIFY \<noteq> 0 \<and> \<not> ev_mask ev AND IN_ISDIR \<noteq> 0 \<and>
         (\<exists>sfx \<in> set (ed_suffixes ed). ends_with (Some (ev_name ev)) (Some sfx) \<noteq> 0)
      then old_modified ed os sig (ev_name ev) st else ret st)"

lemma old_event_encode:
  assumes "whole ev"
  shows "old_event ed os sig (pre @ encode_event ev @ post) (int (length pre)) st = old_handle ed os sig ev st"
proof -
  let ?b = "pre @ encode_event ev @ post"
  have words: "u32_at ?b (int (length pre) + 12) = Inr (ev_len ev)"
      "u32_at ?b (int (length pre) + 4) = Inr (ev_mask ev)"
    using u32_at_append [of 12 pre "encode_event ev @ post"] u32_at_append [of 4 pre "encode_event ev @ post"]
    by (simp_all add: encode_words)
  have "cstring_at ?b (int (length pre) + 16) = Inr (ev_name ev)" if "ev_len ev \<noteq> 0"
    using cstring_at_append [of 16 pre "encode_event ev @ post"] encode_name [of ev post] that assms
    by (simp add: whole_def)
  with words show ?thesis
    by (cases "ev_len ev = 0") (simp_all add: old_event_def old_handle_def lift_res_def)
qed

lemma triple_old_loop:
  assumes "\<forall>ev \<in> set evs. whole ev"
    and "length evs < n" "length pre + length (concat (map encode_event evs)) < 2 ^ 31"
    and "\<And>ev st. ev \<in> set evs \<Longrightarrow> triple (J st) (old_handle ed os sig ev st) J E"
  shows "triple (J st) (old_loop n ed os sig (pre @ concat (map encode_event evs) @ post) (int (length pre))
     (int (length pre + length (concat (map encode_event evs)))) st) J E"
  using assms
proof (induction evs arbitrary: n pre st)
  case Nil
  then obtain m where "n = Suc m" by (cases n) auto
  then show ?case by (simp add: triple_ret)
next
  case (Cons ev evs)
  then obtain m where n: "n = Suc m" by (cases n) auto
  let ?pre = "pre @ encode_event ev"
  let ?tail = "concat (map encode_event evs)"
  have ev: "whole ev" using Cons.prems(1) by simp
  have len: "u32_at (pre @ encode_event ev @ ?tail @ post) (int (length pre) + 12) = Inr (ev_len ev)"
    using u32_at_append [of 12 pre "encode_event ev @ ?tail @ post"] by (simp add: encode_words)
  have "int (length pre) + int EVENT_SIZE + uint (ev_len ev) = int (length ?pre)"
    using length_whole [OF ev] by simp
  moreover from this have "int (length pre) + int EVENT_SIZE + uint (ev_len ev) < 2 ^ 31"
    using Cons.prems(3) by simp
  ultimately have step: "next_index (int (length pre)) (ev_len ev) = int (length ?pre)"
    using next_index_small [of "int (length pre)" "ev_len ev"] by simp
  have "0 < length (encode_event ev)" using length_whole [OF ev] by (simp add: EVENT_SIZE_def)
  then have more: "int (length pre) < int (length pre + length (concat (map encode_event (ev # evs))))"
    unfolding of_nat_less_iff by simp
  have rest: "triple (J st') (old_loop m ed os sig (?pre @ ?tail @ post) (int (length ?pre))
      (int (length ?pre + length ?tail)) st') J E" for st'
    by (rule Cons.IH) (use Cons.prems n in auto)
  have "triple (J st) (bnd (old_handle ed os sig ev st) (\<lambda>st'. old_loop m ed os sig (?pre @ ?tail @ post)
      (int (length ?pre)) (int (length ?pre + length ?tail)) st')) J E"
    by (rule triple_bnd [OF _ rest]) (rule Cons.prems(4), simp)
  then show ?case
    using more old_event_encode [OF ev, of ed os sig pre "?tail @ post"] len
    by (simp add: n lift_res_def step add.assoc)
qed

section \<open>The rounds\<close>

text \<open>
  The state as the proofs follow it: the children, at least \<open>k\<close> looks at the flag, and no more than
  \<open>N\<close> of them while it was set (\<open>N\<close> is a look by which the signal has come).
\<close>

definition followed :: "nat \<Rightarrow> nat \<Rightarrow> int set \<Rightarrow> watched_program \<Rightarrow> bool" where
  "followed N k K p \<longleftrightarrow> kids (hist (machine p)) = K \<and> k \<le> looks p \<and> (gRunning p \<longrightarrow> looks p \<le> N)"

definition its_state :: "nat \<Rightarrow> nat \<Rightarrow> old_locals \<Rightarrow> watched_program \<Rightarrow> bool" where
  "its_state N k st p \<longleftrightarrow> (\<exists>K. its_program (progpid st) K \<and> followed N k K p)"

lemma triple_on_machine:
  assumes "triple (kids_are K) m (\<lambda>x s. R x (kids (hist s))) (\<lambda>e _. F e)"
  shows "triple (followed N k K) (on_machine m) (\<lambda>x p. \<exists>K'. R x K' \<and> followed N k K' p) (\<lambda>e _. F e)"
  using assms unfolding triple_def on_machine_def followed_def
  by (fastforce split: prod.splits res.splits)

lemma bnd_on_machine:
  assumes "triple (kids_are K) m (\<lambda>x s. R x (kids (hist s))) (\<lambda>e _. F e)"
    and "\<And>x K'. R x K' \<Longrightarrow> triple (followed N k K') (c x) Q (\<lambda>e _. F e)"
  shows "triple (followed N k K) (bnd (on_machine m) c) Q (\<lambda>e _. F e)"
proof (rule triple_bnd [OF triple_on_machine [OF assms(1)]])
  fix x
  have "triple (\<lambda>p. followed N k K' p \<and> R x K') (c x) Q (\<lambda>e _. F e)" for K'
    by (rule triple_pure) (rule assms(2))
  then have "triple (\<lambda>p. \<exists>K'. followed N k K' p \<and> R x K') (c x) Q (\<lambda>e _. F e)"
    by (rule triple_ex)
  then show "triple (\<lambda>p. \<exists>K'. R x K' \<and> followed N k K' p) (c x) Q (\<lambda>e _. F e)"
    by (rule triple_pre) auto
qed

lemma harmless_triple: "harmless m \<Longrightarrow> triple (kids_are K) m (\<lambda>_ s. kids (hist s) = K) (\<lambda>e _. F e)"
  unfolding triple_def harmless_def by (metis (mono_tags, lifting) case_prod_conv res.simps(5))

lemma bnd_on_harmless:
  assumes "harmless m" "\<And>x. triple (followed N k K) (c x) Q (\<lambda>e _. F e)"
  shows "triple (followed N k K) (bnd (on_machine m) c) Q (\<lambda>e _. F e)"
  by (rule bnd_on_machine [OF harmless_triple [OF assms(1)]]) (use assms(2) in simp)

lemma thn_on_harmless:
  assumes "harmless m" "triple (followed N k K) c Q (\<lambda>e _. F e)"
  shows "triple (followed N k K) (thn (on_machine m) c) Q (\<lambda>e _. F e)"
  unfolding thn_def by (rule bnd_on_harmless [OF assms(1)]) (rule assms(2))

lemma bnd_look:
  assumes "sig N"
    and "triple (\<lambda>p. followed N (Suc k) K p \<and> gRunning p) (c True) Q E"
    and "triple (\<lambda>p. followed N (Suc k) K p \<and> \<not> gRunning p) (c False) Q E"
  shows "triple (followed N k K) (bnd (look ed sig) c) Q E"
  unfolding triple_def
proof (intro allI impI)
  fix p assume p: "followed N k K p"
  obtain x s where w: "fprintf_stderr (ed_text ed Caught) (machine p) = (Val x, s)" "kids (hist s) = kids (hist (machine p))"
    using harmless_calls(3) unfolding harmless_def by blast
  define q where "q = (if sig (looks p) then p\<lparr>gRunning := False, machine := s\<rparr> else p)\<lparr>looks := looks p + 1\<rparr>"
  have look: "look ed sig p = (Val (gRunning q), q)"
    using w(1) by (simp add: look_def catch_int_def on_machine_def bnd_def thn_def gets_def modify_def ret_def q_def)
  have "looks p \<noteq> N" if "gRunning q" using that assms(1) by (auto simp: q_def split: if_splits)
  moreover have "gRunning q \<Longrightarrow> gRunning p" by (auto simp: q_def split: if_splits)
  moreover have "looks q = looks p + 1" "kids (hist (machine q)) = kids (hist (machine p))"
    using w(2) by (simp_all add: q_def)
  ultimately have q: "followed N (Suc k) K q" using p unfolding followed_def by fastforce
  have "case c (gRunning q) q of (Val x, t) \<Rightarrow> Q x t | (Stop e, t) \<Rightarrow> E e t"
    using q assms(2,3) by (cases "gRunning q") (simp_all add: triple_def)
  then show "case bnd (look ed sig) c p of (Val x, t) \<Rightarrow> Q x t | (Stop e, t) \<Rightarrow> E e t"
    by (simp add: run_simps look)
qed

lemma triple_later:
  "triple (followed N k K) c Q E \<Longrightarrow> triple (\<lambda>p. followed N (Suc k) K p \<and> b p) c Q E"
  by (erule triple_pre) (simp add: followed_def)

lemma triple_old_modified:
  assumes "posix os" "kids_killable os" "sig N" "its_program (progpid st) K" "no_pid ed"
  shows "triple (followed N k K) (old_modified ed os sig name st) (its_state N k) (\<lambda>e _. old_failure ed os e)"
proof -
  have stay: "triple (followed N k K) (ret st') (its_state N k) (\<lambda>e _. old_failure ed os e)"
    if "progpid st' = progpid st" for st'
    using that assms(4) by (intro triple_ret) (auto simp: its_state_def)
  have start: "triple (followed N k {}) (bnd (on_machine (new_program ed os)) (\<lambda>pid. ret (st'\<lparr>progpid := pid\<rparr>)))
      (its_state N k) (\<lambda>e _. old_failure ed os e)" for st'
    by (rule bnd_on_machine [OF triple_new_program [OF assms(1,5)]])
       (auto intro!: triple_ret simp: its_state_def)
  have stay0: "triple (followed N k {}) (ret st') (its_state N k) (\<lambda>e _. old_failure ed os e)" for st'
    by (intro triple_ret) (auto simp: its_state_def its_program_def intro!: exI [of _ "{}"])
  have swap: "triple (followed N k K) (bnd (on_machine (killprog ed os (progpid st'))) (\<lambda>killed.
      if killed \<noteq> 0 then bnd (on_machine (new_program ed os)) (\<lambda>pid. ret (st'\<lparr>progpid := pid\<rparr>))
      else ret st')) (its_state N k) (\<lambda>e _. old_failure ed os e)" if "progpid st' = progpid st" for st'
    by (rule bnd_on_machine [where R = "\<lambda>_ K'. K' = {}", OF triple_killprog [OF assms(1,2)]])
       (use that assms(4) start stay0 in auto)
  have timed: "triple (followed N k K) (bnd (on_machine (sys_time os)) (\<lambda>now.
      bnd (on_machine (killprog ed os (progpid (st\<lparr>timer := now\<rparr>)))) (\<lambda>killed.
      if killed \<noteq> 0 then bnd (on_machine (new_program ed os)) (\<lambda>pid. ret (st\<lparr>timer := now, progpid := pid\<rparr>))
      else ret (st\<lparr>timer := now\<rparr>)))) (its_state N k) (\<lambda>e _. old_failure ed os e)"
    by (rule bnd_on_harmless [OF harmless_calls(5)]) (rule swap, simp)
  have rebuilt: "triple (followed N k K) (bnd (on_machine (old_rebuild ed os)) (\<lambda>failed.
      if failed = 0 then bnd (on_machine (sys_time os)) (\<lambda>now.
        let st = st\<lparr>timer := now\<rparr> in
        bnd (on_machine (killprog ed os (progpid st))) (\<lambda>killed.
        if killed \<noteq> 0 then bnd (on_machine (new_program ed os)) (\<lambda>pid. ret (st\<lparr>progpid := pid\<rparr>))
        else ret st))
      else ret st)) (its_state N k) (\<lambda>e _. old_failure ed os e)"
  proof (rule bnd_on_machine)
    show "triple (kids_are K) (old_rebuild ed os) (\<lambda>_ s. kids (hist s) = K) (\<lambda>e _. old_failure ed os e)"
      by (rule triple_conseq [OF triple_old_rebuild [OF assms(1)]]) (auto simp: old_failure_def)
  qed (use timed stay in \<open>simp add: Let_def\<close>)
  show ?thesis
    unfolding old_modified_def Let_def
    by (intro thn_on_harmless bnd_on_harmless harmless_calls triple_if stay refl
         bnd_look [where sig = sig, OF assms(3)])
       (auto intro!: triple_later stay rebuilt [unfolded Let_def])
qed

lemma triple_its_state:
  assumes "\<And>K. its_program (progpid st) K \<Longrightarrow> triple (followed N k K) m Q E"
  shows "triple (its_state N k st) m Q E"
proof -
  have "triple (\<lambda>p. followed N k K p \<and> its_program (progpid st) K) m Q E" for K
    by (rule triple_pure) (rule assms)
  then have "triple (\<lambda>p. \<exists>K. followed N k K p \<and> its_program (progpid st) K) m Q E"
    by (rule triple_ex)
  then show ?thesis by (rule triple_pre) (auto simp: its_state_def)
qed

lemma triple_old_handle:
  assumes "posix os" "kids_killable os" "sig N" "no_pid ed"
  shows "triple (its_state N k st) (old_handle ed os sig ev st) (its_state N k) (\<lambda>e _. old_failure ed os e)"
proof -
  have "triple (its_state N k st) (old_modified ed os sig name st) (its_state N k) (\<lambda>e _. old_failure ed os e)" for name
    by (rule triple_its_state) (rule triple_old_modified [where sig = sig and N = N, OF assms(1-3) _ assms(4)])
  then show ?thesis by (simp add: old_handle_def triple_ret)
qed

lemma triple_read_whole:
  assumes "inotify_whole os"
  shows "triple (kids_are K) (sys_read os fd EVENT_BUF_LEN)
    (\<lambda>x s. kids (hist s) = K \<and> whole_events (fst x) (snd x)) E"
  unfolding triple_def
proof (intro allI impI)
  fix s :: sys assume "kids (hist s) = K"
  moreover obtain r e bs where r: "os_read os (hist s) fd EVENT_BUF_LEN = (r, e, bs)" by (metis prod_cases3)
  moreover from assms r have "whole_events r bs" unfolding inotify_whole_def by blast
  ultimately show "case sys_read os fd EVENT_BUF_LEN s of
      (Val x, s) \<Rightarrow> kids (hist s) = K \<and> whole_events (fst x) (snd x) | (Stop e, t) \<Rightarrow> E e t"
    by (simp add: sys_read_def sys_call_def bnd_def ret_def Let_def kids_snoc)
qed

lemma triple_old_read_loop:
  assumes "posix os" "kids_killable os" "sig N" "whole_events got bs" "no_pid ed"
  shows "triple (its_state N k st) (old_loop EVENT_FUEL ed os sig (store_bytes bs buffer) 0 got st)
    (its_state N k) (\<lambda>e _. old_failure ed os e)"
proof -
  consider "got \<le> 0" | evs where "\<forall>ev \<in> set evs. whole ev" "bs = concat (map encode_event evs)"
      "got = int (length bs)" "length bs \<le> EVENT_BUF_LEN"
    using assms(4) unfolding whole_events_def by blast
  then show ?thesis
  proof cases
    case 1
    then show ?thesis by (simp add: EVENT_FUEL_def triple_ret)
  next
    case 2
    have "EVENT_SIZE * length evs \<le> length bs"
      unfolding 2(2) using 2(1) by (induction evs) (auto simp: length_whole)
    then have fuel: "length evs < EVENT_FUEL"
      using 2(4) by (simp add: EVENT_FUEL_def EVENT_SIZE_def EVENT_BUF_LEN_def)
    have small: "length ([] :: byte list) + length (concat (map encode_event evs)) < 2 ^ 31"
      using 2(2,4) by (simp add: EVENT_SIZE_def EVENT_BUF_LEN_def)
    have "triple (its_state N k st) (old_loop EVENT_FUEL ed os sig
        ([] @ concat (map encode_event evs) @ drop (length bs) buffer) (int (length ([] :: byte list)))
        (int (length ([] :: byte list) + length (concat (map encode_event evs)))) st)
      (its_state N k) (\<lambda>e _. old_failure ed os e)"
      by (rule triple_old_loop [OF 2(1) fuel small]) (rule triple_old_handle [OF assms(1,2), of sig N, OF assms(3,5)])
    then show ?thesis using 2(2,3) by (simp add: store_bytes_def)
  qed
qed

lemma triple_old_round:
  assumes "posix os" "kids_killable os" "inotify_whole os" "sig N" "no_pid ed" "its_program (progpid st) K"
  shows "triple (followed N k K) (old_round ed os sig fd buffer st) (\<lambda>x. its_state N k (snd x)) (\<lambda>e _. old_failure ed os e)"
  unfolding old_round_def
proof (rule bnd_on_machine [where R = "\<lambda>x K'. K' = K \<and> whole_events (fst x) (snd x)",
      OF triple_read_whole [OF assms(3)]])
  fix x :: "int \<times> byte list" and K' assume x: "K' = K \<and> whole_events (fst x) (snd x)"
  obtain got bs where gb: "x = (got, bs)" by (cases x)
  let ?loop = "bnd (old_loop EVENT_FUEL ed os sig (store_bytes bs buffer) 0 got st) (\<lambda>st. ret (store_bytes bs buffer, st))"
  have "triple (its_state N k st) ?loop (\<lambda>x. its_state N k (snd x)) (\<lambda>e _. old_failure ed os e)"
    using x gb by (intro triple_bnd [OF triple_old_read_loop [OF assms(1,2), of sig N, OF assms(4) _ assms(5)]] triple_ret) simp_all
  then have "triple (followed N k K) ?loop (\<lambda>x. its_state N k (snd x)) (\<lambda>e _. old_failure ed os e)"
    by (rule triple_pre) (use assms(6) in \<open>auto simp: its_state_def\<close>)
  then show "triple (followed N k K') (case x of (got, bytes) \<Rightarrow>
      let buffer = store_bytes bytes buffer in
      thn (if got \<le> 0 then on_machine (perror os ''read'') else ret ())
     (bnd (old_loop EVENT_FUEL ed os sig buffer 0 got st) (\<lambda>st. ret (buffer, st))))
    (\<lambda>x. its_state N k (snd x)) (\<lambda>e _. old_failure ed os e)"
    using x by (cases "got \<le> 0") (simp_all add: gb Let_def thn_on_harmless harmless_calls)
qed

lemma triple_old_rounds:
  assumes "posix os" "kids_killable os" "inotify_whole os" "sig N" "no_pid ed" "N < k + n" "0 < n"
  shows "triple (its_state N k st) (old_rounds n ed os sig fd buffer st)
    (\<lambda>st p. its_state N 0 st p \<and> \<not> gRunning p) (\<lambda>e _. old_failure ed os e)"
  using assms(6,7)
proof (induction n arbitrary: k buffer st)
  case (Suc n)
  let ?Q = "\<lambda>st p. its_state N 0 st p \<and> \<not> gRunning p"
  show ?case
    unfolding old_rounds.simps
  proof (rule triple_its_state, rule bnd_look [where sig = sig, OF assms(4)])
    fix K assume K: "its_program (progpid st) K"
    let ?more = "bnd (old_round ed os sig fd buffer st) (\<lambda>(buffer, st). old_rounds n ed os sig fd buffer st)"
    show "triple (\<lambda>p. followed N (Suc k) K p \<and> gRunning p) (if True then ?more else ret st) ?Q
        (\<lambda>e _. old_failure ed os e)"
    proof (cases "Suc k \<le> N")
      case True
      with Suc.prems have "N < Suc k + n" "0 < n" by simp_all
      note next_round = Suc.IH [OF this]
      have "triple (followed N (Suc k) K) ?more ?Q (\<lambda>e _. old_failure ed os e)"
        by (rule triple_bnd [OF triple_old_round [OF assms(1-3), of sig N, OF assms(4,5) K]])
           (simp add: next_round split: prod.split)
      then show ?thesis by (auto intro: triple_pre)
    next
      case False
      then have "\<not> (followed N (Suc k) K p \<and> gRunning p)" for p by (auto simp: followed_def)
      then show ?thesis unfolding triple_def if_True by blast
    qed
    show "triple (\<lambda>p. followed N (Suc k) K p \<and> \<not> gRunning p) (if False then ?more else ret st) ?Q
        (\<lambda>e _. old_failure ed os e)"
      using K by (auto intro!: triple_ret simp: its_state_def followed_def)
  qed
qed simp

lemma bnd_getcwd_kids:
  assumes "\<And>cwd. (cwd = None \<Longrightarrow> \<exists>h err. os_getcwd os h = Inl err) \<Longrightarrow> triple (kids_are K) (k cwd) Q E"
  shows "triple (kids_are K) (bnd (sys_getcwd os) k) Q E"
proof -
  have "triple (kids_are K) (sys_getcwd os) (\<lambda>cwd s. kids (hist s) = K \<and>
      (cwd = None \<longrightarrow> (\<exists>h err. os_getcwd os h = Inl err))) E"
    by (auto simp: triple_def sys_getcwd_def sys_call_def bnd_def ret_def Let_def kids_snoc split: sum.splits)
  then show ?thesis by (rule triple_bnd) (rule triple_pure, rule assms, blast)
qed

lemma triple_old_watch_cwd:
  "triple (kids_are K) (old_watch_cwd ed os) (\<lambda>_. kids_are K) (\<lambda>e _. old_failure ed os e)"
  unfolding old_watch_cwd_def
proof (rule bnd_getcwd_kids)
  fix cwd :: "string option" assume cwd: "cwd = None \<Longrightarrow> \<exists>h err. os_getcwd os h = Inl err"
  have d: "triple (kids_are K) (bnd (deref cwd) (\<lambda>d. bnd (sys_add_watch os fd d) (\<lambda>wd. ret (fd, wd))))
    (\<lambda>_. kids_are K) (\<lambda>e _. old_failure ed os e)" for fd
    using cwd by (cases cwd)
      (auto simp: deref_def old_failure_def intro!: bnd_harmless harmless_calls triple_ret triple_halt)
  have msg: "harmless (case cwd of
          Some d \<Rightarrow> printf (ed_text ed (Working_dir d))
        | None \<Rightarrow> perror os ''getcwd'')"
    by (cases cwd) (simp_all only: option.case harmless_calls)
  show "triple (kids_are K) (thn (case cwd of
          Some d \<Rightarrow> printf (ed_text ed (Working_dir d))
        | None \<Rightarrow> perror os ''getcwd'')
    (bnd (sys_inotify_init os) (\<lambda>fd.
     thn (if fd < 0 then perror os ''inotify_init'' else ret ())
    (bnd (deref cwd) (\<lambda>d. bnd (sys_add_watch os fd d) (\<lambda>wd. ret (fd, wd)))))))
    (\<lambda>_. kids_are K) (\<lambda>e _. old_failure ed os e)"
    by (rule thn_harmless [OF msg], rule bnd_harmless [OF harmless_calls(7)], rule thn_harmless [OF _ d])
       (simp add: harmless_calls harmless_ret)
qed

lemma triple_old_setup:
  assumes "posix os" "no_pid ed"
  shows "triple (kids_are {}) (old_setup ed os) (\<lambda>x s. its_program (progpid (snd (snd x))) (kids (hist s)))
    (\<lambda>e _. old_failure ed os e)"
proof -
  have "triple (kids_are K) (bnd (old_watch_cwd ed os) (\<lambda>(fd, wd). ret (fd, wd, \<lparr>timer = now - 15, progpid = pid\<rparr>)))
    (\<lambda>x s. its_program (progpid (snd (snd x))) (kids (hist s))) (\<lambda>e _. old_failure ed os e)"
    if "its_program pid K" for pid now K
    by (rule triple_bnd [OF triple_old_watch_cwd]) (use that in \<open>auto intro: triple_ret\<close>)
  then have rest: "triple (\<lambda>s. its_program pid (kids (hist s)))
    (bnd (old_watch_cwd ed os) (\<lambda>(fd, wd). ret (fd, wd, \<lparr>timer = now - 15, progpid = pid\<rparr>)))
    (\<lambda>x s. its_program (progpid (snd (snd x))) (kids (hist s))) (\<lambda>e _. old_failure ed os e)" for pid now
    by (auto simp: triple_def)
  show ?thesis
    unfolding old_setup_def
    by (rule bnd_harmless [OF harmless_calls(5)]) (rule triple_bnd [OF triple_new_program [OF assms] rest])
qed

lemma triple_clean_up:
  assumes "posix os" "kids_killable os"
  shows "triple (\<lambda>p. its_state N 0 st p \<and> \<not> gRunning p) (on_machine (old_clean_up ed os fd wd st))
    (\<lambda>_ q. \<not> gRunning q \<and> kids (hist (machine q)) = {}) (\<lambda>e _. old_failure ed os e)"
proof -
  have clean: "triple (kids_are K) (old_clean_up ed os fd wd st) (\<lambda>_. kids_are {}) (\<lambda>e _. old_failure ed os e)"
    if "its_program (progpid st) K" for K
    unfolding old_clean_up_def
    by (rule triple_bnd [OF triple_killprog [OF assms that]])
       (intro thn_harmless harmless_triple harmless_calls)
  show ?thesis
  proof (rule tripleI)
    fix p :: watched_program and x q
    assume p: "its_state N 0 st p \<and> \<not> gRunning p" "on_machine (old_clean_up ed os fd wd st) p = (Val x, q)"
    then obtain t where "old_clean_up ed os fd wd st (machine p) = (Val x, t)" "q = p\<lparr>machine := t\<rparr>"
      by (auto simp: on_machine_def split: prod.splits)
    with p(1) show "\<not> gRunning q \<and> kids (hist (machine q)) = {}"
      by (auto simp: its_state_def followed_def dest: triple_Val [OF clean])
  next
    fix p :: watched_program and e q
    assume p: "its_state N 0 st p \<and> \<not> gRunning p" "on_machine (old_clean_up ed os fd wd st) p = (Stop e, q)"
    then obtain t where "old_clean_up ed os fd wd st (machine p) = (Stop e, t)"
      by (auto simp: on_machine_def split: prod.splits)
    with p(1) show "old_failure ed os e"
      by (auto simp: its_state_def followed_def dest: triple_Stop [OF clean])
  qed
qed

lemma triple_old_watcher:
  assumes "posix os" "kids_killable os" "inotify_whole os" "sig N" "no_pid ed"
  shows "triple (followed N 0 {}) (old_watcher (Suc N) ed os sig)
    (\<lambda>_ q. \<not> gRunning q \<and> kids (hist (machine q)) = {}) (\<lambda>e _. old_failure ed os e)"
  unfolding old_watcher_def
proof (rule bnd_on_machine [where R = "\<lambda>x. its_program (progpid (snd (snd x)))",
      OF triple_old_setup [OF assms(1,5)]])
  fix x :: "int \<times> int \<times> old_locals" and K' assume K': "its_program (progpid (snd (snd x))) K'"
  obtain fd wd st where x: "x = (fd, wd, st)" by (cases x) auto
  have "triple (its_state N 0 st) (bnd (old_rounds (Suc N) ed os sig fd [] st) (\<lambda>st.
      on_machine (old_clean_up ed os fd wd st)))
    (\<lambda>_ q. \<not> gRunning q \<and> kids (hist (machine q)) = {}) (\<lambda>e _. old_failure ed os e)"
    by (rule triple_bnd [OF triple_old_rounds [OF assms(1-3), of sig N, OF assms(4,5)] triple_clean_up [OF assms(1,2)]])
       simp_all
  then show "triple (followed N 0 K') (case x of (fd, wd, st) \<Rightarrow>
      bnd (old_rounds (Suc N) ed os sig fd [] st) (\<lambda>st. on_machine (old_clean_up ed os fd wd st)))
    (\<lambda>_ q. \<not> gRunning q \<and> kids (hist (machine q)) = {}) (\<lambda>e _. old_failure ed os e)"
    unfolding x prod.case by (rule triple_pre) (use K' x in \<open>auto simp: its_state_def\<close>)
qed

lemma editions_no_pid: "ed \<in> {oldwatcher, disabled_copy} \<Longrightarrow> no_pid ed"
  by (auto simp: no_pid_def oldwatcher_def disabled_copy_def)

lemma editions_unforked: "ed \<in> {oldwatcher, disabled_copy} \<Longrightarrow> ed_unforked ed = None \<longleftrightarrow> ed = oldwatcher"
  by (auto simp: oldwatcher_def disabled_copy_def)


section \<open>The prototype run\<close>

definition old_start :: watched_program where
  "old_start = \<lparr>gRunning = True, machine = sys0, looks = 0\<rparr>"

lemma demo_killable: "kids_killable (demo_os stat)"
  by (simp add: kids_killable_def demo_os_def)

lemma demo_whole: "inotify_whole (demo_os stat)"
  by (simp add: inotify_whole_def whole_events_def demo_os_def)

lemma old_start_returns: "fst (old_main 1 oldwatcher (demo_os (\<lambda>p. 0)) (\<lambda>k. True) old_start) = Val 0"
  by code_simp


theorem runprog_falls_through_witness:
  "\<exists>t. runprog oldwatcher ((demo_os (\<lambda>p. 0))\<lparr>os_fork := \<lambda>h. (0, 0), os_exec := \<lambda>h b f v. Some 2\<rparr>) sys0 = (Val (Some 0), t) \<and>
     killprog oldwatcher ((demo_os (\<lambda>p. 0))\<lparr>os_fork := \<lambda>h. (0, 0), os_exec := \<lambda>h b f v. Some 2\<rparr>) 0 t = (Val 1, t)"
  by (rule runprog_falls_through) simp_all

end
