(* ===== verification/Scenario.thy ===== *)
theory Scenario
  imports Driver
begin

text \<open>
  A run of the program, for the witnesses of the theorems about it: it starts in a directory with the
  configuration of the test suite, a file is modified, the build step is run twice and the program
  started.
\<close>

section \<open>The system and the configuration\<close>

text \<open>The configuration of the test suite, in the example's directory, with a file to modify. If it
  is asked for, every blocking wait is cut short by a signal (4 is
  \<open>EINTR\<close>).\<close>

definition run_system :: "bool \<Rightarrow> os" where
  "run_system brk = (ready_os (encode_event demo_event))\<lparr>os_file := \<lambda>h f. Some [], os_time := \<lambda>h. 1000,
     os_waitpid := \<lambda>h p nohang. if brk \<and> \<not> nohang then (-1, 0, 4)
       else os_waitpid (ready_os (encode_event demo_event)) h p nohang\<rparr>"

abbreviation run_os :: os where
  "run_os \<equiv> run_system False"

abbreviation run_yaml :: "ynode yaml" where
  "run_yaml \<equiv> yaml_of (test_doc ''watch'')"

lemma run_posix: "posix run_os"
  using ready_posix [of "encode_event demo_event"]
  by (simp add: run_system_def posix_def posix_fork_def posix_wait_def posix_kill_def)

lemma run_named: "inotify_named (run_system brk)"
  using ready_named by (simp add: run_system_def inotify_named_def)

lemmas run_whole = inotify_named_whole [OF run_named]

text \<open>Nothing up to the first round depends on what a fork answers.\<close>

abbreviation forking :: "bool \<Rightarrow> (history \<Rightarrow> int \<times> int) \<Rightarrow> os" where
  "forking brk f \<equiv> (run_system brk)\<lparr>os_fork := f\<rparr>"

lemma run_new_Config:
  assumes "procs s = []" "argvs s = []"
  shows "\<exists>t. new_Config (forking brk f) StdoutLogger run_yaml new_ProcessManager s = (Val (test_config, test_manager), t) \<and>
    procs t = [Some (section_object 0), Some (section_object 2)] \<and>
    argvs t = [Some [''make''], Some [''make'', ''test''], Some [''./bin/program'', ''--help'']]"
proof -
  let ?s = "s\<lparr>hist := hist s @ [EOpen CONFIG_NAME True]\<rparr>"
  have "findConfig (forking brk f) s = (Val [], ?s)"
    by (simp add: findConfig_def sys_call_def bnd_def Let_def run_system_def ret_def)
  with read_test_doc [of ?s "forking brk f" StdoutLogger "[]"] assms show ?thesis
    by (simp add: new_Config_def bnd_Val)
qed

lemma run_complete: "complete_config run_yaml"
  by (simp add: complete_config_def document_test complete_test)

lemma run_fields:
  "os_inotify_init (run_system brk) h = (3, 0)" "os_getcwd (run_system brk) h = Inr ''/work''" "os_add_watch (run_system brk) h fd f = 1"
  by (simp_all add: run_system_def ready_os_def demo_os_def)

section \<open>The first round\<close>

text \<open>What the run's system answers, given what was done before.\<close>

lemma run_answers:
  "os_fork (run_system brk) h = (top_pid (doings h) + 1, 0)"
  "os_waitpid (run_system brk) h p nohang = (if brk \<and> \<not> nohang then (-1, 0, 4)
     else if p \<in> kids (doings h) then (if nohang then (0, 0, 0) else (p, 0, 0)) else (-1, 0, ECHILD))"
  "os_time (run_system brk) h = 1000"
  by (simp_all add: run_system_def ready_os_def demo_os_def kids_doings top_pid_doings)

definition just_started :: "int \<Rightarrow> history" where
  "just_started r = [EFork r, ESleep 10, EWait r True 0 0]"

definition built :: "bool \<Rightarrow> int \<Rightarrow> history" where
  "built brk r = [EFork r, ESleep 10, EWait r True 0 0, EWait r False (if brk then -1 else r) 0]"

lemma doings_of: "acts h = A \<Longrightarrow> doings h = doings A"
  by (metis doings_acts)

lemma run_build:
  assumes "slot P p = Some pr" "slot V (mCommand pr) = Some v" "v \<noteq> []" "r = top_pid (doings A) + 1"
  shows "triple (core_is A P V) (runAndWait (run_system brk) lg p)
    (\<lambda>ok s. core s = (A @ built brk r, P[p := Some (pr\<lparr>mProc := r\<rparr>)], V) \<and> ok) E"
proof -
  have r: "r \<noteq> -1" "r \<noteq> 0" "0 < r" using top_pid_ge [of "doings A"] assms(4) by simp_all
  have "triple (core_is A P V) (runAndWait (run_system brk) lg p)
    (\<lambda>ok s. ok = (\<not> (0 < (if brk then -1 else r) \<and> (0 :: int) \<noteq> 0)) \<and> core s = (A @ built brk r, P[p := Some (pr\<lparr>mProc := r\<rparr>)], V)) E"
    unfolding built_def
    by (rule triple_runAndWait_answers [OF assms(1-3), where e'' = "if brk then 4 else 0"])
       (use r assms(4) in \<open>auto simp: run_answers kids_append dest!: doings_of\<close>)
  then show ?thesis by (rule triple_post) simp
qed

lemma run_start:
  assumes "slot P p = Some pr" "slot V (mCommand pr) = Some v" "v \<noteq> []" "r = top_pid (doings A) + 1"
  shows "triple (core_is A P V) (run (run_system brk) lg p) (\<lambda>ok s. \<exists>P'. core s = (A @ just_started r, P', V)) E"
proof -
  have r: "r \<noteq> -1" "r \<noteq> 0" "0 < r" using top_pid_ge [of "doings A"] assms(4) by simp_all
  have "triple (core_is A P V) (run (run_system brk) lg p)
    (\<lambda>ok s. ok \<and> core s = (A @ just_started r, P[p := Some (pr\<lparr>mProc := r\<rparr>)], V)) E"
    unfolding just_started_def
    by (rule triple_run_answers [OF assms(1-3)])
       (use r assms(4) in \<open>auto simp: run_answers kids_append dest!: doings_of\<close>)
  then show ?thesis by (rule triple_post) auto
qed

lemma kill_nobody:
  "slot P p = Some pr \<Longrightarrow> mProc pr \<le> 1 \<Longrightarrow> triple (core_is A P V) (kill os lg p) (\<lambda>_. core_is A P V) E"
  unfolding kill_def by (rule bnd_get_proc, assumption) (simp add: triple_core_ret)

lemma run_restart:
  assumes b: "slot P 0 = Some pb" "slot V (mCommand pb) = Some v" "v \<noteq> []"
    and g: "slot P 1 = Some pg" "slot V (mCommand pg) = Some v'" "v' \<noteq> []" "mProc pg \<le> 1"
    and r: "r = top_pid (doings A) + 1"
  shows "triple (core_is A P V) (restartAll (run_system brk) lg test_manager)
    (\<lambda>_ s. \<exists>P'. core s = (A @ built brk r @ just_started (r + 1), P', V)) E"
proof -
  let ?P = "P[0 := Some (pb\<lparr>mProc := r\<rparr>)]"
  have g': "slot ?P 1 = Some pg" using g(1) by (simp add: slot_update)
  have "top_pid (doings (A @ built brk r)) = r"
    using top_pid_ge [of "doings A"] r by (simp add: built_def top_pid_append)
  then have nxt: "r + 1 = top_pid (doings (A @ built brk r)) + 1" by simp
  have build: "triple (core_is A P V) (runBuild (run_system brk) lg test_manager) (\<lambda>ok s. core s = (A @ built brk r, ?P, V) \<and> ok) E"
    unfolding runBuild_def
    by (simp add: test_manager_def deref_def, intro triple_bnd [OF run_build [OF b r]] triple_pure)
       (simp add: thn_LOG triple_core_ret)
  have launch: "triple (core_is (A @ built brk r) ?P V) (thn (haltProgram (run_system brk) lg test_manager) (startProgram (run_system brk) lg test_manager))
      (\<lambda>_ s. \<exists>P'. core s = (A @ built brk r @ just_started (r + 1), P', V)) E"
    unfolding haltProgram_def startProgram_def
    by (simp add: test_manager_def deref_def thn_assoc del: One_nat_def,
        intro triple_thn [OF kill_nobody [OF g' g(4)]] triple_thn [OF run_start [OF g' g(2,3) nxt]] triple_ret) simp
  have tests: "runProcesses (run_system brk) lg test_manager = ret True" "haltConstructionProcs (run_system brk) lg test_manager = ret ()"
    by (simp_all add: runProcesses_def haltConstructionProcs_def test_manager_def)
  show ?thesis
    unfolding restartAll_def tests thn_ret
    by (intro triple_bnd [OF build] triple_pure) (simp add: launch)
qed

lemma bnd_time_answer:
  "(\<And>h. os_time os h = n) \<Longrightarrow> triple (core_is A P V) (k n) Q E \<Longrightarrow> triple (core_is A P V) (bnd (sys_time os) k) Q E"
  by (rule triple_core_bndI [where R = "\<lambda>x c. x = n \<and> c = (A, P, V)"])
     (auto simp: sys_time_def sys_call_def Let_def core_def)

lemma run_filter:
  assumes b: "slot P 0 = Some pb" "slot V (mCommand pb) = Some v" "v \<noteq> []"
    and g: "slot P 1 = Some pg" "slot V (mCommand pg) = Some v'" "v' \<noteq> []" "mProc pg \<le> 1"
    and r: "r = top_pid (doings A) + 1"
    and w: "mBuilder w = Some 0" "mTimer w + 5 \<le> 1000" "length str < 2 ^ 64" "length (ev_name ev) < 2 ^ 64"
      "accepts str (ev_name ev)"
  shows "triple (core_is A P V) (on_filter (run_system brk) lg test_manager ev str w)
    (\<lambda>_ s. \<exists>P'. core s = (A @ built brk r @ built brk (r + 1) @ just_started (r + 2), P', V)) E"
proof -
  let ?P = "P[0 := Some (pb\<lparr>mProc := r\<rparr>)]"
  have b': "slot ?P 0 = Some (pb\<lparr>mProc := r\<rparr>)" "slot V (mCommand (pb\<lparr>mProc := r\<rparr>)) = Some v"
    using slot_length [OF b(1)] b(2) by (simp_all add: slot_update)
  have g': "slot ?P 1 = Some pg" using g(1) by (simp add: slot_update)
  have "top_pid (doings (A @ built brk r)) = r"
    using top_pid_ge [of "doings A"] r by (simp add: built_def top_pid_append)
  then have nxt: "r + 1 = top_pid (doings (A @ built brk r)) + 1" by simp
  have restart: "triple (core_is (A @ built brk r) ?P V) (thn (restartProgram (run_system brk) lg test_manager) (ret w'))
      (\<lambda>_ s. \<exists>P'. core s = (A @ built brk r @ built brk (r + 1) @ just_started (r + 2), P', V)) E" for w'
    unfolding restartProgram_def restartProcesses_def
    by (intro triple_thn [OF run_restart [OF b' b(3) g' g(2-4) nxt]] triple_ret) (simp add: add.assoc)
  have build: "triple (core_is A P V) (rebuild (run_system brk) lg w) (\<lambda>ok s. core s = (A @ built brk r, ?P, V) \<and> ok) E"
    unfolding rebuild_def
    by (simp add: w(1) deref_def, intro triple_bnd [OF run_build [OF b r]] triple_pure)
       (simp add: thn_LOG triple_core_ret)
  have due: "os_mktime (run_system brk) ((os_localtime (run_system brk) (mTimer w))\<lparr>tm_sec := tm_sec (os_localtime (run_system brk) (mTimer w)) + 5\<rparr>) \<le> 1000"
    using w(2) by (simp add: run_system_def ready_os_def demo_os_def)
  show ?thesis
    unfolding on_filter_def Let_def
    by (intro bnd_lift_strMatch w(3,4), unfold if_P [OF w(5)],
        intro thn_LOG modified_text_ok bnd_time_answer [OF run_answers(3)], unfold if_P [OF due],
        intro triple_bnd [OF build] triple_pure)
       (simp add: thn_LOG bnd_time_answer [OF run_answers(3)] restart)
qed

lemma run_other_filter:
  assumes "length str < 2 ^ 64" "length (ev_name ev) < 2 ^ 64" "\<not> accepts str (ev_name ev)"
  shows "on_filter os lg pm ev str w = ret w"
  using assms by (simp add: on_filter_def strMatch_accepts lift_res_def)

text \<open>The event that the system reports, and the first filter, which accepts it.\<close>

lemma demo_modified:
  "accepts ''*.cpp'' (ev_name demo_event)" "length (ev_name demo_event) < 2 ^ 64"
  "ev_len demo_event \<noteq> 0 \<and> ev_mask demo_event AND IN_MODIFY \<noteq> 0 \<and> \<not> ev_mask demo_event AND IN_ISDIR \<noteq> 0"
  by code_simp (simp_all add: demo_event_def IN_MODIFY_def IN_ISDIR_def)

lemma test_filters:
  "filters (getWatchConfig test_config) = ''*.cpp'' # [''*.hpp'', ''*.c'', ''*.h'', ''include/*.hxx'']"
  by (simp add: test_config_def test_watch_def getWatchConfig_def)

lemma run_event:
  assumes b: "slot P 0 = Some pb" "slot V (mCommand pb) = Some v" "v \<noteq> []"
    and g: "slot P 1 = Some pg" "slot V (mCommand pg) = Some v'" "v' \<noteq> []" "mProc pg \<le> 1"
    and r: "r = top_pid (doings A) + 1" and w: "mBuilder w = Some 0" "mTimer w + 5 \<le> 1000"
  shows "triple (core_is A P V) (on_event (run_system brk) lg test_config test_manager demo_event w)
    (\<lambda>_ s. \<exists>P'. core s = (A @ built brk r @ built brk (r + 1) @ just_started (r + 2), P', V)) E"
proof -
  have no: "\<not> accepts ''*.hpp'' (ev_name demo_event)" "\<not> accepts ''*.c'' (ev_name demo_event)"
      "\<not> accepts ''*.h'' (ev_name demo_event)" "\<not> accepts ''include/*.hxx'' (ev_name demo_event)"
    by code_simp+
  note yes = demo_modified(1) and len = demo_modified(2) and it = demo_modified(3)
  have rest: "for_acc (on_filter (run_system brk) lg test_manager demo_event) [''*.hpp'', ''*.c'', ''*.h'', ''include/*.hxx''] v = ret v" for v
    using run_other_filter [OF _ len no(1)] run_other_filter [OF _ len no(2)] run_other_filter [OF _ len no(3)]
      run_other_filter [OF _ len no(4)] by simp
  have "for_acc (on_filter (run_system brk) lg test_manager demo_event) (filters (getWatchConfig test_config)) w =
      bnd (on_filter (run_system brk) lg test_manager demo_event ''*.cpp'' w) ret"
    unfolding test_filters by (subst for_acc.simps(2), rule bnd_cong_result, rule rest)
  moreover have "triple (core_is A P V) (bnd (on_filter (run_system brk) lg test_manager demo_event ''*.cpp'' w) ret)
      (\<lambda>_ s. \<exists>P'. core s = (A @ built brk r @ built brk (r + 1) @ just_started (r + 2), P', V)) E"
    by (rule triple_bnd [OF run_filter [OF b g r w _ len yes]]) (simp_all add: triple_ret)
  ultimately show ?thesis
    unfolding on_event_def if_P [OF it] by (intro thn_LOG event_text_ok) simp
qed

lemma forking_begins:
  "\<exists>t. start_up 2 (forking brk f) run_yaml sys0 = (Val (test_config, test_manager, demo_watcher 985), t) \<and>
     procs t = [Some (section_object 0), Some (section_object 2)] \<and>
     argvs t = [Some [''make''], Some [''make'', ''test''], Some [''./bin/program'', ''--help'']]"
proof -
  obtain t where t: "new_Config (forking brk f) StdoutLogger run_yaml new_ProcessManager sys0 = (Val (test_config, test_manager), t)"
      "procs t = [Some (section_object 0), Some (section_object 2)]"
      "argvs t = [Some [''make''], Some [''make'', ''test''], Some [''./bin/program'', ''--help'']]"
    using run_new_Config [where s = sys0 and f = f and brk = brk] by (auto simp: sys0_def)
  have ls: "\<exists>u. listDir (forking brk f) ''/work'' DIRECTORY s = (Val [''.'', ''..''], u)" for s
    using listDir_static [of "forking brk f" "os_lstat (run_system brk) []" "os_dir (run_system brk) []" "''/work''" "[''.'', ''..'']" s]
    by (simp add: static_fs_def run_system_def ready_os_def demo_os_def cstr_def)
  define walked where "walked fds s = snd (recursiveWatch 2 (forking brk f) 3 ''/work'' fds s)" for fds s
  have "\<exists>u. recursiveWatch 2 (forking brk f) 3 ''/work'' fds s = (Val fds, u)" for fds s
    using ls [of s] by (auto simp: numeral_2_eq_2 bnd_def ret_def)
  then have walk: "recursiveWatch 2 (forking brk f) 3 ''/work'' fds s = (Val fds, walked fds s)" for fds s
    by (metis walked_def snd_conv)
  have "\<exists>u. new_Watcher 2 (forking brk f) ''./'' test_manager True s = (Val (demo_watcher 985), u)" for s
    by (simp add: new_Watcher_def watchDirectory_def seq_run sys_time_def sys_call_def Let_def sys_inotify_init_def
        cwd_def sys_getcwd_def sys_add_watch_def run_fields run_answers(3) ret_run cstr_def walk demo_watcher_def
        getBuildStep_def test_manager_def)
  then obtain u where u: "new_Watcher 2 (forking brk f) ''./'' test_manager True t = (Val (demo_watcher 985), u)" by blast
  have "procs u = procs t" "argvs u = argvs t" by (rule calmD [OF calm_new_Watcher u], simp)+
  with t u show ?thesis by (simp add: start_up_def seq_run ret_run)
qed

lemmas run_begins = forking_begins [where f = "os_fork (run_system brk)" and brk = brk, simplified] for brk

text \<open>The round after the start hands that event to the watcher.\<close>

lemma forking_listens:
  "listen (forking brk f) StdoutLogger test_config test_manager (demo_watcher 985) s =
     thn (LOG (forking brk f) StdoutLogger DEBUG ''Event buffer size: %d'' [PInt 32])
       (for_acc (on_event (forking brk f) StdoutLogger test_config test_manager) [demo_event]
          ((demo_watcher 985)\<lparr>mBuffer := encode_event demo_event\<rparr>))
       (s\<lparr>hist := hist s @ [ESelect 3 1, ERead 3 32]\<rparr>)"
  using listen_run [of "forking brk f" s "demo_watcher 985" 0 "[demo_event]" 0 StdoutLogger test_config test_manager]
  by (simp add: named_demo demo_bytes run_system_def ready_os_def EVENT_BUF_LEN_def EVENT_SIZE_def demo_watcher_def
      store_bytes_def del: for_acc.simps)

lemmas run_listens = forking_listens [where f = "os_fork (run_system brk)" and brk = brk, simplified] for brk

text \<open>What the round after the start does: build twice, as 101 and 102, and start the program as 103.\<close>

definition run_doings :: "bool \<Rightarrow> history" where
  "run_doings brk = [EFork 101, EWait 101 True 0 0, EWait 101 False (if brk then -1 else 101) 0,
     EFork 102, EWait 102 True 0 0, EWait 102 False (if brk then -1 else 102) 0, EFork 103, EWait 103 True 0 0]"

lemma run_round:
  assumes "start_up 2 (run_system brk) run_yaml sys0 = (Val (test_config, test_manager, demo_watcher 985), s)"
    and "procs s = [Some (section_object 0), Some (section_object 2)]"
    and "argvs s = [Some [''make''], Some [''make'', ''test''], Some [''./bin/program'', ''--help'']]"
  shows "\<exists>w t. listen (run_system brk) StdoutLogger test_config test_manager (demo_watcher 985) s = (Val w, t) \<and> doings (hist t) = run_doings brk"
proof -
  have none: "doings (hist s) = []" using start_up_fresh(1) [OF _ _ assms(1)] by (simp add: sys0_def)
  let ?s = "s\<lparr>hist := hist s @ [ESelect 3 1, ERead 3 32]\<rparr>"
  let ?w = "(demo_watcher 985)\<lparr>mBuffer := encode_event demo_event\<rparr>"
  let ?A = "acts (hist ?s)"
  have A: "101 = top_pid (doings ?A) + 1" using none by simp
  have heap: "slot (procs ?s) 0 = Some (section_object 0)" "slot (argvs ?s) (mCommand (section_object 0)) = Some [''make'']"
      "slot (procs ?s) 1 = Some (section_object 2)"
      "slot (argvs ?s) (mCommand (section_object 2)) = Some [''./bin/program'', ''--help'']"
    using assms(2,3) by (simp_all add: slot_def)
  have tr: "triple (core_is ?A (procs ?s) (argvs ?s)) (thn (LOG (run_system brk) StdoutLogger DEBUG ''Event buffer size: %d'' [PInt 32])
        (bnd (on_event (run_system brk) StdoutLogger test_config test_manager demo_event ?w) ret))
      (\<lambda>_ t. \<exists>P'. core t = (?A @ built brk 101 @ built brk (101 + 1) @ just_started (101 + 2), P', argvs ?s)) (\<lambda>_ _. False)"
    by (intro thn_LOG triple_bnd [OF run_event [OF heap(1,2) _ heap(3,4) _ _ A]] triple_ret)
       (simp_all add: demo_watcher_def)
  have end_state: "doings (hist t) = run_doings brk" if "acts (hist t) = ?A @ built brk 101 @ built brk (101 + 1) @ just_started (101 + 2)" for t :: sys
    using doings_of [OF that] none by (simp add: built_def just_started_def run_doings_def)
  obtain x t where x: "listen (run_system brk) StdoutLogger test_config test_manager (demo_watcher 985) s = (x, t)"
    by (cases "listen (run_system brk) StdoutLogger test_config test_manager (demo_watcher 985) s")
  from triple_runD [OF tr] x obtain w where "x = Val w" "acts (hist t) = ?A @ built brk 101 @ built brk (101 + 1) @ just_started (101 + 2)"
    unfolding run_listens for_acc.simps by (cases x) (auto simp: core_def ret_def [abs_def])
  with x end_state show ?thesis by blast
qed

lemma run_reaches:
  "\<exists>w p. reachable 2 run_os run_yaml (Looping test_config test_manager w, p)"
proof -
  obtain w t where "start_up 2 run_os run_yaml sys0 = (Val (test_config, test_manager, w), t)"
    using run_begins by blast
  then have "main_step 2 run_os run_yaml main_init
      (Looping test_config test_manager w, \<lparr>gRunning = True, machine = sys0\<rparr>\<lparr>machine := t\<rparr>)"
    unfolding main_init_def by (intro started) simp
  from reach_step [OF reach_init this] show ?thesis by blast
qed

lemma run_reacts:
  "\<exists>w p. reachable 2 (run_system brk) run_yaml (Looping test_config test_manager w, p) \<and> doings (hist (machine p)) = run_doings brk"
proof -
  obtain s where s: "start_up 2 (run_system brk) run_yaml sys0 = (Val (test_config, test_manager, demo_watcher 985), s)"
    and heap: "procs s = [Some (section_object 0), Some (section_object 2)]"
      "argvs s = [Some [''make''], Some [''make'', ''test''], Some [''./bin/program'', ''--help'']]"
    using run_begins by blast
  let ?p = "\<lparr>gRunning = True, machine = sys0\<rparr>\<lparr>machine := s\<rparr>"
  have "reachable 2 (run_system brk) run_yaml (Looping test_config test_manager (demo_watcher 985), ?p)"
    by (rule reach_step [OF reach_init]) (unfold main_init_def, rule started, simp add: s)
  moreover obtain w t where t: "listen (run_system brk) StdoutLogger test_config test_manager (demo_watcher 985) s = (Val w, t)"
      "doings (hist t) = run_doings brk"
    using run_round [OF s heap] by blast
  have "main_step 2 (run_system brk) run_yaml (Looping test_config test_manager (demo_watcher 985), ?p)
      (Looping test_config test_manager w, ?p\<lparr>machine := t\<rparr>)"
    by (rule round) (simp_all add: program_is_running_def t(1))
  ultimately have "reachable 2 (run_system brk) run_yaml (Looping test_config test_manager w, ?p\<lparr>machine := t\<rparr>)"
    by (rule reach_step)
  with t(2) show ?thesis by (intro exI) (rule conjI, assumption, simp)
qed

section \<open>Witnesses\<close>




theorem finished_clean_witness:
  "\<exists>p. reachable 2 run_os run_yaml (Finished 0, p) \<and> kids (hist (machine p)) = {}"
proof -
  obtain w p where r: "reachable 2 run_os run_yaml (Looping test_config test_manager w, p)"
    using run_reaches by blast
  have i: "reachable 2 run_os run_yaml (Looping test_config test_manager w, signal_catch_int p)"
    by (rule reach_step [OF r interrupt_loop])
  from reachable_sessions [OF i run_complete run_posix run_whole] obtain b g where
    "session run_os test_config test_manager b g (machine (signal_catch_int p))" by auto
  from shut_down_session [OF this, of w] obtain t where
    t: "shut_down run_os test_config test_manager w (machine (signal_catch_int p)) = (Val (), t)" by blast
  have "\<not> program_is_running (signal_catch_int p)" by (simp add: program_is_running_def interrupt_machine)
  from reach_step [OF i finish [OF this t]] 
  have "reachable 2 run_os run_yaml (Finished 0, (signal_catch_int p)\<lparr>machine := t\<rparr>)" .
  with finished_clean [OF this run_complete run_posix run_whole] show ?thesis by blast
qed





end
