(* ===== verification/Orphans.thy ===== *)
theory Orphans
  imports Scenario
begin

text \<open>
  Children that are lost, on any system: a wait that is interrupted, or a signal that is refused, leaves a
  child behind that nobody will wait for any more. The invariant on the children holds without any
  assumption on the answers to \<open>fork\<close>, \<open>waitpid\<close> and \<open>kill\<close> when these children are counted.
\<close>

section \<open>Lost children\<close>

text \<open>
  A pid is lost since a wait for it, that should have collected it or has answered for somebody else, did
  not return it, or since its \<open>SIGTERM\<close> was refused, until it is collected or given to a new child.
\<close>

fun lost_step :: "event \<Rightarrow> int set \<Rightarrow> int set" where
  "lost_step (EFork r) L = L - {r}"
| "lost_step (EWait p nohang r st) L = (if r \<noteq> p \<and> (0 < r \<or> \<not> nohang) then insert p L else L) - {r}"
| "lost_step (EKill p sig r) L = (if sig = SIGTERM \<and> r \<noteq> 0 then insert p L else L)"
| "lost_step _ L = L"

definition lost :: "history \<Rightarrow> int set" where
  "lost h = fold lost_step h {}"

text \<open>The children that are not lost; no child has the pid 1 of the first process.\<close>

definition tended :: "history \<Rightarrow> int set" where
  "tended h = {k \<in> kids h. 1 < k \<and> k \<notin> lost h}"

text \<open>They can be followed through the history on their own.\<close>

fun tend_step :: "event \<Rightarrow> int set \<Rightarrow> int set" where
  "tend_step (EFork r) T = (if 1 < r then insert r T else T)"
| "tend_step (EWait p nohang r st) T = (if 0 < r \<or> \<not> nohang then T - {p, r} else T)"
| "tend_step (EKill p sig r) T = (if sig = SIGTERM \<and> r \<noteq> 0 then T - {p} else T)"
| "tend_step _ T = T"

lemma tended_Nil [simp]: "tended [] = {}"
  by (simp add: tended_def)

lemma tended_snoc: "tended (h @ [e]) = tend_step e (tended h)"
  by (cases e) (auto simp: tended_def kids_snoc lost_def)

lemma tended_append: "tended (h @ h') = fold tend_step h' (tended h)"
proof (induction h' rule: rev_induct)
  case (snoc e h')
  then show ?case using tended_snoc [of "h @ h'" e] by simp
qed simp

lemma tended_fold: "tended h = fold tend_step h {}"
  using tended_append [of "[]" h] by simp

lemma tend_bystander: "bystander e \<Longrightarrow> tend_step e T = T"
  by (cases e) auto

lemma tended_doings [simp]: "tended (doings h) = tended h"
  unfolding tended_fold
  by (induction h rule: rev_induct) (simp_all add: doings_def tend_bystander)

lemma kids_positive: "k \<in> kids h \<Longrightarrow> 0 < k"
proof (induction h rule: rev_induct)
  case (snoc e h)
  then show ?case by (cases e) (auto simp: kids_snoc split: if_splits)
qed simp

section \<open>What the traces do to them\<close>

lemma tend_above: "T \<subseteq> {1<..} \<Longrightarrow> fold tend_step h T \<subseteq> {1<..}"
proof (induction h arbitrary: T)
  case (Cons e h)
  from Cons.prems have "tend_step e T \<subseteq> {1<..}" by (cases e) auto
  with Cons.IH show ?case by simp
qed simp

lemma tend_run: "run_trace r h ok \<Longrightarrow> fold tend_step h T \<subseteq> T \<union> (if ok then {r} else {})"
  by (erule run_trace.cases) auto

lemma tend_wait: "wait_trace r h ok \<Longrightarrow> fold tend_step h T \<subseteq> T"
  using tend_run [of r _ _ T] by (fastforce elim: wait_trace.cases)

lemma tend_kill: "kill_trace m h ok \<Longrightarrow> T \<subseteq> {1<..} \<Longrightarrow> fold tend_step h T \<subseteq> T - {m}"
  by (erule kill_trace.cases) (auto simp: SIGTERM_def)

lemma tend_kills: "kills_trace ms h \<Longrightarrow> T \<subseteq> {1<..} \<Longrightarrow> fold tend_step h T \<subseteq> T - set ms"
proof (induction arbitrary: T rule: kills_trace.induct)
  case (2 m h ok ms h')
  from 2(3) [OF tend_above [OF 2(4), of h]] tend_kill [OF 2(1,4)] show ?case by auto
qed simp

lemma tend_waits: "waits_trace rs oks h \<Longrightarrow> fold tend_step h T \<subseteq> T"
proof (induction arbitrary: T rule: waits_trace.induct)
  case (2 r h ok rs oks h')
  from 2(3) [of "fold tend_step h T"] tend_wait [OF 2(1), of T] show ?case by auto
qed simp

lemma tend_restart:
  assumes "restart_trace ps h made ps'" "T \<subseteq> {1<..}" "T \<subseteq> {snd ps}"
  shows "fold tend_step h T \<subseteq> {snd ps'}"
  using assms(1)
proof cases
  case (build_failed ms hk b hb m)
  then show ?thesis using tend_kills [OF build_failed(5) assms(2)] tend_wait [OF build_failed(6), of "fold tend_step hk T"] assms(3)
    by auto
next
  case (relaunched ms hk b hb ms' oks hw m hp ok m' hr ok')
  let ?T1 = "fold tend_step hk T" let ?T2 = "fold tend_step hb ?T1" let ?T3 = "fold tend_step hw ?T2"
  let ?T4 = "fold tend_step hp ?T3"
  have "?T3 \<subseteq> {m}" "?T3 \<subseteq> {1<..}"
    using tend_kills [OF relaunched(5) assms(2)] tend_wait [OF relaunched(6), of ?T1] tend_waits [OF relaunched(7), of ?T2]
      assms(3) relaunched(1) tend_above [OF tend_above [OF tend_above [OF assms(2)]], of hw hb hk] by auto
  with tend_kill [OF relaunched(9), of ?T3] have "?T4 = {}" by auto
  with tend_run [OF relaunched(10), of ?T4] relaunched(2,4) show ?thesis by (auto split: if_splits)
qed

lemma tend_reactions:
  assumes "reactions ps h ps'" "T \<subseteq> {1<..}" "T \<subseteq> {snd ps}"
  shows "fold tend_step h T \<subseteq> {snd ps'}"
  using assms
proof (induction arbitrary: T rule: reactions.induct)
  case (one_more ps h ps' h' fired ps'')
  let ?T = "fold tend_step h T"
  note T = tend_above [OF one_more(4), of h] one_more(3) [OF one_more(4,5)]
  from one_more(2) have "fold tend_step h' ?T \<subseteq> {snd ps''}"
  proof cases
    case (restart r h1 h2 made)
    have "fold tend_step h1 ?T \<subseteq> {1<..}" "fold tend_step h1 ?T \<subseteq> {snd ps'}"
      using tend_above [OF T(1), of h1] tend_wait [OF restart(3), of ?T] T(2) by auto
    from tend_restart [OF restart(4) this] restart(1) show ?thesis by simp
  next
    case (rebuild_failed r)
    with tend_wait [OF rebuild_failed(3), of ?T] T(2) show ?thesis by simp
  qed (use T(2) in simp)
  then show ?case by simp
qed simp

section \<open>The end of the program\<close>

text \<open>No operation of the end starts a child, so none can become untended.\<close>

definition untended :: "sys \<Rightarrow> bool" where
  "untended s \<longleftrightarrow> tended (hist s) = {}"

lemma tend_bystanders: "list_all bystander h \<Longrightarrow> fold tend_step h T = T"
  by (induction h arbitrary: T) (simp_all add: tend_bystander)

interpretation leaving: calm_closed untended
  by unfold_locales (simp add: untended_def tended_append tend_bystanders)

lemma keeps_untended_calm: "calm m \<Longrightarrow> keeps untended m"
  unfolding keeps_def by (rule tripleI) (auto intro: leaving.calm_run)

lemma keeps_untended_call: "(\<And>r. tend_step (ev r) {} = {}) \<Longrightarrow> keeps untended (sys_call f ev er)"
  unfolding keeps_def by (rule tripleI) (auto simp: sys_call_def Let_def untended_def tended_snoc)

lemma keeps_untended_kill [keeps_intros]: "keeps untended (kill os lg p)"
proof -
  have "keeps untended (get_proc p)"
    unfolding keeps_def
    by (rule tripleI) (auto simp: get_proc_def bnd_def gets_def deref_def ret_def halt_def split: option.splits)
  moreover have "keeps untended (sys_kill os m sig)" "keeps untended (sys_waitpid os m nohang)" for m sig nohang
    unfolding sys_kill_def sys_waitpid_def
    by (auto intro!: keeps_intros keeps_untended_call split: prod.split if_splits)
  moreover note keeps_untended_calm [OF calm_LOG] keeps_untended_calm [OF calm_LOG_ERROR]
  ultimately show ?thesis
    unfolding kill_def terminate_def report_wait_def by (auto intro!: keeps_intros split: prod.split)
qed

lemma keeps_untended_free [keeps_intros]: "keeps untended (free_argv a)" "keeps untended (free_proc p)"
  "keeps untended (get_proc p)"
  unfolding keeps_def
  by (rule tripleI; auto simp: untended_def get_proc_def get_argv_def free_argv_def free_proc_def bnd_def thn_def gets_def modify_def
      deref_def ret_def halt_def split: option.splits if_splits)+

lemma keeps_untended_rest:
  "keeps untended (delete_Config c)" "keeps untended (delete_ProcessManager os lg pm)"
  unfolding delete_Config_def free_command_def delete_ProcessManager_def delete_maybe_def delete_Process_def
  by (auto intro!: keeps_intros split: option.split)

lemma shut_down_untended:
  assumes "procman_ready (procs s) (argvs s) pm b g" "tended (hist s) \<subseteq> {pid_of (procs s) g}"
    and "shut_down os c pm w s = (x, t)"
  shows "tended (hist t) = {}"
proof -
  obtain x' u where u: "killAll os StdoutLogger pm s = (x', u)" by (cases "killAll os StdoutLogger pm s")
  from triple_runD [OF triple_killAll [OF assms(1), where E = "\<lambda>_ _. False"], of os StdoutLogger] u
  obtain h where x': "x' = Val ()" and h: "core u = (acts (hist s) @ h, procs s, argvs s)"
      "kills_trace (map (pid_of (procs s)) (b # mProcesses pm @ [g])) h"
    by (auto split: res.splits)
  have above: "tended (hist s) \<subseteq> {1<..}" by (auto simp: tended_def)
  have "tended (hist u) = fold tend_step h (tended (hist s))"
    using h(1) by (metis core_def fst_conv doings_acts tended_append tended_doings)
  with tend_kills [OF h(2) above] assms(2) have "untended u" by (auto simp: untended_def)
  moreover
  let ?rest = "thn (removeAllWatches os (mINotify w) (mFDs w)) (thn (sys_close (mINotify w))
      (thn (delete_Config c) (delete_ProcessManager os StdoutLogger pm)))"
  have "calm (removeAllWatches os fd fds)" "calm (sys_close fd)" for fd fds by (intro calm_intros)+
  then have "keeps untended ?rest" by (intro keeps_thn keeps_untended_calm keeps_untended_rest)
  moreover have "shut_down os c pm w = thn (killAll os StdoutLogger pm) ?rest"
    by (simp add: shut_down_def delete_Watcher_def thn_assoc)
  then have "?rest u = (x, t)" using assms(3) u x' by (simp add: thn_def [of _ ?rest] bnd_Val)
  ultimately have "untended t" by (blast dest: keepsD)
  then show ?thesis by (simp add: untended_def)
qed

section \<open>All children are accounted for\<close>

lemma reachable_tended:
  assumes "reachable depth os y (Looping c pm w, p)" "complete_config y" "inotify_whole os"
  obtains b g where "procman_ready (procs (machine p)) (argvs (machine p)) pm b g"
    "tended (hist (machine p)) \<subseteq> {pid_of (procs (machine p)) g}"
proof -
  from reachable_inv [OF assms(1) traced_loop [OF assms(2)] assms(3)]
  obtain b g h where t: "procman_ready (procs (machine p)) (argvs (machine p)) pm b g"
      "doings (hist (machine p)) = doings h" "reactions (fresh_pids pm) h (pids_of (procs (machine p)) pm g)"
    by (auto simp: traced_def)
  have "tended (hist (machine p)) = fold tend_step h {}" by (metis t(2) tended_doings tended_fold)
  with tend_reactions [OF t(3), of "{}"] have "tended (hist (machine p)) \<subseteq> {pid_of (procs (machine p)) g}"
    by (simp add: pids_of_def)
  with t(1) show ?thesis by (rule that)
qed


text \<open>Both builds of the run are interrupted: two children are lost, the third is the program.\<close>

lemma lost_doings: "lost (doings h) = lost h"
proof -
  have "lost_step e L = L" if "bystander e" for e L using that by (cases e) auto
  then show ?thesis
    unfolding lost_def by (induction h rule: rev_induct) (simp_all add: doings_def)
qed


end
