(* ===== verification/Builds.thy ===== *)
theory Builds
  imports Watcher
begin

text \<open>
  How often a modified file is built (src/src/watcher.cpp): the filters are tried one after the other, and
  each that accepts the file asks for a build of its own while the timer is not set, which only a
  successful build does.
\<close>

section \<open>A modified file is built\<close>

text \<open>
  What a file does that \<open>n\<close> filters accept, once the time has come: the build step is run for each of
  them until it has succeeded; then everything is restarted, and the filters left may lead to more.
\<close>

inductive attempts :: "nat \<Rightarrow> pids \<Rightarrow> history \<Rightarrow> pids \<Rightarrow> bool" where
  no_filter: "attempts 0 ps [] ps"
| build_failed: "wait_trace r h False \<Longrightarrow> attempts n ps h' ps' \<Longrightarrow> attempts (Suc n) ps (h @ h') ps'"
| built: "reaction ps h True ps' \<Longrightarrow> reactions ps' h' ps'' \<Longrightarrow> attempts (Suc n) ps (h @ h') ps''"

text \<open>The five seconds are over in \<open>s\<close> and stay over.\<close>

definition late :: "os \<Rightarrow> watcher \<Rightarrow> sys \<Rightarrow> bool" where
  "late os w s \<longleftrightarrow> (\<forall>h. mTimer w + 5 \<le> os_time os (hist s @ h))"

lemma late_grown: "late os w s \<Longrightarrow> grown (hist s) t \<Longrightarrow> late os w t"
  unfolding late_def grown_def by (metis append_assoc)

lemma keeps_grown_run: "keeps (grown h) (run os lg p)"
proof -
  have "keeps (grown h) (sys_exec os path name v)" for path name v
    unfolding keeps_def sys_exec_def
    by (rule tripleI) (auto simp: bnd_def gets_def halt_def modify_def grown_def split: option.splits)
  then show ?thesis
    unfolding run_def run_child_def run_parent_def report_wait_def report_failed_def command_name_def
    by (auto intro!: keeps_intros split: prod.split)
qed

lemma keeps_grown_on_filter: "keeps (grown h) (on_filter os lg pm ev str w)"
proof -
  have kill: "keeps (grown h) (kill os lg p)" for p
    unfolding kill_def terminate_def report_wait_def by (auto intro!: keeps_intros split: prod.split)
  have wait: "keeps (grown h) (runAndWait os lg p)" for p
    unfolding runAndWait_def report_wait_def report_failed_def command_name_def
    by (auto intro!: keeps_intros keeps_grown_run split: prod.split)
  show ?thesis
    unfolding on_filter_def rebuild_def restartProgram_def restartProcesses_def restartAll_def haltConstructionProcs_def
      runBuild_def runProcesses_def runOne_def haltProgram_def startProgram_def Let_def
    by (intro keeps_intros keeps_grown_run kill wait)
qed

lemma on_filter_late:
  assumes "clock os" "late os w s" "length str < 2 ^ 64" "length (ev_name ev) < 2 ^ 64" "accepts str (ev_name ev)"
  shows "\<exists>t. core t = core s \<and> on_filter os lg pm ev str w s = react os lg pm (mTimer w + 5) w t"
proof -
  obtain t where t: "LOG os lg INFO modified_text [PStr (ev_name ev)] s = (Val (), t)" "core t = core s"
    using LOG_core [OF modified_text_ok] by blast
  obtain h where "hist t = hist s @ h" by (rule calmD [OF calm_LOG t(1)])
  with assms(2) have now: "mTimer w + 5 \<le> os_time os (hist t)" by (simp add: late_def)
  let ?u = "t\<lparr>hist := hist t @ [ETime (os_time os (hist t))]\<rparr>"
  have u: "sys_time os t = (Val (os_time os (hist t)), ?u)" by (simp add: sys_time_def sys_call_def Let_def)
  have "on_filter os lg pm ev str w s = react os lg pm (mTimer w + 5) w ?u"
    using assms(1,3,4,5) now
    by (simp add: on_filter_react strMatch_accepts lift_res_def Let_def seq_run t(1) u clock_def)
  moreover have "core ?u = core s" using t(2) by (simp add: core_def)
  ultimately show ?thesis by blast
qed

lemma late_LOG:
  assumes "vformat format as \<noteq> None"
  shows "triple (\<lambda>s. core s = k \<and> late os w s) (LOG os lg level format as) (\<lambda>_ s. core s = k \<and> late os w s) E"
proof (rule tripleI)
  fix s x t assume s: "core s = k \<and> late os w s" and run: "LOG os lg level format as s = (Val x, t)"
  have "grown (hist s) s" by (auto simp: grown_def)
  from keepsD [OF keeps_grown_sys(6) this run] late_grown s have "late os w t" by blast
  with s run LOG_core [OF assms, of os lg level s] show "core t = k \<and> late os w t" by auto
next
  fix s e t assume "LOG os lg level format as s = (Stop e, t)"
  with LOG_core [OF assms, of os lg level s] show "E e t" by auto
qed

text \<open>One filter that accepts, and all filters.\<close>

lemma triple_on_filter_late:
  assumes ready: "procman_ready P V pm b g" and b: "mBuilder w = Some b" and "clock os"
    and len: "length str < 2 ^ 64" "length (ev_name ev) < 2 ^ 64" and acc: "accepts str (ev_name ev)"
  shows "triple (\<lambda>s. core_is A P V s \<and> late os w s) (on_filter os lg pm ev str w)
    (\<lambda>w' s. \<exists>P' h. core s = (A @ h, P', V) \<and> same_procs P P' \<and> mBuilder w' = Some b \<and>
       (reaction (pids_of P pm g) h True (pids_of P' pm g) \<or>
        (\<exists>r. wait_trace r h False) \<and> pids_of P' pm g = pids_of P pm g \<and> w' = w \<and> late os w s))
    (\<lambda>e _. child_stop e)"
proof -
  have run: "\<exists>u. core u = (A, P, V) \<and> react os lg pm (mTimer w + 5) w u = (x, t) \<and> late os w t"
    if s: "core_is A P V s" "late os w s" "on_filter os lg pm ev str w s = (x, t)" for s x t
  proof -
    have "grown (hist s) s" by (auto simp: grown_def)
    from keepsD [OF keeps_grown_on_filter this s(3)] have "late os w t" by (rule late_grown [OF s(2)])
    with on_filter_late [OF assms(3) s(2) len acc, of lg pm] s(1,3) show ?thesis by auto
  qed
  note tr = triple_react [OF ready b, of A os lg "mTimer w + 5"]
  show ?thesis
  proof (rule tripleI)
    fix s w' t assume "core_is A P V s \<and> late os w s" "on_filter os lg pm ev str w s = (Val w', t)"
    with run obtain u where u: "core u = (A, P, V)" "react os lg pm (mTimer w + 5) w u = (Val w', t)" "late os w t"
      by blast
    from triple_Val [OF tr u(1,2)] obtain P' h fired where "core t = (A @ h, P', V)" "same_procs P P'"
        "if fired then reaction (pids_of P pm g) h True (pids_of P' pm g) \<and> w' = w\<lparr>mTimer := mTimer w'\<rparr>
         else (\<exists>r. wait_trace r h False) \<and> pids_of P' pm g = pids_of P pm g \<and> w' = w" by blast
    then show "\<exists>P' h. core t = (A @ h, P', V) \<and> same_procs P P' \<and> mBuilder w' = Some b \<and>
       (reaction (pids_of P pm g) h True (pids_of P' pm g) \<or>
        (\<exists>r. wait_trace r h False) \<and> pids_of P' pm g = pids_of P pm g \<and> w' = w \<and> late os w t)"
      using u(3) b by (intro exI [of _ P'] exI [of _ h]) (cases w, cases w', auto split: if_splits)
  next
    fix s e t assume "core_is A P V s \<and> late os w s" "on_filter os lg pm ev str w s = (Stop e, t)"
    with run triple_Stop [OF tr] show "child_stop e" by blast
  qed
qed

lemma triple_on_filters:
  assumes "procman_ready P V pm b g" "mBuilder w = Some b"
    and "\<forall>f \<in> set fs. length f < 2 ^ 64" "length (ev_name ev) < 2 ^ 64"
  shows "triple (core_is A P V) (for_acc (on_filter os lg pm ev) fs w)
    (\<lambda>_ s. \<exists>P' h. core s = (A @ h, P', V) \<and> same_procs P P' \<and> reactions (pids_of P pm g) h (pids_of P' pm g))
    (\<lambda>e _. child_stop e)"
proof -
  let ?I = "\<lambda>w s. mBuilder w = Some b \<and>
    (\<exists>P' h. core s = (A @ h, P', V) \<and> same_procs P P' \<and> reactions (pids_of P pm g) h (pids_of P' pm g))"
  have step: "triple (?I w) (on_filter os lg pm ev f w) ?I (\<lambda>e _. child_stop e)" if "f \<in> set fs" for f w
  proof (rule tripleI)
    fix s w' t assume s: "?I w s" and run: "on_filter os lg pm ev f w s = (Val w', t)"
    then obtain P' h where h: "core s = (A @ h, P', V)" "same_procs P P'" "reactions (pids_of P pm g) h (pids_of P' pm g)"
      by blast
    from s triple_Val [OF triple_on_filter [OF procman_ready_same [OF assms(1) h(2)] _ _ assms(4)] h(1) run] assms(3) that
    obtain P'' h' fired where "core t = ((A @ h) @ h', P'', V)" "same_procs P' P''"
        "reaction (pids_of P' pm g) h' fired (pids_of P'' pm g)" "mBuilder w' = Some b"
      by (cases w; cases w') (auto split: if_splits)
    with h show "?I w' t"
      by (intro conjI exI [of _ P''] exI [of _ "h @ h'"]) (auto intro: same_procs_trans one_more)
  next
    fix s e t assume s: "?I w s" and run: "on_filter os lg pm ev f w s = (Stop e, t)"
    then obtain P' h where h: "core s = (A @ h, P', V)" "same_procs P P'" by blast
    from s triple_Stop [OF triple_on_filter [OF procman_ready_same [OF assms(1) h(2)] _ _ assms(4)] h(1) run] assms(3) that
    show "child_stop e" by blast
  qed
  have "triple (?I w) (for_acc (on_filter os lg pm ev) fs w) ?I (\<lambda>e _. child_stop e)"
    by (rule triple_for_acc) (rule step)
  then show ?thesis
    by (rule triple_conseq) (auto simp: assms(2) intro!: exI [of _ P] exI [of _ "[]"] no_reaction)
qed

lemma triple_attempts:
  assumes "procman_ready P V pm b g" "mBuilder w = Some b" "clock os"
    and "\<forall>f \<in> set fs. length f < 2 ^ 64" "length (ev_name ev) < 2 ^ 64"
  shows "triple (\<lambda>s. core_is A P V s \<and> late os w s) (for_acc (on_filter os lg pm ev) fs w)
    (\<lambda>_ s. \<exists>P' h. core s = (A @ h, P', V) \<and>
       attempts (length (filter (\<lambda>f. accepts f (ev_name ev)) fs)) (pids_of P pm g) h (pids_of P' pm g))
    (\<lambda>e _. child_stop e)"
  using assms(1,4)
proof (induction fs arbitrary: A P)
  case Nil
  show ?case by (simp, intro triple_ret exI [of _ P] exI [of _ "[]"]) (simp add: no_filter)
next
  case (Cons f fs)
  show ?case
  proof (cases "accepts f (ev_name ev)")
    case False
    then have "on_filter os lg pm ev f w = ret w"
      using Cons.prems(2) assms(5) by (simp add: on_filter_def strMatch_accepts lift_res_def)
    with Cons.IH [OF Cons.prems(1)] Cons.prems(2) False show ?thesis by simp
  next
    case acc: True
    let ?n = "length (filter (\<lambda>f. accepts f (ev_name ev)) fs)"
    let ?Q = "\<lambda>_ s. \<exists>P' h. core s = (A @ h, P', V) \<and> attempts (Suc ?n) (pids_of P pm g) h (pids_of P' pm g)"
    have rest: "triple (\<lambda>s. core s = (A @ h, P', V) \<and> same_procs P P' \<and> mBuilder w' = Some b \<and>
         (reaction (pids_of P pm g) h True (pids_of P' pm g) \<or>
          (\<exists>r. wait_trace r h False) \<and> pids_of P' pm g = pids_of P pm g \<and> w' = w \<and> late os w s))
       (for_acc (on_filter os lg pm ev) fs w') ?Q (\<lambda>e _. child_stop e)" (is "triple ?S _ _ _") for w' P' h
    proof (cases "same_procs P P' \<and> mBuilder w' = Some b")
      case True
      note ready = procman_ready_same [OF Cons.prems(1)]
      show ?thesis
      proof (cases "reaction (pids_of P pm g) h True (pids_of P' pm g)")
        case r: True
        have "triple (core_is (A @ h) P' V) (for_acc (on_filter os lg pm ev) fs w') ?Q (\<lambda>e _. child_stop e)"
        proof (rule triple_post [OF triple_on_filters [OF ready]])
          fix x t assume "\<exists>P'' h'. core t = ((A @ h) @ h', P'', V) \<and> same_procs P' P'' \<and>
            reactions (pids_of P' pm g) h' (pids_of P'' pm g)"
          then obtain P'' h' where "core t = (A @ h @ h', P'', V)" "reactions (pids_of P' pm g) h' (pids_of P'' pm g)" by auto
          with attempts.built [OF r] show "?Q x t" by blast
        qed (use True Cons.prems(2) assms(5) in auto)
        then show ?thesis by (rule triple_pre) auto
      next
        case r: False
        show ?thesis
        proof (cases "(\<exists>r. wait_trace r h False) \<and> pids_of P' pm g = pids_of P pm g \<and> w' = w")
          case f: True
          then obtain r where w: "wait_trace r h False" by blast
          have "triple (\<lambda>s. core_is (A @ h) P' V s \<and> late os w s) (for_acc (on_filter os lg pm ev) fs w) ?Q (\<lambda>e _. child_stop e)"
          proof (rule triple_post [OF Cons.IH [OF ready]])
            fix x t assume "\<exists>P'' h'. core t = ((A @ h) @ h', P'', V) \<and> attempts ?n (pids_of P' pm g) h' (pids_of P'' pm g)"
            then obtain P'' h' where "core t = (A @ h @ h', P'', V)" "attempts ?n (pids_of P pm g) h' (pids_of P'' pm g)"
              using f by auto
            with attempts.build_failed [OF w] show "?Q x t" by blast
          qed (use True Cons.prems(2) in auto)
          with f r show ?thesis by (auto elim: triple_pre)
        qed (use r in \<open>auto simp: triple_def\<close>)
      qed
    qed (auto simp: triple_def)
    have "triple (\<lambda>s. core_is A P V s \<and> late os w s) (bnd (on_filter os lg pm ev f w) (for_acc (on_filter os lg pm ev) fs))
        ?Q (\<lambda>e _. child_stop e)"
      by (rule triple_bnd [OF triple_on_filter_late [OF Cons.prems(1) assms(2,3) _ assms(5) acc]])
         (use Cons.prems(2) in \<open>simp, intro triple_ex rest\<close>)
    with acc show ?thesis by simp
  qed
qed

text \<open>
  C13. A modified file is built: once five seconds have passed since the last restart, an event for a
  file that filters accept runs the build step, once for each of these filters until it has succeeded,
  and then restarts everything. In particular a build that fails is repeated for every other filter that
  accepts the file.
\<close>

theorem modified_file_builds:
  assumes "procman_ready (procs s) (argvs s) pm b g" "mBuilder w = Some b" "filters_fit c"
    and "clock os" "\<forall>h. mTimer w + 5 \<le> os_time os (hist s @ h)"
    and "ev_len ev \<noteq> 0" "ev_mask ev AND IN_MODIFY \<noteq> 0" "ev_mask ev AND IN_ISDIR = 0" "length (ev_name ev) < 2 ^ 64"
  shows "case on_event os lg c pm ev w s of
      (Val w', t) \<Rightarrow> \<exists>h. acts (hist t) = acts (hist s) @ h \<and>
         attempts (length (filter (\<lambda>f. accepts f (ev_name ev)) (filters (getWatchConfig c))))
           (pids_of (procs s) pm g) h (pids_of (procs t) pm g)
    | (Stop e, t) \<Rightarrow> child_stop e"
proof -
  let ?S = "\<lambda>s'. core s' = core s \<and> late os w s'"
  have it: "ev_len ev \<noteq> 0 \<and> ev_mask ev AND IN_MODIFY \<noteq> 0 \<and> \<not> ev_mask ev AND IN_ISDIR \<noteq> 0"
    using assms(6-8) by simp
  have tr: "triple ?S (on_event os lg c pm ev w)
      (\<lambda>_ t. \<exists>P' h. core t = (acts (hist s) @ h, P', argvs s) \<and>
        attempts (length (filter (\<lambda>f. accepts f (ev_name ev)) (filters (getWatchConfig c))))
          (pids_of (procs s) pm g) h (pids_of P' pm g)) (\<lambda>e _. child_stop e)"
    unfolding on_event_def if_P [OF it]
    using triple_attempts [OF assms(1,2,4) _ assms(9), of "filters (getWatchConfig c)" "acts (hist s)" lg] assms(3)
    by (intro triple_thn [OF late_LOG [OF event_text_ok]]) (simp add: filters_fit_def core_def)
  have start: "?S s" using assms(5) by (simp add: late_def)
  obtain x t where x: "on_event os lg c pm ev w s = (x, t)" by (cases "on_event os lg c pm ev w s")
  show ?thesis
  proof (cases x)
    case (Val w')
    from triple_Val [OF tr start x [unfolded Val]] x Val show ?thesis by (auto simp: core_def)
  next
    case (Stop e)
    from triple_Stop [OF tr start x [unfolded Stop]] x Stop show ?thesis by simp
  qed
qed

text \<open>
  Two filters accept the file, and the build fails: it is run a second time, for nothing.
\<close>

definition two_filters :: config where
  "two_filters = demo_config\<lparr>mWatch := \<lparr>filters = [''*.cpp'', ''m*''], included = [], excluded = []\<rparr>\<rparr>"

theorem failed_build_repeated:
  "acts (hist (snd (on_event (demo_os (\<lambda>p. 256)\<lparr>os_time := \<lambda>h. 1000\<rparr>) StdoutLogger two_filters demo_pm demo_event
       (demo_watcher 0) demo_sys))) =
     [EFork 101, ESleep 10, EWait 101 True 0 0, EWait 101 False 101 256,
      EFork 102, ESleep 10, EWait 102 True 0 0, EWait 102 False 102 256]"
  by code_simp

theorem modified_file_builds_witness:
  "case on_event (demo_os (\<lambda>p. 256)\<lparr>os_time := \<lambda>h. 1000\<rparr>) StdoutLogger two_filters demo_pm demo_event
       (demo_watcher 0) demo_sys of
      (Val w', t) \<Rightarrow> attempts 2 ([0], 0) (acts (hist t)) (pids_of (procs t) demo_pm 2)
    | (Stop e, t) \<Rightarrow> child_stop e"
proof -
  let ?os = "demo_os (\<lambda>p. 256)\<lparr>os_time := \<lambda>h. 1000\<rparr>"
  have d: "acts (hist demo_sys) = []" "pids_of (procs demo_sys) demo_pm 2 = ([0], 0)"
    by (simp_all add: demo_sys_def demo_pm_def pids_of_def pid_of_def slot_def demo_proc_def)
  have "filters_fit two_filters" "clock ?os" "mBuilder (demo_watcher 0) = Some 0"
    by (simp_all add: two_filters_def filters_fit_def getWatchConfig_def clock_def demo_os_def demo_watcher_def)
  moreover have "accepts ''*.cpp'' (ev_name demo_event)" "accepts ''m*'' (ev_name demo_event)" by code_simp+
  then have "length (filter (\<lambda>f. accepts f (ev_name demo_event)) (filters (getWatchConfig two_filters))) = 2"
    by (simp add: two_filters_def getWatchConfig_def)
  ultimately show ?thesis
    using modified_file_builds [OF demo_ready, of "demo_watcher 0" two_filters ?os demo_event StdoutLogger, unfolded d append_Nil]
    by (auto simp: demo_watcher_def demo_os_def demo_event_def IN_MODIFY_def IN_ISDIR_def split: prod.splits res.splits)
qed

end
