(* ===== verification/Execs.thy ===== *)
theory Execs
  imports Scenario
begin

text \<open>
  What a forked child becomes, from the configuration file down to \<open>exec\<close>: whatever the system does, the
  only programs ever executed are the commands of the document, each with its own argument vector. The
  invariant says that the objects of the manager run such vectors; it is carried through every operation,
  together with what is true of a run that stops.
\<close>

section \<open>Computations that keep a property until they stop\<close>

definition carries :: "(sys \<Rightarrow> bool) \<Rightarrow> (stop \<Rightarrow> bool) \<Rightarrow> 'a io \<Rightarrow> bool" where
  "carries I E m \<longleftrightarrow> triple I m (\<lambda>_. I) (\<lambda>e _. E e)"

named_theorems carries_intros \<open>computations that keep a property until they stop in an expected way\<close>

lemma carries_simple [carries_intros]: "carries I E (ret x)" "carries I E (gets f)" "E e \<Longrightarrow> carries I E (halt e)"
  by (simp_all add: carries_def triple_ret triple_gets triple_halt)

lemma carries_lift_res [carries_intros]: "(\<And>e. r = Inl e \<Longrightarrow> E e) \<Longrightarrow> carries I E (lift_res r)"
  by (cases r) (simp_all add: lift_res_def carries_intros)

lemma carries_bnd [carries_intros]: "carries I E m \<Longrightarrow> (\<And>x. carries I E (k x)) \<Longrightarrow> carries I E (bnd m k)"
  unfolding carries_def by (rule triple_bnd)

lemma carries_thn [carries_intros]: "carries I E m \<Longrightarrow> carries I E k \<Longrightarrow> carries I E (thn m k)"
  unfolding carries_def by (rule triple_thn)

lemma carries_if [carries_intros]:
  "(b \<Longrightarrow> carries I E m) \<Longrightarrow> (\<not> b \<Longrightarrow> carries I E k) \<Longrightarrow> carries I E (if b then m else k)"
  by simp

lemma carries_for_acc [carries_intros]: "(\<And>x b. carries I E (f x b)) \<Longrightarrow> carries I E (for_acc f xs b)"
  by (induction xs arbitrary: b) (simp_all add: carries_intros)

lemma carries_for_each: "(\<And>x. x \<in> set xs \<Longrightarrow> carries I E (f x)) \<Longrightarrow> carries I E (for_each f xs)"
  by (induction xs) (simp_all add: carries_intros)

lemma carries_deref [carries_intros]: "E Undefined \<Longrightarrow> carries I E (deref x)"
  by (cases x) (simp_all add: deref_def carries_intros)

text \<open>A pointer is used only if it is not null.\<close>

lemma carries_bnd_deref:
  "E Undefined \<Longrightarrow> (\<And>p. x = Some p \<Longrightarrow> carries I E (k p)) \<Longrightarrow> carries I E (bnd (deref x) k)"
  by (cases x) (simp_all add: deref_def carries_intros)

lemma carriesD_Stop: "carries I E m \<Longrightarrow> I s \<Longrightarrow> m s = (Stop e, t) \<Longrightarrow> E e"
  unfolding carries_def by (rule triple_Stop)

lemma carriesD_Val: "carries I E m \<Longrightarrow> I s \<Longrightarrow> m s = (Val x, t) \<Longrightarrow> I t"
  unfolding carries_def by (rule triple_Val)

section \<open>The invariant\<close>

text \<open>
  A run that ends with \<open>exec\<close> has executed a vector of \<open>D\<close>, found by its first argument on the search
  path. The objects of \<open>L\<close> that are live and have a live command run vectors of \<open>D\<close>.
\<close>

fun becomes :: "string list set \<Rightarrow> stop \<Rightarrow> bool" where
  "becomes D (Replaced in_path name v) \<longleftrightarrow> in_path \<and> v \<in> D \<and> v \<noteq> [] \<and> name = hd v"
| "becomes D _ \<longleftrightarrow> True"

definition equipped :: "nat set \<Rightarrow> string list set \<Rightarrow> sys \<Rightarrow> bool" where
  "equipped L D s \<longleftrightarrow> (\<forall>p pr v. p \<in> L \<longrightarrow> slot (procs s) p = Some pr \<longrightarrow>
     mSearchInPath pr \<and> (slot (argvs s) (mCommand pr) = Some v \<longrightarrow> v \<in> D))"

interpretation equipping: calm_closed "equipped L D" for L D
  by unfold_locales (simp add: equipped_def)

lemma carries_calm: "calm m \<Longrightarrow> (\<And>s e t. m s = (Stop e, t) \<Longrightarrow> E e) \<Longrightarrow> carries (equipped L D) E m"
  unfolding carries_def by (rule equipping.keep_calm)

lemma carries_LOG [carries_intros]:
  "vformat format as \<noteq> None \<Longrightarrow> carries (equipped L D) E (LOG os lg level format as)"
  "carries (equipped L D) E (LOG_ERROR os lg message)"
  unfolding carries_def by (rule equipping.keep_LOG, assumption) (rule equipping.keep_LOG_ERROR)

lemma carries_call [carries_intros]: "carries (equipped L D) E (sys_call f ev er)"
  by (simp add: carries_def triple_def sys_call_def Let_def equipped_def)

lemma carries_calls [carries_intros]:
  "carries (equipped L D) E (sys_fork os)" "carries (equipped L D) E (sys_waitpid os p nohang)"
  "carries (equipped L D) E (sys_kill os p sig)" "carries (equipped L D) E (sys_time os)"
  "carries (equipped L D) E (sys_usleep n)" "carries (equipped L D) E (sys_select os fd)"
  "carries (equipped L D) E (sys_read os fd len)" "carries (equipped L D) E (sys_close fd)"
  "carries (equipped L D) E (sys_rm_watch os fd wd)"
  unfolding sys_fork_def sys_waitpid_def sys_kill_def sys_time_def sys_usleep_def sys_select_def sys_read_def
    sys_close_def sys_rm_watch_def
  by (auto intro!: carries_intros split: prod.split)

lemma equipped_fewer:
  assumes "equipped L D s"
    and "\<And>p pr. slot (procs t) p = Some pr \<Longrightarrow> slot (procs s) p = Some pr"
    and "\<And>a v. slot (argvs t) a = Some v \<Longrightarrow> slot (argvs s) a = Some v"
  shows "equipped L D t"
  using assms unfolding equipped_def by metis

lemma carries_heap [carries_intros]:
  "carries (equipped L D) (becomes D) (get_proc p)" "carries (equipped L D) (becomes D) (get_argv a)"
  "carries (equipped L D) (becomes D) (free_argv a)" "carries (equipped L D) (becomes D) (free_proc p)"
  unfolding carries_def
  by (rule tripleI;
      auto simp: slot_update get_proc_def get_argv_def free_argv_def free_proc_def
        bnd_def thn_def gets_def modify_def deref_def ret_def halt_def split: option.splits if_splits elim!: equipped_fewer)+

section \<open>The operations of a process\<close>

text \<open>An object read from the heap, and the new pid recorded in it.\<close>

lemma triple_get_put:
  assumes "p \<in> L" "\<And>pr. carries (equipped L D) (becomes D) (k pr)"
  shows "carries (equipped L D) (becomes D) (bnd (get_proc p) (\<lambda>pr. thn (put_proc p (pr\<lparr>mProc := r\<rparr>)) (k pr)))"
  unfolding carries_def
proof (rule triple_bnd [where R = "\<lambda>pr s. equipped L D s \<and> slot (procs s) p = Some pr"])
  show "triple (equipped L D) (get_proc p) (\<lambda>pr s. equipped L D s \<and> slot (procs s) p = Some pr) (\<lambda>e _. becomes D e)"
    by (rule tripleI) (auto simp: get_proc_def bnd_def gets_def deref_def ret_def halt_def split: option.splits)
next
  fix pr :: process
  have "equipped L D (s\<lparr>procs := (procs s)[p := Some (pr\<lparr>mProc := r\<rparr>)]\<rparr>)"
    if "equipped L D s" "slot (procs s) p = Some pr" for s
    using that by (auto simp: equipped_def slot_update split: if_splits)
  then have "triple (\<lambda>s. equipped L D s \<and> slot (procs s) p = Some pr) (put_proc p (pr\<lparr>mProc := r\<rparr>)) (\<lambda>_. equipped L D)
      (\<lambda>e _. becomes D e)"
    by (simp add: triple_def put_proc_run)
  then show "triple (\<lambda>s. equipped L D s \<and> slot (procs s) p = Some pr) (thn (put_proc p (pr\<lparr>mProc := r\<rparr>)) (k pr))
      (\<lambda>_. equipped L D) (\<lambda>e _. becomes D e)"
    by (rule triple_thn) (use assms(2) in \<open>simp add: carries_def\<close>)
qed

lemma carries_command_name [carries_intros]: "carries I (becomes D) (command_name v)"
  unfolding command_name_def argv_at_def by (intro carries_intros) (auto split: if_splits)

lemma args_string_becomes: "args_string v = Inl e \<Longrightarrow> becomes D e"
proof (cases v)
  case Nil
  moreover assume "args_string v = Inl e"
  ultimately have "e = Undefined" by (simp add: args_string_def size_loop.simps argv_at_def)
  then show ?thesis by simp
next
  case (Cons a as)
  moreover assume "args_string v = Inl e"
  ultimately show ?thesis using size_loop_eq [of 1 v 0] args_loop_eq [of 1 v "[]"] by (simp add: args_string_def)
qed

lemma triple_two_pure: "(b \<Longrightarrow> b' \<Longrightarrow> triple P m Q E) \<Longrightarrow> triple (\<lambda>s. P s \<and> b \<and> b') m Q E"
  by (cases b; cases b') (simp_all add: triple_def)

text \<open>The child: it becomes the command of its object, or exits.\<close>

lemma carries_run_child:
  assumes "p \<in> L"
  shows "carries (equipped L D) (becomes D) (run_child os lg p)"
proof -
  have exec: "carries (equipped L D) (becomes D) (sys_exec os True (hd v) v)" if "v \<in> D" "v \<noteq> []" for v
    unfolding carries_def sys_exec_def
    by (rule tripleI) (use that in \<open>auto simp: bnd_def gets_def halt_def modify_def equipped_def split: option.splits\<close>)
  have name: "carries (equipped L D) (becomes D) (bnd (command_name v) k)"
    if "v \<noteq> [] \<Longrightarrow> carries (equipped L D) (becomes D) (k (hd v))" for v and k :: "string \<Rightarrow> bool io"
  proof (cases v)
    case Nil
    then show ?thesis
      by (simp add: command_name_def argv_at_def lift_res_def deref_def carries_simple)
  next
    case (Cons a as)
    with that show ?thesis by (simp add: command_name_def argv_at_def lift_res_def deref_def)
  qed
  have rest: "carries (equipped L D) (becomes D) (bnd (lift_res (args_string v)) (\<lambda>args_string.
       bnd (command_name v) (\<lambda>name.
       thn (LOG os lg DEBUG ''running command %s with %s arguments'' [PStr name, PStr args_string])
      (thn (sys_exec os True name v)
      (thn (LOG os lg ERROR ''Failed to run command!'' []) (halt (Exited 1) :: bool io))))))" if "v \<in> D" for v
    by (rule carries_bnd [OF carries_lift_res], erule args_string_becomes, rule name)
       (intro carries_thn carries_LOG exec that carries_simple, simp_all)
  have argv: "triple (\<lambda>s. equipped L D s \<and> slot (procs s) p = Some pr) (bnd (get_argv (mCommand pr)) (\<lambda>v.
       bnd (lift_res (args_string v)) (\<lambda>args_string.
       bnd (command_name v) (\<lambda>name.
       thn (LOG os lg DEBUG ''running command %s with %s arguments'' [PStr name, PStr args_string])
      (thn (sys_exec os (mSearchInPath pr) name v)
      (thn (LOG os lg ERROR ''Failed to run command!'' []) (halt (Exited 1) :: bool io)))))))
      (\<lambda>_. equipped L D) (\<lambda>e _. becomes D e)" for pr :: process
  proof (rule triple_bnd [where R = "\<lambda>v s. equipped L D s \<and> mSearchInPath pr \<and> v \<in> D"])
    show "triple (\<lambda>s. equipped L D s \<and> slot (procs s) p = Some pr) (get_argv (mCommand pr))
        (\<lambda>v s. equipped L D s \<and> mSearchInPath pr \<and> v \<in> D) (\<lambda>e _. becomes D e)"
      by (rule tripleI)
         (use assms in \<open>auto simp: equipped_def get_argv_def bnd_def gets_def deref_def ret_def halt_def split: option.splits\<close>)
  qed (rule triple_two_pure, simp only:, rule rest [unfolded carries_def], assumption)
  show ?thesis
    unfolding run_child_def
  proof (rule carries_thn)
    show "carries (equipped L D) (becomes D) (bnd (get_proc p) (\<lambda>pr. bnd (get_argv (mCommand pr)) (\<lambda>v.
       bnd (lift_res (args_string v)) (\<lambda>args_string.
       bnd (command_name v) (\<lambda>name.
       thn (LOG os lg DEBUG ''running command %s with %s arguments'' [PStr name, PStr args_string])
      (thn (sys_exec os (mSearchInPath pr) name v)
      (thn (LOG os lg ERROR ''Failed to run command!'' []) (halt (Exited 1) :: bool io))))))))"
      unfolding carries_def
    proof (rule triple_bnd [OF _ argv])
      show "triple (equipped L D) (get_proc p) (\<lambda>pr s. equipped L D s \<and> slot (procs s) p = Some pr) (\<lambda>e _. becomes D e)"
        by (rule tripleI) (auto simp: get_proc_def bnd_def gets_def deref_def ret_def halt_def split: option.splits)
    qed
  qed (simp add: carries_intros)
qed

lemma carries_reports [carries_intros]:
  "carries (equipped L D) (becomes D) (report_wait os lg pid)" "carries (equipped L D) (becomes D) (report_failed os lg p)"
  unfolding report_wait_def report_failed_def by (auto intro!: carries_intros)

lemma carries_run: "p \<in> L \<Longrightarrow> carries (equipped L D) (becomes D) (run os lg p)"
proof -
  assume p: "p \<in> L"
  have "carries (equipped L D) (becomes D) (run_parent os lg p r)" for r
    unfolding run_parent_def by (auto intro!: carries_intros split: prod.split)
  then show ?thesis
    unfolding run_def
    by (auto intro!: carries_bnd carries_calls triple_get_put p carries_if carries_thn carries_run_child carries_LOG
        carries_simple)
qed

lemma carries_runAndWait: "p \<in> L \<Longrightarrow> carries (equipped L D) (becomes D) (runAndWait os lg p)"
  unfolding runAndWait_def by (auto intro!: carries_run carries_intros split: prod.split)

lemma carries_kill [carries_intros]: "carries (equipped L D) (becomes D) (kill os lg p)"
  unfolding kill_def terminate_def by (auto intro!: carries_intros split: prod.split)

section \<open>The manager, the watcher and the end of the program\<close>

definition in_manager :: "procman \<Rightarrow> nat set \<Rightarrow> bool" where
  "in_manager pm L \<longleftrightarrow> set (objects pm) \<subseteq> L"

lemma in_managerD:
  "in_manager pm L \<Longrightarrow> p \<in> set (mProcesses pm) \<Longrightarrow> p \<in> L"
  "in_manager pm L \<Longrightarrow> mBuildStep pm = Some p \<Longrightarrow> p \<in> L"
  "in_manager pm L \<Longrightarrow> mProgram pm = Some p \<Longrightarrow> p \<in> L"
  by (auto simp: in_manager_def objects_def)

lemma carries_restartAll:
  assumes "in_manager pm L"
  shows "carries (equipped L D) (becomes D) (restartAll os lg pm)"
  unfolding restartAll_def haltConstructionProcs_def runBuild_def runProcesses_def runOne_def haltProgram_def startProgram_def
  by (auto intro!: carries_intros carries_for_each carries_bnd_deref carries_run carries_runAndWait
      intro: in_managerD [OF assms])

text \<open>The watcher keeps its build step.\<close>

lemma carries_bnd_same:
  assumes "carries I E m" "triple (\<lambda>_. True) m (\<lambda>w' _. same_watch w w') (\<lambda>_ _. True)"
    and "\<And>w'. mBuilder w' = mBuilder w \<Longrightarrow> carries I E (k w')"
  shows "carries I E (bnd m k)"
  unfolding carries_def
proof (rule triple_bnd)
  show "triple I m (\<lambda>w' s. I s \<and> same_watch w w') (\<lambda>e _. E e)"
    by (rule tripleI) (auto intro: carriesD_Val [OF assms(1)] carriesD_Stop [OF assms(1)] dest: triple_Val [OF assms(2) TrueI])
  show "triple (\<lambda>s. I s \<and> same_watch w w') (k w') (\<lambda>_. I) (\<lambda>e _. E e)" for w'
    using assms(3) same_watchD unfolding carries_def by (blast intro: triple_pure)
qed

text \<open>The pure parts stop with an exception or undefined behaviour.\<close>

lemma strMatch_becomes: "strMatch str name = Inl e \<Longrightarrow> becomes D e"
  by (auto simp: strMatch_def Let_def substr_def substr_from_def split: if_splits)

lemma read_event_becomes: "read_event buf i = Inl e \<Longrightarrow> becomes D e"
  by (auto simp: read_event_def u32_at_def byte_at_def cstring_at_def Let_def ebnd_def split: sum.splits if_splits)

lemma carries_on_event:
  assumes pm: "in_manager pm L" and w: "mBuilder w = mBuildStep pm"
  shows "carries (equipped L D) (becomes D) (on_event os lg c pm ev w)"
proof -
  have filter: "carries (equipped L D) (becomes D) (on_filter os lg pm ev str w)" if "mBuilder w = mBuildStep pm" for str w
    unfolding on_filter_def rebuild_def restartProgram_def restartProcesses_def Let_def that
    by (auto intro!: carries_intros carries_restartAll pm carries_bnd_deref carries_runAndWait
        intro: in_managerD [OF pm] strMatch_becomes modified_text_ok [unfolded not_None_eq])
  have "carries (equipped L D) (becomes D) (for_acc (on_filter os lg pm ev) fs w)" if "mBuilder w = mBuildStep pm" for fs w
    using that
    by (induction fs arbitrary: w)
       (simp_all add: carries_simple carries_bnd_same [OF filter on_filter_same])
  with w show ?thesis
    unfolding on_event_def by (intro carries_thn carries_if carries_LOG carries_simple event_text_ok) simp
qed

lemma carries_event_loop:
  assumes "in_manager pm L" "mBuilder w = mBuildStep pm"
  shows "carries (equipped L D) (becomes D) (event_loop n os lg c pm i got w)"
  using assms(2)
proof (induction n arbitrary: i w)
  case (Suc n)
  then show ?case
    by (auto intro!: carries_intros carries_bnd_same [OF carries_on_event [OF assms(1)] on_event_same]
        intro: read_event_becomes)
qed (simp add: carries_simple)

lemma carries_listen:
  assumes "in_manager pm L" "mBuilder w = mBuildStep pm"
  shows "carries (equipped L D) (becomes D) (listen os lg c pm w)"
  unfolding listen_def Let_def
  by (auto intro!: carries_intros carries_event_loop [OF assms(1)] simp: assms(2) split: prod.split)

lemma carries_shut_down: "carries (equipped L D) (becomes D) (shut_down os c pm w)"
proof -
  have "carries (equipped L D) (becomes D) (free_command cc)" for cc
    unfolding free_command_def by (cases "cmd cc") (simp_all add: carries_intros)
  moreover have "carries (equipped L D) (becomes D) (delete_Process os lg p)" for lg p
    unfolding delete_Process_def by (auto intro!: carries_intros)
  moreover from this have "carries (equipped L D) (becomes D) (delete_maybe os lg p)" for lg p
    unfolding delete_maybe_def by (cases p) (simp_all add: carries_intros)
  ultimately show ?thesis
    unfolding shut_down_def delete_Watcher_def delete_Config_def delete_ProcessManager_def killAll_def
      haltConstructionProcs_def removeAllWatches_def
    by (auto intro!: carries_intros carries_for_each)
qed

section \<open>Start-up\<close>

text \<open>Setting up the watcher executes nothing.\<close>

lemma carries_new_Watcher: "carries (equipped L D) (becomes D) (new_Watcher depth os dir pm recursive)"
proof -
  have calls: "carries (equipped L D) (becomes D) (cwd os)" "carries (equipped L D) (becomes D) (listDir os path ft)"
      "carries (equipped L D) (becomes D) (perror os message)" for path ft message
    unfolding cwd_def sys_getcwd_def throw_CException_def listDir_def list_entry_def sys_lstat_def S_ISDIR_def
      sys_opendir_def perror_def sys_write_def
    by (auto intro!: carries_intros split: option.split prod.split)
  have "carries (equipped L D) (becomes D) (recursiveWatch depth os fd path fds)" for fd path fds
    by (induction depth arbitrary: path fds) (auto intro!: carries_intros calls simp: sys_add_watch_def)
  then show ?thesis
    unfolding new_Watcher_def watchDirectory_def sys_inotify_init_def sys_add_watch_def Let_def
    by (auto intro!: carries_intros calls split: prod.split)
qed

text \<open>The commands a document asks for.\<close>

definition commands :: "doc_spec \<Rightarrow> string list set" where
  "commands d = set (doc_tests d @ opt_list (doc_builder d) @ opt_list (doc_started d))"

lemma shows_equipped:
  assumes "shows_document (procs s) (argvs s) c pm d"
  shows "equipped (set (objects pm)) (commands d) s"
proof -
  have tests: "\<exists>ws \<in> set (doc_tests d). runs (procs s) (argvs s) p ws" if "p \<in> set (mProcesses pm)" for p
    using that assms unfolding shows_document_def by (metis list_all2_iff in_set_zip in_set_conv_nth fst_conv snd_conv list_all2_conv_all_nth)
  have "\<exists>ws \<in> commands d. runs (procs s) (argvs s) p ws" if "p \<in> set (objects pm)" for p
    using that assms tests by (auto simp: shows_document_def objects_def commands_def option_rel_Some1)
  then show ?thesis by (fastforce simp: equipped_def runs_def)
qed

lemma start_up_equipped:
  assumes "start_up depth os y s = (Val (c, pm, w), t)"
  shows "\<exists>d. file_meaning os y (hist s) = Inr d \<and> equipped (set (objects pm)) (commands d) t \<and> mBuilder w = mBuildStep pm"
proof -
  obtain u where new: "new_Config os StdoutLogger y new_ProcessManager s = (Val (c, pm), u)"
      and watch: "new_Watcher depth os ''./'' pm True u = (Val w, t)"
    using assms by (auto simp: start_up_def bnd_def ret_def split: res.splits prod.splits)
  from new_Config_reads [OF new] obtain d
    where d: "file_meaning os y (hist s) = Inr d" "shows_document (procs u) (argvs u) c pm d" by auto
  from carriesD_Val [OF carries_new_Watcher shows_equipped [OF d(2)] watch]
  show ?thesis using d(1) start_up_Val [OF assms] by auto
qed

lemma start_up_becomes:
  assumes "start_up depth os y s = (Stop e, t)"
  shows "\<not> (\<exists>in_path name v. e = Replaced in_path name v)"
proof (cases "new_Config os StdoutLogger y new_ProcessManager s")
  case (Pair r u)
  show ?thesis
  proof (cases r)
    case (Stop e')
    with Pair assms have "e' = e" by (simp add: start_up_def bnd_Stop)
    with new_Config_polite Pair Stop show ?thesis by (metis polite.simps(3))
  next
    case (Val cp)
    obtain c pm where "cp = (c, pm)" by (cases cp)
    with Pair Val assms have "new_Watcher depth os ''./'' pm True u = (Stop e, t)"
      by (auto simp: start_up_def seq_run ret_def split: prod.splits res.splits)
    from carriesD_Stop [OF carries_new_Watcher _ this, of "{}" "{}"] show ?thesis by (auto simp: equipped_def)
  qed
qed

section \<open>The programs that are executed\<close>

lemma event_loop_builder:
  "triple (\<lambda>_. True) (event_loop n os lg c pm i got w) (\<lambda>w' _. mBuilder w' = mBuilder w) (\<lambda>_ _. True)"
proof (induction n arbitrary: i w)
  case (Suc n)
  have "triple (\<lambda>_. same_watch w w') (event_loop n os lg c pm i got w') (\<lambda>w' _. mBuilder w' = mBuilder w) (\<lambda>_ _. True)" for i w'
    using Suc.IH [of i w'] same_watchD [of w w'] by (fastforce simp: triple_def split: prod.splits res.splits)
  note loop = triple_bnd [OF on_event_same this]
  show ?case
    unfolding event_loop.simps
    by (rule triple_if, rule triple_bnd [OF triple_any], rule loop, rule triple_ret, rule refl)
qed (simp add: triple_halt)

lemma listen_builder:
  "triple (\<lambda>_. True) (listen os lg c pm w) (\<lambda>w' _. mBuilder w' = mBuilder w) (\<lambda>_ _. True)"
proof -
  have loop: "triple (\<lambda>_. True) (event_loop n os lg c pm i got (w\<lparr>mBuffer := buf\<rparr>)) (\<lambda>w' _. mBuilder w' = mBuilder w) (\<lambda>_ _. True)"
    for n i got buf
    using event_loop_builder [of n os lg c pm i got "w\<lparr>mBuffer := buf\<rparr>"] by simp
  then show ?thesis
    unfolding listen_def Let_def
    by (auto intro!: triple_bnd [OF triple_any] triple_thn [OF triple_any] triple_ret split: prod.split)
qed

text \<open>The meaning of the configuration file as it is when the program starts: nothing but output was before.\<close>

definition asked :: "os \<Rightarrow> 'n yaml \<Rightarrow> doc_spec \<Rightarrow> bool" where
  "asked os y d \<longleftrightarrow> (\<exists>h. acts h = [] \<and> file_meaning os y h = Inr d)"

definition armed :: "os \<Rightarrow> 'n yaml \<Rightarrow> phase \<times> program \<Rightarrow> bool" where
  "armed os y st \<longleftrightarrow> (case fst st of
     Starting \<Rightarrow> acts (hist (machine (snd st))) = []
   | Looping c pm w \<Rightarrow> mBuilder w = mBuildStep pm \<and>
       (\<exists>d. asked os y d \<and> equipped (set (objects pm)) (commands d) (machine (snd st)))
   | Dead (Replaced in_path name v) \<Rightarrow> \<exists>d. asked os y d \<and> becomes (commands d) (Replaced in_path name v)
   | _ \<Rightarrow> True)"

lemma armed_dead:
  "(\<exists>d. asked os y d \<and> becomes (commands d) e) \<or> \<not> (\<exists>in_path name v. e = Replaced in_path name v) \<Longrightarrow>
   armed os y (Dead e, p)"
  by (cases e; simp add: armed_def; blast)

lemma armed_step:
  assumes "main_step depth os y st st'" "armed os y st"
  shows "armed os y st'"
  using assms
proof cases
  case (started p c pm w t)
  from start_up_equipped [OF started(3)] started(1,2) assms(2) show ?thesis by (auto simp: armed_def asked_def)
next
  case (start_stopped p e t)
  with start_up_becomes show ?thesis by (blast intro: armed_dead)
next
  case (round p c pm w w' t)
  with assms(2) obtain d where s: "asked os y d" "mBuilder w = mBuildStep pm"
      "equipped (set (objects pm)) (commands d) (machine p)" by (auto simp: armed_def)
  have pm: "in_manager pm (set (objects pm))" by (simp add: in_manager_def)
  from carriesD_Val [OF carries_listen [OF pm s(2)] s(3) round(4)] triple_Val [OF listen_builder TrueI round(4)] s round(2)
  show ?thesis by (auto simp: armed_def)
next
  case (round_stopped p c pm w e t)
  with assms(2) obtain d where s: "asked os y d" "mBuilder w = mBuildStep pm"
      "equipped (set (objects pm)) (commands d) (machine p)" by (auto simp: armed_def)
  have pm: "in_manager pm (set (objects pm))" by (simp add: in_manager_def)
  from carriesD_Stop [OF carries_listen [OF pm s(2)] s(3) round_stopped(4)] s(1) round_stopped(2)
  show ?thesis by (blast intro: armed_dead)
next
  case (finish_stopped p c pm w e t)
  with assms(2) obtain d where s: "asked os y d" "equipped (set (objects pm)) (commands d) (machine p)"
    by (auto simp: armed_def)
  from carriesD_Stop [OF carries_shut_down s(2) finish_stopped(4)] s(1) finish_stopped(2)
  show ?thesis by (blast intro: armed_dead)
qed (auto simp: armed_def interrupt_machine equipped_def)

text \<open>
  C8. A process of the program never becomes anything but a command of the configuration: whatever the
  system does, when a forked child replaces itself, then by a build step, test or program that the
  document asks for in a section that is switched on, with this command's words as its arguments and its
  first word looked up on the search path.
\<close>

theorem child_becomes_command:
  assumes "reachable depth os y (Dead (Replaced in_path name v), p)"
  shows "\<exists>h d. acts h = [] \<and> file_meaning os y h = Inr d \<and>
    v \<in> commands d \<and> v \<noteq> [] \<and> name = hd v \<and> in_path"
proof -
  have "armed os y st" if "reachable depth os y st" for st
    using that
  proof induction
    case reach_init
    show ?case by (simp add: main_init_def armed_def sys0_def)
  qed (rule armed_step)
  from this [OF assms] show ?thesis by (auto simp: armed_def asked_def)
qed

section \<open>A child's run\<close>

text \<open>The process on the child's side of its first fork, in a system where every program can be executed.\<close>

abbreviation child_os :: os where
  "child_os \<equiv> forking False (\<lambda>h. (0, 0))"

lemma thn_exec_done:
  "(\<And>h. os_exec os h path file v = None) \<Longrightarrow>
   triple P (thn (sys_exec os path file v) k) Q (\<lambda>e _. e = Replaced path file v)"
  unfolding triple_def by (simp add: sys_exec_def seq_run gets_def halt_run)

lemma child_runs:
  assumes "slot P p = Some pr" "slot V (mCommand pr) = Some v" "v \<noteq> []"
  shows "triple (core_is A P V) (runAndWait child_os lg p) (\<lambda>_ _. False)
    (\<lambda>e _. e = Replaced (mSearchInPath pr) (hd v) v)"
proof -
  have fork: "triple (core_is (A @ [EFork 0]) P V) (k 0) Q E \<Longrightarrow> triple (core_is A P V) (bnd (sys_fork child_os) k) Q E"
    for k :: "int \<Rightarrow> bool io" and Q E
    by (rule triple_core_bndI [where R = "\<lambda>x c. x = 0 \<and> c = (A @ [EFork 0], P, V)"])
       (auto simp: sys_fork_def sys_call_def bnd_def ret_def core_def)
  have exec: "os_exec child_os h path name v = None" for h path name
    by (simp add: run_system_def ready_os_def demo_os_def)
  let ?P = "P[p := Some (pr\<lparr>mProc := 0\<rparr>)]"
  have s: "slot ?P p = Some (pr\<lparr>mProc := 0\<rparr>)" "slot V (mCommand (pr\<lparr>mProc := 0\<rparr>)) = Some v"
    using slot_length [OF assms(1)] assms(2) by (simp_all add: slot_update)
  have "triple (core_is A P V) (run child_os lg p) (\<lambda>_ _. False) (\<lambda>e _. e = Replaced (mSearchInPath pr) (hd v) v)"
    unfolding run_def
    by (rule fork, rule bnd_get_proc [OF assms(1)], rule thn_put_proc, simp add: run_child_def,
        rule thn_LOG, simp, rule bnd_get_proc [OF s(1)], rule bnd_get_argv, rule s(2), rule bnd_args_string [OF assms(3)],
        rule bnd_command_name [OF assms(3)], rule thn_LOG, simp, simp, rule thn_exec_done, rule exec)
  then show ?thesis
    unfolding runAndWait_def by (rule triple_bnd) (simp add: triple_def)
qed

text \<open>The first accepted event starts the build step, and that is where the child's run ends.\<close>

lemma child_reacts:
  assumes b: "slot P 0 = Some pb" "slot V (mCommand pb) = Some v" "v \<noteq> []"
    and w: "mBuilder w = Some 0" "mTimer w + 5 \<le> 1000"
  shows "triple (core_is A P V) (on_event child_os lg test_config test_manager demo_event w) (\<lambda>_ _. False)
    (\<lambda>e _. e = Replaced (mSearchInPath pb) (hd v) v)"
proof -
  have len: "length (''*.cpp'' :: string) < 2 ^ 64" by simp
  note yes = demo_modified(1) and it = demo_modified(3)
  have due: "os_mktime child_os ((os_localtime child_os (mTimer w))\<lparr>tm_sec := tm_sec (os_localtime child_os (mTimer w)) + 5\<rparr>) \<le> 1000"
    using w(2) by (simp add: run_system_def ready_os_def demo_os_def)
  have time: "os_time child_os h = 1000" for h by (simp add: run_answers(3))
  have build: "triple (core_is A P V) (rebuild child_os lg w) (\<lambda>_ _. False) (\<lambda>e _. e = Replaced (mSearchInPath pb) (hd v) v)"
    unfolding rebuild_def by (simp add: w(1) deref_def) (rule triple_bnd [OF child_runs [OF b]], simp add: triple_def)
  have "triple (core_is A P V) (on_filter child_os lg test_manager demo_event ''*.cpp'' w) (\<lambda>_ _. False)
      (\<lambda>e _. e = Replaced (mSearchInPath pb) (hd v) v)"
    unfolding on_filter_def Let_def
    by (rule bnd_lift_strMatch [OF len demo_modified(2)], unfold if_P [OF yes], rule thn_LOG [OF modified_text_ok],
        rule bnd_time_answer [OF time], unfold if_P [OF due], rule triple_bnd [OF build]) (simp add: triple_def)
  from triple_bnd [OF this] show ?thesis
    unfolding on_event_def if_P [OF it] test_filters for_acc.simps(2)
    by (intro thn_LOG event_text_ok) (simp add: triple_def)
qed

lemma child_ends:
  "\<exists>p. reachable 2 child_os run_yaml (Dead (Replaced True ''make'' [''make'']), p)"
proof -
  obtain s where s: "start_up 2 child_os run_yaml sys0 = (Val (test_config, test_manager, demo_watcher 985), s)"
    and heap: "procs s = [Some (section_object 0), Some (section_object 2)]"
      "argvs s = [Some [''make''], Some [''make'', ''test''], Some [''./bin/program'', ''--help'']]"
    using forking_begins by blast
  let ?p = "\<lparr>gRunning = True, machine = sys0\<rparr>\<lparr>machine := s\<rparr>"
  let ?s = "s\<lparr>hist := hist s @ [ESelect 3 1, ERead 3 32]\<rparr>"
  let ?w = "(demo_watcher 985)\<lparr>mBuffer := encode_event demo_event\<rparr>"
  have build: "slot (procs ?s) 0 = Some (section_object 0)" "slot (argvs ?s) (mCommand (section_object 0)) = Some [''make'']"
      "mSearchInPath (section_object 0)"
    using heap by (simp_all add: slot_def)
  have "triple (core_is (acts (hist ?s)) (procs ?s) (argvs ?s))
      (thn (LOG child_os StdoutLogger DEBUG ''Event buffer size: %d'' [PInt 32])
        (for_acc (on_event child_os StdoutLogger test_config test_manager) [demo_event] ?w))
      (\<lambda>_ _. False) (\<lambda>e _. e = Replaced True ''make'' [''make''])"
    using triple_bnd [OF child_reacts [OF build(1,2), of ?w]] build(3)
    by (intro thn_LOG) (simp_all add: demo_watcher_def triple_def)
  from triple_runD [OF this] obtain t where
    "listen child_os StdoutLogger test_config test_manager (demo_watcher 985) s = (Stop (Replaced True ''make'' [''make'']), t)"
    unfolding forking_listens by (auto split: prod.splits res.splits)
  then have "main_step 2 child_os run_yaml (Looping test_config test_manager (demo_watcher 985), ?p)
      (Dead (Replaced True ''make'' [''make'']), ?p\<lparr>machine := t\<rparr>)"
    by (intro round_stopped) (simp_all add: program_is_running_def)
  moreover have "reachable 2 child_os run_yaml (Looping test_config test_manager (demo_watcher 985), ?p)"
    by (rule reach_step [OF reach_init]) (unfold main_init_def, rule started, simp add: s)
  ultimately show ?thesis by (blast intro: reach_step)
qed

theorem child_becomes_command_witness:
  "\<exists>p h d. reachable 2 child_os run_yaml (Dead (Replaced True ''make'' [''make'']), p) \<and>
     acts h = [] \<and> file_meaning child_os run_yaml h = Inr d \<and> [''make''] \<in> commands d"
proof -
  obtain p where p: "reachable 2 child_os run_yaml (Dead (Replaced True ''make'' [''make'']), p)"
    using child_ends by blast
  from child_becomes_command [OF p] p show ?thesis by blast
qed

end
