(* ===== verification/Spare.thy ===== *)
theory Spare
  imports Rules
begin

text \<open>
  Code of the sources that nothing in the program calls: the tokenizer stub (src/src/tokenizer.hpp,
  src/src/tokenizer.cpp, not part of the build) and \<open>Util::getCurrentDateTime\<close> (src/src/util.cpp).
\<close>

section \<open>The tokenizer stub\<close>

datatype TokenType = PROJECT | INT | FLOAT | OPERATOR | GROUPING_SYMBOL | STRING | COMMENT | SPACE | ERROR

record Token =
  mType :: TokenType
  mValue :: string

definition new_Token :: "TokenType \<Rightarrow> string \<Rightarrow> Token" where
  "new_Token type val = \<lparr>mType = type, mValue = val\<rparr>"

definition getType :: "Token \<Rightarrow> TokenType" where
  "getType t = mType t"

definition getValue :: "Token \<Rightarrow> string" where
  "getValue t = mValue t"

text \<open>Neither constructor reads its stream, so every call gives the same answer.\<close>

definition getToken :: Token where
  "getToken = new_Token ERROR ''testing!''"

definition next_text :: string where
  "next_text = ''RAWR''"

section \<open>The date\<close>

text \<open>
  \<open>strftime\<close> with the format \<open>%Y-%m-%d.%X\<close> in the C locale, the only one the program has (it never
  calls \<open>setlocale\<close>), where \<open>%X\<close> is \<open>%H:%M:%S\<close>: the year in full, the other fields in two digits. A
  result that does not fit the buffer with its 0 leaves the buffer indeterminate.
\<close>

definition two_digits :: "int \<Rightarrow> string" where
  "two_digits n = (if 0 \<le> n \<and> n < 10 then CHR ''0'' # show_int n else show_int n)"

definition date_text :: "tm \<Rightarrow> string" where
  "date_text t =
     show_int (tm_year t + 1900) @ ''-'' @ two_digits (tm_mon t + 1) @ ''-'' @ two_digits (tm_mday t) @
     ''.'' @ two_digits (tm_hour t) @ '':'' @ two_digits (tm_min t) @ '':'' @ two_digits (tm_sec t)"

definition getCurrentDateTime :: "os \<Rightarrow> string io" where
  "getCurrentDateTime os =
     bnd (sys_time os) (\<lambda>now.
     let out = date_text (os_localtime os now) in
     if length out + 1 \<le> 128 then ret out else halt Undefined)"

text \<open>The buffer is large enough for every date \<open>localtime\<close> gives.\<close>

lemma length_in_base: "n < 10 ^ Suc k \<Longrightarrow> length (in_base 10 n) \<le> Suc k"
proof (induction k arbitrary: n)
  case 0
  then show ?case by (subst in_base.simps) simp
next
  case (Suc k)
  then have "n div 10 < 10 ^ Suc k" by (simp add: less_mult_imp_div_less)
  with Suc.IH [of "n div 10"] show ?case by (subst in_base.simps) simp
qed

lemma length_two_digits: "0 \<le> n \<Longrightarrow> n < 100 \<Longrightarrow> length (two_digits n) = 2"
  by (auto simp: two_digits_def show_int_def in_base.simps)

lemma length_show_int: "\<bar>n\<bar> < 10 ^ Suc k \<Longrightarrow> length (show_int n) \<le> Suc (Suc k)"
  using length_in_base [of "nat \<bar>n\<bar>" k] by (auto simp: show_int_def nat_less_iff abs_if split: if_splits)

lemma getCurrentDateTime_fits:
  assumes "\<bar>tm_year t\<bar> < 2 ^ 31" "tm_mon t \<in> {0..11}" "tm_mday t \<in> {1..31}" "tm_hour t \<in> {0..23}"
    "tm_min t \<in> {0..59}" "tm_sec t \<in> {0..60}" "os_localtime os (os_time os (hist s)) = t"
  shows "fst (getCurrentDateTime os s) = Val (date_text t)"
proof -
  have "length (show_int (tm_year t + 1900)) \<le> 11"
    using length_show_int [of "tm_year t + 1900" 9] assms(1) by simp
  then have "length (date_text t) \<le> 26"
    using assms(2-6) by (simp add: date_text_def length_two_digits)
  with assms(7) show ?thesis
    by (simp add: getCurrentDateTime_def sys_time_def sys_call_def bnd_def ret_def Let_def)
qed

end
