(* ===== verification/Suite.thy ===== *)
theory Suite
  imports Execs Spare
begin

text \<open>
  What the test suite (tests) checks, on the model: each test case as far as it is about the program, for every
  system on which its own preparations succeed. The suite's document is read in the theory Config.
\<close>

section \<open>test_config.cpp\<close>

text \<open>
  \<open>strarrlen\<close> counts the strings before the null pointer, but looks at the second one first: it reads
  behind the end of an array that has none.
\<close>

function strarr_loop :: "string list \<Rightarrow> nat \<Rightarrow> stop + nat" where
  "strarr_loop v i = (case argv_at v i of
     Inl e \<Rightarrow> Inl e
   | Inr None \<Rightarrow> Inr i
   | Inr (Some _) \<Rightarrow> strarr_loop v (Suc i))"
  by pat_completeness auto

termination
  by (relation "measure (\<lambda>(v, i). length v - i)") (auto dest: argv_at_Some)

definition strarrlen :: "string list option \<Rightarrow> stop + nat" where
  "strarrlen str = (case str of None \<Rightarrow> Inr 0 | Some v \<Rightarrow> strarr_loop v 1)"

declare strarr_loop.simps [simp del]

lemma strarr_loop_eq: "i \<le> length v \<Longrightarrow> strarr_loop v i = Inr (length v)"
proof (induction v i rule: strarr_loop.induct)
  case (1 v i)
  show ?case
  proof (cases "i < length v")
    case True
    with 1 show ?thesis by (subst strarr_loop.simps) (simp add: argv_at_def)
  next
    case False
    with 1 show ?thesis by (subst strarr_loop.simps) (simp add: argv_at_def)
  qed
qed

theorem strarrlen_outcome:
  "strarrlen None = Inr 0" "v \<noteq> [] \<Longrightarrow> strarrlen (Some v) = Inr (length v)" "strarrlen (Some []) = Inl Undefined"
  by (simp_all add: strarrlen_def strarr_loop_eq Suc_leI strarr_loop.simps [of "[]"] argv_at_def)

text \<open>The checks of the test case, for every system and logger.\<close>

theorem suite_config:
  "case new_Config_stream os lg (yaml_of (test_doc ''watch'')) new_ProcessManager [] sys0 of
     (Val (c, pm), t) \<Rightarrow>
        length (filters (getWatchConfig c)) = 5 \<and>
        hd (filters (getWatchConfig c)) = ''*.cpp'' \<and> last (filters (getWatchConfig c)) = ''include/*.hxx'' \<and>
        included (getWatchConfig c) = [''Makefile''] \<and> excluded (getWatchConfig c) = [''src/Config.cpp''] \<and>
        map (\<lambda>cc. strarrlen (slot (argvs t) (the (cmd cc)))) [getCompileConfig c, getTestConfig c, getProgramConfig c] =
          [Inr 1, Inr 2, Inr 2] \<and>
        map enabled [getCompileConfig c, getTestConfig c, getProgramConfig c] = [True, False, True]
   | (Stop e, t) \<Rightarrow> False"
  using read_test_doc [of sys0 os lg "[]"]
  by (auto simp: new_Config_stream_def sys0_def test_config_def test_watch_def getWatchConfig_def
      getCompileConfig_def getTestConfig_def getProgramConfig_def slot_def strarrlen_outcome)

section \<open>test_util.cpp\<close>

theorem suite_lowercase: "lowercase ''TeSt H2O'' = ''test h2o''" "lowercase_r ''TeSt H2O'' = ''test h2o''"
  by code_simp+

theorem suite_cwd:
  assumes "os_getcwd os (hist s) = Inr ''/tmp''"
  shows "\<exists>t. cwd os s = (Val ''/tmp'', t)"
  using assms by (simp add: cwd_def sys_getcwd_def sys_call_def seq_run ret_run Let_def)

text \<open>
  \<open>listDir\<close> of the current directory, the only one the suite lists: there the bare names are right, and
  the plain files come out.
\<close>

lemma list_file_static:
  "static_fs os fs ls \<Longrightarrow> fs n = Some d \<Longrightarrow> list_entry os FILETYPE n (st, rs) s =
    (Val (Some d, if d then rs else rs @ [n]), s\<lparr>hist := hist s @ [ELstat n (fs n)]\<rparr>)"
  by (simp add: list_entry_def lstat_static S_ISDIR_def deref_def) (simp add: ret_def)

lemma list_files_static:
  assumes "static_fs os fs ls" "\<forall>n \<in> set ns. fs n \<noteq> None"
  shows "\<exists>st' t. for_acc (list_entry os FILETYPE) ns (st, rs) s =
    (Val (st', rs @ filter (\<lambda>n. fs n = Some False) ns), t)"
  using assms(2)
proof (induction ns arbitrary: st rs s)
  case Nil
  show ?case by (simp add: ret_def)
next
  case (Cons n ns)
  then obtain d where d: "fs n = Some d" by auto
  note step = list_file_static [OF assms(1) d]
  from Cons show ?case
    using Cons.IH [of "Some d" "if d then rs else rs @ [n]" "s\<lparr>hist := hist s @ [ELstat n (fs n)]\<rparr>"]
    by (cases d) (simp_all add: bnd_def step d)
qed

theorem suite_listDir:
  assumes "static_fs os fs ls" "os_getcwd os (hist s) = Inr dir" "cstr dir = dir"
    and "fs dir = Some True" "ls dir = Inr ns" "\<forall>n \<in> set ns. fs n \<noteq> None"
  shows "\<exists>t. bnd (cwd os) (\<lambda>d. listDir os d FILETYPE) s = (Val (filter (\<lambda>n. fs n = Some False) ns), t)"
proof -
  have "\<exists>t. listDir os dir FILETYPE s' = (Val (filter (\<lambda>n. fs n = Some False) ns), t)" for s'
  proof -
    let ?s = "s'\<lparr>hist := (hist s' @ [ELstat dir (Some True)]) @ [EDir dir (Some ns)]\<rparr>"
    obtain st t where "for_acc (list_entry os FILETYPE) ns (Some True, []) ?s =
        (Val (st, filter (\<lambda>n. fs n = Some False) ns), t)"
      using list_files_static [OF assms(1,6), of "Some True" "[]" ?s] by auto
    then show ?thesis
      using assms(3,4)
      by (simp add: listDir_def lstat_static [OF assms(1)] S_ISDIR_def deref_def
          opendir_static [OF assms(1,5)]) (simp add: bnd_def ret_def)
  qed
  moreover obtain u where "cwd os s = (Val dir, u)"
    using assms(2) by (simp add: cwd_def sys_getcwd_def sys_call_def seq_run ret_run Let_def)
  ultimately show ?thesis by (simp add: bnd_Val)
qed

section \<open>test_process.cpp\<close>

text \<open>
  The child that \<open>runAndWait\<close> forks becomes \<open>touch\<close> with the file as its argument, or exits; the parent
  returns.
\<close>

theorem suite_runAndWait:
  assumes "new_Process_command ''touch /tmp/unit_test_file_0'' True s = (Val p, t)"
    and "runAndWait os lg p t = (Stop e, u)"
  shows "becomes {[''touch'', ''/tmp/unit_test_file_0'']} e"
proof -
  have cmd: "parseCommand ''touch /tmp/unit_test_file_0'' = Inr [''touch'', ''/tmp/unit_test_file_0'']" by code_simp
  from assms(1) have "equipped {p} {[''touch'', ''/tmp/unit_test_file_0'']} t"
    by (auto simp: new_Process_command_def cmd lift_res_def seq_run ret_run new_argv_def new_proc_def gets_def modify_def
        equipped_def slot_def)
  from carriesD_Stop [OF carries_runAndWait this assms(2)] show ?thesis by simp
qed

section \<open>test_log.cpp\<close>

text \<open>A file logger exists exactly if its file could be opened, so \<open>is_good\<close> can be asked only of one that is.\<close>

theorem suite_logger:
  "(\<exists>lg t. new_FileLogger os path s = (Val lg, t)) \<longleftrightarrow> os_open os (hist s) path"
  by (simp add: new_FileLogger_def sys_call_def bnd_def ret_def halt_def Let_def)

section \<open>test_tokenizer.cpp\<close>

text \<open>The test of the tokenizer, which the makefile has switched off, fails in every check.\<close>

theorem suite_tokenizer:
  "next_text \<noteq> ''test_project''" "getType getToken = ERROR" "getType getToken \<noteq> PROJECT"
  "getValue getToken \<noteq> ''test_project''"
  by (simp_all add: next_text_def getToken_def new_Token_def getType_def getValue_def)

end
