(* ===== verification/Spec2Isabelle.thy ===== *)
theory Spec2Isabelle
  imports Prototype Orphans Builds Suite
begin

text \<open>
  Renzoku: a verification library for the file watcher that rebuilds, retests and restarts a program
  when one of its files changes (src/src), and for the prototype it grew out of (src/oldwatcher.c).

  \<^bold>\<open>The program.\<close> \<open>main\<close> makes a logger, a \<open>ProcessManager\<close>, a \<open>Config\<close> that reads renzoku.conf
  and fills the manager with the processes of its sections (the build step, the tests, the program),
  and a \<open>Watcher\<close> that puts inotify watches on the current directory and all directories below it.
  Then it lets the watcher listen, round after round, until SIGINT clears a flag; the destructors
  kill all processes and free everything. A round takes the events out of the inotify buffer; a
  modified file that a filter accepts leads to a rebuild, at most every five seconds, and a successful
  rebuild to a restart: stop the tests, build, test, stop the program, start it again.

  \<^bold>\<open>How it is modelled.\<close> The sources are translated function by function. A C++ call is a
  computation \<open>sys \<Rightarrow> 'a res \<times> sys\<close> (theory Prelude): it returns a value or stops, by an exception,
  a failed \<open>assert\<close>, undefined behaviour, \<open>exec\<close> or \<open>exit\<close> (the last two in a forked child). The
  state \<open>sys\<close> (theory Machine) holds the history of the system calls with their answers, \<open>errno\<close>,
  and the heap of \<open>Process\<close> objects and argument vectors, addressed by index, so that a vector may be
  shared between a section of the configuration and a process, and a freed one is noticed. The
  operating system is a parameter \<open>os\<close>: functions from the history to the answer of each call. Theorems
  hold for every \<open>os\<close>, or for those that satisfy a named hypothesis:

  \<^item> \<open>posix\<close> (Machine): what fork, waitpid and kill promise about pids and children;
  \<^item> \<open>inotify_whole\<close> (Inotify): a read gives whole events, with or without a name, as many as fit the
    buffer; \<open>inotify_named\<close>: they all have names, which holds while no watched directory is removed
    and the queue does not overflow;
  \<^item> \<open>clock\<close> (Watcher): \<open>mktime\<close> of the local time with five seconds added is five seconds later;
  \<^item> \<open>static_fs\<close> and \<open>tame\<close> (Dirs): the file system holds still during the walk and the names in
    it have the type the current directory shows for them;
  \<^item> \<open>kids_killable\<close> (Prototype): a signal to an uncollected child can be delivered;
  \<^item> \<open>complete_config\<close> (Driver): every document that has a meaning asks for a build step and a program,
    with no empty command line, and no filter fills the address space (\<open>complete_doc\<close> of Document,
    \<open>filters_fit\<close> of Watcher).

  The children of the process are computed from the history (\<open>kids\<close>): a fork adds one, a wait that
  returns one takes it away.

  \<^bold>\<open>The theories.\<close>
  \<^item> Prelude, Machine, Rules: computations, the machine, triples over them and the rules for its
    primitive operations (collections \<open>triple_intros\<close>, \<open>calm_intros\<close>, \<open>keeps_intros\<close>, \<open>run_simps\<close>).
    Of a history, \<open>acts\<close> is what is left without output, and \<open>doings\<close> what was done to processes.
  \<^item> Logger (log.hpp, log.cpp): levels, the format of a message, both loggers. Locale \<open>logging\<close>:
    a message disturbs nothing but the output.
  \<^item> Command (\<open>parseCommand\<close> of util.cpp): the index loop, with the structural reference \<open>toks\<close>.
  \<^item> Glob (\<open>strMatch\<close>, \<open>lowercase\<close> of util.cpp): the filter at 64-bit indices, with the reference
    \<open>accepts\<close>.
  \<^item> Proc (process.hpp, process.cpp): \<open>Process\<close>, both sides of the fork; the traces \<open>run_trace\<close>,
    \<open>wait_trace\<close>, \<open>kill_trace\<close> of its operations.
  \<^item> ProcMan (procman.hpp, procman.cpp): \<open>ProcessManager\<close>; locale \<open>process_ops\<close> is what it needs of
    a process; \<open>restart_trace\<close> is the abstract cycle that \<open>restartAll\<close> refines, from the pids recorded
    before to those recorded after.
  \<^item> Dirs (exceptions.cpp, \<open>cwd\<close> and \<open>listDir\<close> of util.cpp, the walk of watcher.cpp): directories,
    watches, and the abstract tree \<open>below\<close>.
  \<^item> Config (config.hpp, config.cpp, config_sections.hpp): reading the configuration. yaml-cpp is the
    parameter \<open>yaml\<close>, instantiated by the document type \<open>ynode\<close> in the witnesses.
  \<^item> Document: what a document means, as values without heap and objects (\<open>document_of\<close>), and the
    refinement \<open>reads\<close> that the code of Config implements it.
  \<^item> Inotify (the event queue and buffer of watcher.hpp, watcher.cpp): the buffer as bytes, its decoding
    by index, the kernel's encoding and the round trip between them; \<open>overreads\<close> says exactly which
    contents make the code read behind what was written.
  \<^item> Watcher (watcher.hpp, watcher.cpp): the class, its loop over the buffer (equal to \<open>on_events\<close>, a
    loop over a list of events) and the reactions. Three locales lead from the interface of a property
    to a round that keeps it: \<open>calm_closed\<close> (calls that do nothing to processes do not matter),
    \<open>reactive\<close> (the build step and a restart keep it), and \<open>restartable\<close>, which implies it for properties
    that every operation on a process keeps. \<open>session\<close> and the whole history \<open>chronicle\<close> are
    interpreted in them.
  \<^item> Builds: how often a modified file is built (\<open>attempts\<close>).
  \<^item> Targets: which pids the program signals and waits for, on any system; \<open>owns\<close> is an invariant that
    every operation keeps whether it returns or stops, interpreted in \<open>calm_closed\<close>.
  \<^item> Driver (main.cpp, signals.cpp): start-up, the loop and the end as a step relation \<open>main_step\<close>, in
    which the signal may come between any two rounds; \<open>main_inv\<close> lifts a \<open>loop_property\<close> to an invariant
    of it, and is used for the session and for the history of reactions.
  \<^item> Scenario: one run from start-up to the end, symbolically executed, as the witness of the theorems on
    the whole program.
  \<^item> Execs: what a forked child becomes, from the configuration file to \<open>exec\<close>. \<open>carries\<close> keeps a
    property (\<open>equipped\<close>: the manager's objects run commands of the document) up to a run that stops, and
    says how it stops; the child's side of a fork is run symbolically as its witness.
  \<^item> Orphans: the children of the program on any system, interrupted waits and refused signals included;
    \<open>lost\<close> reads off the history which of them nobody will wait for any more.
  \<^item> Prototype (oldwatcher.c, and its second edition, which is left in process.cpp and watcher.cpp under
    \<open>NOBUILD\<close> and \<open>DEBUG\<close>) and Spare (the tokenizer stub, \<open>getCurrentDateTime\<close>).
  \<^item> Suite (tests): the checks of the test suite that are about the program, on the model.

  \<^bold>\<open>What is shown.\<close> Text blocks marked C1 to C40 stand before the main theorems. Driver: in every
  reachable state the only child there may be is the program's last instance; the whole run is a
  sequence of reactions with nothing done to processes in between; no round runs into undefined
  behaviour but for an event without a name; the ways the program can die; SIGINT ends it with all
  children gone and everything freed; it signals only pids its own forks gave it. Execs: its children become
  nothing but commands of the configuration. Orphans: a child that is not the
  program was lost by a wait that failed or a signal that was refused. ProcMan and Proc: the
  restart cycle, no second instance, what running, waiting and killing do to the children, the bounds of
  the argument text. Watcher and Inotify: decoding the buffer is looping over the events, debouncing,
  what a modified file leads to. Builds: that it is built, and how often. Dirs: the walk ends and
  watches exactly the tree. Config and Document: reading a file gives its meaning or the error it has, and
  well-formed sections. Command, Glob, Logger: equivalence with the references, round trips, output.
  Several theorems state where the code falls short of its
  documentation or of itself: the program is restarted after failed tests, a modified file builds twice
  and a failed build is repeated for every filter that accepts the file,
  a missing compile section is a null pointer, an event without a name is read past its end, a pid is
  signalled after its child was collected, an interrupted wait counts as a success, path filters never
  match, quotes after a blank are not seen, directories are listed by their bare names, a descriptor is
  leaked.

  \<^bold>\<open>Bounds.\<close> \<open>recursiveWatch\<close> takes a depth bound; any bound above the height of the tree is enough
  (shown in Dirs). The loop over the buffer has \<open>EVENT_FUEL = 2049\<close> rounds: a buffer of 32768
  bytes holds at most 2048 events of at least 16 bytes, and the last round sees the end
  (shown in Inotify and Watcher). \<open>old_rounds\<close> takes the number of rounds; Prototype says how many are
  enough.

  \<^bold>\<open>Not modelled.\<close> Signals are delivered between rounds of the main loop, or before a look at the flag
  of the prototype; that a signal interrupts a call is an answer of the system (\<open>select\<close>, \<open>read\<close> or
  \<open>waitpid\<close> fails). \<open>posix\<close> takes waits not to be interrupted; \<open>interrupted_wait_succeeds\<close> (Proc)
  shows what happens otherwise, Orphans which children are left then, and the theorems without \<open>posix\<close>
  hold for interrupted waits as well.
  Output is written at once: the buffers of \<open>cout\<close> and \<open>stdio\<close>, which a forked child would copy, are
  left out. Memory is never exhausted. The header i_configfile.hpp is included by no file; the test
  runner, the build files and the packaging hold no code of the program. \<open>ignore_states\<close>, \<open>mFiletypes\<close> and
  \<open>LogMethod\<close> are never used.
\<close>

end
